(* ===== verification/Prelude.thy ===== *)
theory Prelude
  imports Main "HOL-Library.Word"
begin

unbundle bit_operations_syntax

text \<open>
  The ground every component stands on: the names of the machine types, the result type of an
  operation that may block or run into undefined behaviour, the exceptions of the C++ library the
  code catches, and the generic facts on words, lists and options the component proofs share.
\<close>

subsection \<open>Machine types\<close>

type_synonym u8 = "8 word"
type_synonym u16 = "16 word"
type_synonym u32 = "32 word"
type_synonym u64 = "64 word"
type_synonym bytes = "u8 list"

text \<open>
  \<open>static_cast<int>\<close> of a wider integer keeps the low 32 bits and reads them as two's
  complement (every supported compiler; the standard says so from C++20 on).
\<close>

definition int32_of_int :: "int \<Rightarrow> int" where
  "int32_of_int i = sint (word_of_int i :: u32)"

subsection \<open>Outcomes\<close>

text \<open>
  A C++ operation returns a value, waits (a condition variable's predicate is false, a lock is
  held), or has no defined behaviour at all. Exceptions are a sum inside \<open>Ret\<close>.
\<close>

datatype 'a outcome = Ret 'a | Blocks | UB

primrec obind :: "'a outcome \<Rightarrow> ('a \<Rightarrow> 'b outcome) \<Rightarrow> 'b outcome" where
  "obind (Ret x) f = f x"
| "obind Blocks f = Blocks"
| "obind UB f = UB"

lemma obind_assoc: "obind (obind m f) g = obind m (\<lambda>x. obind (f x) g)"
  by (cases m) auto

lemma obind_Ret_right [simp]: "obind m Ret = m"
  by (cases m) auto

lemma obind_eq_Ret: "obind m f = Ret y \<longleftrightarrow> (\<exists>x. m = Ret x \<and> f x = Ret y)"
  by (cases m) auto

lemma obind_eq_UB: "obind m f = UB \<longleftrightarrow> m = UB \<or> (\<exists>x. m = Ret x \<and> f x = UB)"
  by (cases m) auto

lemma obind_eq_Blocks: "obind m f = Blocks \<longleftrightarrow> m = Blocks \<or> (\<exists>x. m = Ret x \<and> f x = Blocks)"
  by (cases m) auto

lemmas obind_eqs = obind_eq_Ret obind_eq_UB obind_eq_Blocks

text \<open>The exceptions of the standard library that the code provokes and catches.\<close>

datatype std_exn = InvalidArgument | OutOfRange

text \<open>\<open>catch (...)\<close> around an assignment: the old value stays when the right side throws.\<close>

definition or_keep :: "'e + 'a \<Rightarrow> 'a \<Rightarrow> 'a" where
  "or_keep r old = (case r of Inl _ \<Rightarrow> old | Inr v \<Rightarrow> v)"

lemma or_keep_simps [simp]: "or_keep (Inl e) old = old" "or_keep (Inr v) old = v"
  by (simp_all add: or_keep_def)

subsection \<open>Collections of facts\<close>

named_theorems bus_inv \<open>preservation of the bus invariant, one fact per operation\<close>

subsection \<open>Words\<close>

lemma word_less_nat_unat: "(a :: 'a::len word) \<le> b \<longleftrightarrow> unat a \<le> unat b"
  by (simp add: word_le_nat_alt)

lemma u8_eqI:
  assumes "bit a 0 = bit b 0" "bit a 1 = bit b 1" "bit a 2 = bit b 2" "bit a 3 = bit b 3"
    "bit a 4 = bit b 4" "bit a 5 = bit b 5" "bit a 6 = bit b 6" "bit a 7 = bit b 7"
  shows "a = (b :: u8)"
proof (rule bit_word_eqI)
  fix n assume "n < LENGTH(8)"
  then have "n = 0 \<or> n = 1 \<or> n = 2 \<or> n = 3 \<or> n = 4 \<or> n = 5 \<or> n = 6 \<or> n = 7"
    by simp arith
  then show "bit a n = bit b n" using assms by (elim disjE) simp_all
qed

lemma u8_unat_less: "unat (w :: u8) < 256"
  using unsigned_less [of w] by simp

lemma u8_all_iff: "(\<forall>w :: u8. P w) \<longleftrightarrow> list_all (\<lambda>n. P (word_of_nat n)) [0..<256]"
proof
  assume a: "list_all (\<lambda>n. P (word_of_nat n)) [0..<256]"
  show "\<forall>w :: u8. P w"
  proof
    fix w :: u8
    have "unat w \<in> set [0..<256]" using u8_unat_less [of w] by simp
    with a have "P (word_of_nat (unat w))" by (metis list_all_iff)
    then show "P w" by simp
  qed
qed (simp add: list_all_iff)

lemma u8_le_63_bits: "(w :: u8) \<le> 0x3F \<Longrightarrow> \<not> bit w 6 \<and> \<not> bit w 7"
proof -
  assume "w \<le> 0x3F"
  then have "unat w < 64" by (simp add: word_le_nat_alt)
  then have "unat w div 64 = 0" "unat w div 128 = 0" by simp_all
  then have "\<not> bit (unat w) 6" "\<not> bit (unat w) 7"
    by (simp_all add: bit_iff_odd)
  then show ?thesis by (simp add: bit_unsigned_iff)
qed

lemma u8_and_63_id: "(w :: u8) \<le> 0x3F \<Longrightarrow> w AND 0x3F = w"
  using u8_le_63_bits [of w] by (intro u8_eqI) (simp_all add: bit_simps)

lemma u8_and_63_le: "(w :: u8) AND 0x3F \<le> 0x3F"
  by (rule word_and_le1)

lemma unat_u8_to_u16 [simp]: "unat (ucast (b :: u8) :: u16) = unat b"
  using u8_unat_less [of b] by (simp add: unsigned_ucast_eq take_bit_nat_def)

lemma unat_to_u8: "unat (ucast (w :: 'a::len word) :: u8) = unat w mod 256"
  by (simp add: unsigned_ucast_eq take_bit_nat_def)

lemma unat_eqI: "unat a = unat b \<Longrightarrow> (a :: 'a::len word) = b"
  by (simp add: unsigned_word_eqI)

lemma xor_left_cancel: "a XOR b = a XOR c \<longleftrightarrow> b = (c :: 'a::len word)"
proof
  assume "a XOR b = a XOR c"
  then have "a XOR (a XOR b) = a XOR (a XOR c)" by simp
  then show "b = c" by (simp add: xor.assoc [symmetric])
qed simp

lemma xor_right_cancel: "b XOR a = c XOR a \<longleftrightarrow> b = (c :: 'a::len word)"
  by (simp add: xor.commute [of _ a] xor_left_cancel)

lemma xor_eq_0_iff: "a XOR b = 0 \<longleftrightarrow> a = (b :: 'a::len word)"
  using xor_left_cancel [of b a b] by (simp add: xor.commute)

lemma xor_exchange: "a XOR b = c XOR d \<longleftrightarrow> a XOR c = b XOR (d :: 'a::len word)"
proof -
  have "a XOR b = c XOR d \<longleftrightarrow> (a XOR b) XOR (c XOR b) = (c XOR d) XOR (c XOR b)"
    by (simp add: xor_right_cancel)
  also have "(a XOR b) XOR (c XOR b) = a XOR c" by (rule bit_word_eqI) (auto simp: bit_simps)
  also have "(c XOR d) XOR (c XOR b) = b XOR d" by (rule bit_word_eqI) (auto simp: bit_simps)
  finally show ?thesis .
qed

lemma bit_255: "bit (0xFF :: 'a::len word) n \<longleftrightarrow> n < 8 \<and> n < LENGTH('a)"
proof -
  have "(mask 8 :: 'a word) = 0xFF" by (simp add: mask_eq_exp_minus_1)
  then have "bit (0xFF :: 'a word) n = bit (mask 8 :: 'a word) n" by (simp only:)
  also have "\<dots> \<longleftrightarrow> n < 8 \<and> n < LENGTH('a)" by (auto simp only: bit_mask_iff possible_bit_word)
  finally show ?thesis .
qed

lemma push8_low: "push_bit 8 x AND 0xFF = (0 :: 'a::len word)"
proof (rule bit_word_eqI)
  fix n assume "n < LENGTH('a)"
  show "bit (push_bit 8 x AND 0xFF) n = bit (0 :: 'a word) n"
    unfolding bit_and_iff bit_push_bit_iff bit_255 by simp
qed

text \<open>Two bytes are equal modulo 255 only as 0 and 255.\<close>

lemma mod_255_shift:
  assumes "a < 256" "b < 256" "(a :: nat) \<noteq> b"
  shows "(r + a) mod 255 = (r + b) mod 255 \<longleftrightarrow> {b, a} = {0, 255}"
proof -
  have less: "a = 0 \<and> b = 255"
    if "a < b" "b < 256" "(r + a) mod 255 = (r + b) mod 255" for a b :: nat
  proof -
    have "255 dvd (r + b) - (r + a)"
      using that mod_eq_dvd_iff_nat [of "r + a" "r + b" 255] by simp
    then have "255 dvd b - a" by simp
    then obtain k where "b - a = 255 * k" by (rule dvdE)
    then show ?thesis using that by (cases k) auto
  qed
  show ?thesis
    using assms less [of a b] less [of b a]
    by (cases a b rule: linorder_cases) (auto simp: doubleton_eq_iff)
qed

subsection \<open>Lists\<close>

lemma filter_remove1_comm: "distinct xs \<Longrightarrow> set (remove1 x xs) = set xs - {x}"
  by simp

lemma foldl_snoc: "foldl f a (xs @ [x]) = f (foldl f a xs) x"
  by simp

lemma sum_list_map_update:
  assumes "i < length xs"
  shows "sum_list (map f (xs[i := x])) + f (xs ! i) = sum_list (map f xs) + (f x :: nat)"
  using assms
proof (induction xs arbitrary: i)
  case Nil
  then show ?case by simp
next
  case (Cons y ys)
  then show ?case by (cases i) auto
qed

lemma drop_eq_ConsD: "drop n xs = y # ys \<Longrightarrow> n < length xs \<and> xs ! n = y \<and> drop (Suc n) xs = ys"
  by (metis drop_all drop_eq_Nil list.distinct(1) list.inject Cons_nth_drop_Suc not_le)

subsection \<open>Runs\<close>

text \<open>What a state machine puts out, operation by operation, along a run (\<open>fold step ops\<close> is its end).\<close>

primrec trace :: "('op \<Rightarrow> 's \<Rightarrow> 's) \<Rightarrow> ('op \<Rightarrow> 's \<Rightarrow> 'b list) \<Rightarrow> 'op list \<Rightarrow> 's \<Rightarrow> 'b list" where
  "trace step out [] s = []"
| "trace step out (x # xs) s = out x s @ trace step out xs (step x s)"

lemma trace_append: "trace step out (xs @ ys) s = trace step out xs s @ trace step out ys (fold step xs s)"
  by (induction xs arbitrary: s) auto

lemma fold_invariant: "I s \<Longrightarrow> (\<And>x s. I s \<Longrightarrow> I (step x s)) \<Longrightarrow> I (fold step xs s)"
  by (induction xs arbitrary: s) auto

lemma trace_silent: "I s \<Longrightarrow> (\<And>x s. I s \<Longrightarrow> I (step x s) \<and> out x s = []) \<Longrightarrow> trace step out xs s = []"
  by (induction xs arbitrary: s) auto

lemma nth_list_update_other: "j < length xs \<Longrightarrow> xs[i := x] ! j = (if i = j then x else xs ! j)"
  by auto

subsection \<open>Machines\<close>

text \<open>
  A machine whose steps may wait or be undefined, run over a list of events; and one that keeps an
  invariant.
\<close>

locale machine =
  fixes step :: "'e \<Rightarrow> 's \<Rightarrow> 's outcome"
    and run :: "'e list \<Rightarrow> 's \<Rightarrow> 's outcome"
  assumes run_Nil: "run [] s = Ret s"
    and run_Cons: "run (e # es) s = obind (step e s) (run es)"
begin

lemma run_append: "run (es @ es') s = obind (run es s) (run es')"
proof (induction es arbitrary: s)
  case (Cons e es)
  then show ?case by (cases "step e s") (simp_all add: run_Cons)
qed (simp add: run_Nil)

lemma run_ConsE:
  assumes "run (e # es) s = Ret s'"
  obtains s1 where "step e s = Ret s1" "run es s1 = Ret s'"
  using assms by (auto simp: run_Cons obind_eq_Ret)

lemma run_invariant:
  assumes "P s" "run es s = Ret s'" "\<And>e s s'. e \<in> set es \<Longrightarrow> P s \<Longrightarrow> step e s = Ret s' \<Longrightarrow> P s'"
  shows "P s'"
  using assms
proof (induction es arbitrary: s)
  case (Cons e es)
  then obtain s1 where "step e s = Ret s1" "run es s1 = Ret s'" by (blast elim: run_ConsE)
  with Cons show ?case by (metis list.set_intros)
qed (simp add: run_Nil)

end

locale safe_machine = machine step run
  for step :: "'e \<Rightarrow> 's \<Rightarrow> 's outcome" and run :: "'e list \<Rightarrow> 's \<Rightarrow> 's outcome" +
  fixes good :: "'s \<Rightarrow> bool"
  assumes step_good: "good s \<Longrightarrow> step e s = Ret s' \<Longrightarrow> good s'"
begin

lemma run_good: "good s \<Longrightarrow> run es s = Ret s' \<Longrightarrow> good s'"
  using run_invariant [of good] step_good by blast

lemma run_good_invariant:
  assumes "good s" "P s" "run es s = Ret s'"
    and "\<And>e s s'. e \<in> set es \<Longrightarrow> good s \<Longrightarrow> P s \<Longrightarrow> step e s = Ret s' \<Longrightarrow> P s'"
  shows "good s' \<and> P s'"
  using run_invariant [of "\<lambda>s. good s \<and> P s", OF _ assms(3)] assms step_good by blast

end

subsection \<open>Codecs\<close>

text \<open>A writer whose reader gives back what was written, in the reader's form of a success.\<close>

locale codec =
  fixes enc :: "'a \<Rightarrow> 'b" and dec :: "'b \<Rightarrow> 'c" and success :: "'a \<Rightarrow> 'c"
  assumes dec_enc: "dec (enc x) = success x"
    and success_inj: "success x = success y \<Longrightarrow> x = y"
begin

lemma enc_eq_iff: "enc x = enc y \<longleftrightarrow> x = y"
  using dec_enc success_inj by metis

lemma inj_enc: "inj enc"
  by (simp add: inj_def enc_eq_iff)

end

end
