(* ===== verification/Crc16.thy ===== *)
theory Crc16
  imports Prelude
begin

text \<open>
  CRC-16/CCITT-FALSE as \<open>src/safety/e2e.cpp\<close> computes it bit by bit, and what its register does to
  differences between messages: changed bytes in a locale for any byte-wise register whose step is
  injective, interpreted on the code's step, and bursts that start at any bit by reading the register
  as a linear one that takes a bit at a time.
\<close>

subsection \<open>The register\<close>

text \<open>One turn of the inner loop, and one turn of the outer loop.\<close>

definition crc_bit :: "u16 \<Rightarrow> u16" where
  "crc_bit crc = (if crc AND 0x8000 \<noteq> 0 then push_bit 1 crc XOR 0x1021 else push_bit 1 crc)"

definition crc_byte :: "u16 \<Rightarrow> u8 \<Rightarrow> u16" where
  "crc_byte crc b = (crc_bit ^^ 8) (crc XOR push_bit 8 (ucast b))"

definition crc16 :: "bytes \<Rightarrow> u16" where
  "crc16 data = foldl crc_byte 0xFFFF data"

lemma crc_bit_alt: "crc_bit c = push_bit 1 c XOR (if bit c 15 then 0x1021 else 0)"
proof -
  have "(c AND 0x8000 \<noteq> 0) = bit c 15"
    using and_exp_eq_0_iff_not_bit [of c 15] by simp
  then show ?thesis by (simp add: crc_bit_def)
qed

lemma crc_bit_tested: "crc_bit c = (if bit c 15 then push_bit 1 c XOR 0x1021 else push_bit 1 c)"
  by (simp add: crc_bit_alt)

lemma funpow_8: "(f ^^ 8) x = f (f (f (f (f (f (f (f x)))))))"
  by (simp add: eval_nat_numeral)

lemma bit_poly: "n < 16 \<Longrightarrow> bit (0x1021 :: u16) n \<longleftrightarrow> n = 0 \<or> n = 5 \<or> n = 12"
proof -
  have "\<forall>m \<in> set [0..<16]. bit (0x1021 :: u16) m \<longleftrightarrow> m = 0 \<or> m = 5 \<or> m = 12" by code_simp
  then show "n < 16 \<Longrightarrow> ?thesis" by simp
qed

text \<open>A shift, with the carry of bit 15 into bits 0, 5 and 12.\<close>

lemma bit_crc_bit:
  "n < 16 \<Longrightarrow> bit (crc_bit c) n =
    ((0 < n \<and> bit c (n - 1)) \<noteq> (bit c 15 \<and> (n = 0 \<or> n = 5 \<or> n = 12)))"
  using bit_poly [of n] unfolding crc_bit_alt bit_xor_iff bit_push_bit_iff
  by (cases "bit c 15") auto

lemma crc_bit_xor: "crc_bit (a XOR b) = crc_bit a XOR crc_bit b"
  by (rule bit_word_eqI) (auto simp: bit_crc_bit bit_xor_iff)

lemma crc_bit_zero: "crc_bit c = 0 \<Longrightarrow> c = 0"
proof -
  assume z: "crc_bit c = 0"
  have "bit (crc_bit c) 0 = bit c 15" by (simp add: bit_crc_bit)
  with z have top: "\<not> bit c 15" by simp
  show "c = 0"
  proof (rule bit_word_eqI)
    fix n assume n: "n < LENGTH(16)"
    show "bit c n = bit 0 n"
    proof (cases "n = 15")
      case False
      with n have "bit (crc_bit c) (Suc n) = bit c n" using top by (simp add: bit_crc_bit)
      with z show ?thesis by simp
    qed (use top in simp)
  qed
qed

lemma crc_bits_xor: "(crc_bit ^^ n) (a XOR b) = (crc_bit ^^ n) a XOR (crc_bit ^^ n) b"
  by (induction n) (simp_all add: crc_bit_xor)

lemma crc_bits_zero: "(crc_bit ^^ n) c = 0 \<Longrightarrow> c = 0"
  by (induction n) (auto dest: crc_bit_zero)



lemma crc_bits_inj: "(crc_bit ^^ n) a = (crc_bit ^^ n) b \<longleftrightarrow> a = b"
  by (metis crc_bits_xor crc_bits_zero xor_eq_0_iff)

lemma push8_inj: "push_bit 8 (ucast a :: u16) = push_bit 8 (ucast b) \<longleftrightarrow> a = (b :: u8)"
proof
  assume e: "push_bit 8 (ucast a :: u16) = push_bit 8 (ucast b)"
  show "a = b"
  proof (rule bit_word_eqI)
    fix n assume "n < LENGTH(8)"
    then have n: "n < 8" by simp
    have "bit (push_bit 8 (ucast a :: u16)) (8 + n) = bit (push_bit 8 (ucast b :: u16)) (8 + n)"
      by (simp only: e)
    with n show "bit a n = bit b n" by (simp add: bit_simps)
  qed
qed simp

lemma crc_bit_bits:
  "bit (crc_bit c) 0 = bit c 15"
  "bit (crc_bit c) (Suc 0) = bit c 0"
  "bit (crc_bit c) 2 = bit c (Suc 0)"
  "bit (crc_bit c) 3 = bit c 2"
  "bit (crc_bit c) 4 = bit c 3"
  "bit (crc_bit c) 5 = (bit c 4 \<noteq> bit c 15)"
  "bit (crc_bit c) 6 = bit c 5"
  "bit (crc_bit c) 7 = bit c 6"
  "bit (crc_bit c) 8 = bit c 7"
  "bit (crc_bit c) 9 = bit c 8"
  "bit (crc_bit c) 10 = bit c 9"
  "bit (crc_bit c) 11 = bit c 10"
  "bit (crc_bit c) 12 = (bit c 11 \<noteq> bit c 15)"
  "bit (crc_bit c) 13 = bit c 12"
  "bit (crc_bit c) 14 = bit c 13"
  "bit (crc_bit c) 15 = bit c 14"
  by (simp_all add: bit_crc_bit)

text \<open>After the eight steps for a non-zero byte the low half of the register is not zero.\<close>

lemma crc_low_byte:
  assumes "(crc_bit ^^ 8) (push_bit 8 (ucast d)) AND 0xFF = 0"
  shows "d = (0 :: u8)"
proof -
  let ?c = "push_bit 8 (ucast d) :: u16"
  have z: "\<not> bit ((crc_bit ^^ 8) ?c) n" if "n < 8" for n
  proof -
    have "bit ((crc_bit ^^ 8) ?c AND 0xFF) n = bit ((crc_bit ^^ 8) ?c) n"
      using that by (auto simp: bit_simps less_Suc_eq eval_nat_numeral)
    then show ?thesis using assms by simp
  qed
  have "\<not> bit d 0 \<and> \<not> bit d (Suc 0) \<and> \<not> bit d 2 \<and> \<not> bit d 3 \<and>
      \<not> bit d 4 \<and> \<not> bit d 5 \<and> \<not> bit d 6 \<and> \<not> bit d 7"
    using z [of 0] z [of "Suc 0"] z [of 2] z [of 3] z [of 4] z [of 5] z [of 6] z [of 7]
    by (simp add: funpow_8 crc_bit_bits) (simp add: bit_simps)
  then show "d = 0" by (intro u8_eqI) simp_all
qed

subsection \<open>Registers that detect bursts\<close>

text \<open>
  A byte-wise register whose step loses nothing: for a fixed byte it is injective in the state, for a
  fixed state it is injective in the byte.
\<close>

locale byte_register =
  fixes step :: "'s \<Rightarrow> 'b \<Rightarrow> 's"
  assumes state_inj: "step s b = step t b \<Longrightarrow> s = t"
    and byte_inj: "step s a = step s b \<Longrightarrow> a = b"
begin

lemma fold_inj: "foldl step s xs = foldl step t xs \<longleftrightarrow> s = t"
  by (induction xs arbitrary: s t) (auto dest: state_inj)

lemma single_change:
  "foldl step s (xs @ a # ys) = foldl step s (xs @ b # ys) \<longleftrightarrow> a = b"
  by (auto simp: fold_inj dest: byte_inj)

lemma update_change:
  assumes "i < length xs"
  shows "foldl step s (xs[i := b]) = foldl step s xs \<longleftrightarrow> b = xs ! i"
  using single_change [of s "take i xs" b "drop (Suc i) xs" "xs ! i"] assms
  by (simp add: upd_conv_take_nth_drop id_take_nth_drop [symmetric])

end

text \<open>A register that moreover keeps two consecutive bytes apart, whatever they are.\<close>

locale burst_register = byte_register +
  assumes pair_inj: "step (step s a) b = step (step s c) d \<Longrightarrow> a = c \<and> b = d"
begin

lemma burst_change:
  "foldl step s (xs @ [a, b] @ ys) = foldl step s (xs @ [c, d] @ ys) \<longleftrightarrow> a = c \<and> b = d"
  by (auto simp: fold_inj dest: pair_inj)

end

lemma crc_byte_pair:
  assumes "crc_byte (crc_byte s a) b = crc_byte (crc_byte s c) d"
  shows "a = c \<and> b = d"
proof -
  have e: "crc_byte s a XOR push_bit 8 (ucast b) = crc_byte s c XOR push_bit 8 (ucast d)"
    using assms crc_bits_inj [of 8] by (auto simp: crc_byte_def)
  have "(crc_bit ^^ 8) (push_bit 8 (ucast (a XOR c))) = crc_byte s a XOR crc_byte s c"
    unfolding crc_byte_def crc_bits_xor [symmetric]
    by (intro arg_cong [where f = "crc_bit ^^ 8"] bit_word_eqI) (auto simp: bit_simps)
  also have "\<dots> = push_bit 8 (ucast b) XOR push_bit 8 (ucast d)"
    using e by (simp add: xor_exchange)
  finally have "(crc_bit ^^ 8) (push_bit 8 (ucast (a XOR c))) AND 0xFF = 0"
    by (simp only: push_bit_xor [symmetric] push8_low)
  then have "a XOR c = 0" by (rule crc_low_byte)
  then have "a = c" by (simp add: xor_eq_0_iff)
  with e show ?thesis by (simp add: xor_left_cancel push8_inj)
qed

interpretation crc: burst_register crc_byte
proof unfold_locales
  fix s t :: u16 and a b :: u8
  show "crc_byte s b = crc_byte t b \<Longrightarrow> s = t"
    by (simp add: crc_byte_def crc_bits_inj xor_right_cancel)
  show "crc_byte s a = crc_byte s b \<Longrightarrow> a = b"
    by (simp add: crc_byte_def crc_bits_inj xor_left_cancel push8_inj)
qed (rule crc_byte_pair)

subsection \<open>The register bit by bit\<close>

text \<open>
  The register taking one bit of the message at a time, and the bits of a message in the order in
  which they go in.
\<close>

definition crc_shift :: "u16 \<Rightarrow> bool \<Rightarrow> u16" where
  "crc_shift c m = crc_bit (c XOR (if m then 0x8000 else 0))"

definition message_bits :: "bytes \<Rightarrow> bool list" where
  "message_bits xs = concat (map (\<lambda>b. map (bit b) [7, 6, 5, 4, 3, 2, 1, 0]) xs)"

primrec top_bits :: "nat \<Rightarrow> u16 \<Rightarrow> bool list" where
  "top_bits 0 w = []"
| "top_bits (Suc n) w = bit w 15 # top_bits n (push_bit 1 w)"

lemma bit_0x8000: "n < 16 \<Longrightarrow> bit (0x8000 :: u16) n \<longleftrightarrow> n = 15"
  using bit_exp_iff [where ?'a = u16, of 15 n] by simp

lemma bit_crc_shift:
  "n < 16 \<Longrightarrow> bit (crc_shift c m) n =
    ((0 < n \<and> bit c (n - 1)) \<noteq> ((bit c 15 \<noteq> m) \<and> (n = 0 \<or> n = 5 \<or> n = 12)))"
  using bit_0x8000 [of "n - 1"] by (cases m) (auto simp: crc_shift_def bit_crc_bit bit_xor_iff bit_0x8000)

lemma crc_shift_xor: "crc_shift c m XOR crc_shift d n = crc_shift (c XOR d) (m \<noteq> n)"
  by (rule bit_word_eqI) (auto simp: bit_crc_shift bit_xor_iff)

lemma crc_shift_False: "crc_shift c False = crc_bit c"
  by (simp add: crc_shift_def)

lemma crc_bit_top: "crc_bit (c XOR w) = crc_shift c (bit w 15) XOR push_bit 1 w"
proof (rule bit_word_eqI)
  fix n assume "n < LENGTH(16)"
  then have n: "n < 16" by simp
  then have push: "bit (push_bit 1 w) n = (0 < n \<and> bit w (n - 1))"
    unfolding bit_push_bit_iff by auto
  show "bit (crc_bit (c XOR w)) n = bit (crc_shift c (bit w 15) XOR push_bit 1 w) n"
    unfolding bit_crc_bit [OF n] bit_xor_iff bit_crc_shift [OF n] push by blast
qed

lemma crc_bits_serial:
  "push_bit n w = 0 \<Longrightarrow> (crc_bit ^^ n) (c XOR w) = foldl crc_shift c (top_bits n w)"
proof (induction n arbitrary: c w)
  case (Suc n)
  then have "push_bit n (push_bit 1 w) = 0" by (simp add: push_bit_push_bit add.commute)
  from Suc.IH [OF this, of "crc_shift c (bit w 15)"] show ?case
    by (simp only: funpow_Suc_right comp_def crc_bit_top top_bits.simps foldl_Cons)
qed simp

lemma top_bits_map: "top_bits n w = map (\<lambda>k. bit (push_bit k w) 15) [0..<n]"
proof (induction n arbitrary: w)
  case (Suc n)
  have "map (\<lambda>k. bit (push_bit k w) 15) [0..<Suc n] = bit w 15 # map (\<lambda>k. bit (push_bit (Suc k) w) 15) [0..<n]"
    by (simp add: upt_conv_Cons del: upt_Suc flip: map_Suc_upt)
  then show ?case by (simp add: Suc.IH push_bit_push_bit del: upt_Suc)
qed simp

lemma crc_byte_serial: "crc_byte c b = foldl crc_shift c (map (bit b) [7, 6, 5, 4, 3, 2, 1, 0])"
proof -
  let ?w = "push_bit 8 (ucast b) :: u16"
  have "push_bit 8 ?w = 0"
    by (rule bit_word_eqI) (simp add: bit_simps)
  moreover have "top_bits 8 ?w = map (bit b) [7, 6, 5, 4, 3, 2, 1, 0]"
    unfolding top_bits_map push_bit_push_bit bit_push_bit_iff by (simp add: upt_rec bit_ucast_iff)
  ultimately show ?thesis using crc_bits_serial [of 8 ?w c] by (simp add: crc_byte_def)
qed

lemma foldl_concat_map: "foldl f s (concat (map g xs)) = foldl (\<lambda>s x. foldl f s (g x)) s xs"
  by (induction xs arbitrary: s) simp_all

lemma crc16_bits: "crc16 xs = foldl crc_shift 0xFFFF (message_bits xs)"
proof -
  have "crc_byte = (\<lambda>c b. foldl crc_shift c (map (bit b) [7, 6, 5, 4, 3, 2, 1, 0]))"
    by (intro ext crc_byte_serial)
  then show ?thesis unfolding crc16_def message_bits_def foldl_concat_map by (rule arg_cong)
qed

lemma length_message_bits [simp]: "length (message_bits xs) = 8 * length xs"
  by (induction xs) (simp_all add: message_bits_def)

lemma message_bits_nth:
  "i < 8 * length xs \<Longrightarrow> message_bits xs ! i = bit (xs ! (i div 8)) (7 - i mod 8)"
proof (induction xs arbitrary: i)
  case (Cons x xs)
  have bits: "message_bits (x # xs) = map (bit x) [7, 6, 5, 4, 3, 2, 1, 0] @ message_bits xs"
    by (simp add: message_bits_def)
  show ?case
  proof (cases "i < 8")
    case True
    then have "i = 0 \<or> i = 1 \<or> i = 2 \<or> i = 3 \<or> i = 4 \<or> i = 5 \<or> i = 6 \<or> i = 7" by arith
    then show ?thesis by (elim disjE) (simp_all add: bits)
  next
    case False
    then obtain j where j: "i = j + 8" by (metis add.commute le_add_diff_inverse not_less)
    have "i div 8 = Suc (j div 8)" "i mod 8 = j mod 8" using j by simp_all
    then show ?thesis using Cons.IH [of j] Cons.prems j by (simp add: bits nth_append)
  qed
qed simp

lemma message_bits_inj:
  assumes "message_bits xs = message_bits ys"
  shows "xs = ys"
  using assms
proof (induction xs arbitrary: ys)
  case Nil
  then show ?case by (cases ys) (simp_all add: message_bits_def)
next
  case (Cons x xs)
  then obtain y zs where ys: "ys = y # zs" by (cases ys) (simp_all add: message_bits_def)
  with Cons show ?case by (simp add: message_bits_def u8_eqI)
qed

text \<open>
  The difference of two runs is the run of the difference. From its first set bit on, the difference
  of the registers has, after \<open>j\<close> bits, a set bit below position \<open>j\<close>: a shift moves it up by one, the
  feedback sets bit 0. So it stays different for sixteen bits, and equal bits after that never make
  it equal again.
\<close>

lemma crc_difference:
  "length ms = length ns \<Longrightarrow>
    foldl crc_shift c ms XOR foldl crc_shift d ns = foldl crc_shift (c XOR d) (map2 (\<noteq>) ms ns)"
  by (induction ms ns arbitrary: c d rule: list_induct2) (simp_all add: crc_shift_xor)

lemma burst_lives:
  "k < j \<Longrightarrow> bit c k \<Longrightarrow> j + length ms \<le> 16 \<Longrightarrow> foldl crc_shift c ms \<noteq> 0"
proof (induction ms arbitrary: c j k)
  case Nil
  then show ?case by auto
next
  case (Cons m ms)
  have k: "Suc k < 16" using Cons.prems(1,3) by simp
  show ?case
  proof (cases "bit c 15 = m")
    case True
    then have "bit (crc_shift c m) (Suc k)" using Cons.prems(2) k by (simp add: bit_crc_shift)
    then show ?thesis using Cons.IH [of "Suc k" "Suc j"] Cons.prems(1,3) by simp
  next
    case False
    then have "bit (crc_shift c m) 0" by (simp add: bit_crc_shift)
    then show ?thesis using Cons.IH [of 0 "Suc j"] Cons.prems(3) by simp
  qed
qed

lemma foldl_no_difference: "list_all Not ms \<Longrightarrow> foldl crc_shift c ms = (crc_bit ^^ length ms) c"
  by (induction ms arbitrary: c) (simp_all add: crc_shift_False funpow_swap1)

lemma burst_difference:
  assumes ds: "True \<in> set ds" and window: "\<And>i. i < length ds \<Longrightarrow> ds ! i \<Longrightarrow> p \<le> i \<and> i < p + 16"
  shows "foldl crc_shift 0 ds \<noteq> 0"
proof -
  obtain us vs where split: "ds = us @ True # vs" "True \<notin> set us" using split_list_first [OF ds] by blast
  define q where "q = length us"
  have q: "p \<le> q" using window [of q] split by (simp add: q_def)
  have "list_all Not us" using split(2) by (auto simp: list_all_iff)
  then have "foldl crc_shift 0 us = 0" using crc_bits_xor [of "length us" 0 0] by (simp add: foldl_no_difference)
  then have run: "foldl crc_shift 0 ds = foldl crc_shift (crc_shift 0 True) vs" by (simp add: split(1))
  have "\<not> vs ! i" if "15 \<le> i" "i < length vs" for i
    using window [of "Suc (q + i)"] that split(1) q by (auto simp: nth_append q_def)
  then have tail: "list_all Not (drop 15 vs)" by (simp add: list_all_length)
  have "foldl crc_shift (crc_shift 0 True) (take 15 vs) \<noteq> 0"
    by (rule burst_lives [of 0 1]) (simp_all add: bit_crc_shift)
  moreover have "foldl crc_shift (crc_shift 0 True) vs =
      foldl crc_shift (foldl crc_shift (crc_shift 0 True) (take 15 vs)) (drop 15 vs)"
    by (simp flip: foldl_append)
  ultimately show ?thesis using run crc_bits_zero foldl_no_difference [OF tail] by metis
qed

lemma crc16_check_value: "crc16 [0x31, 0x32, 0x33, 0x34, 0x35, 0x36, 0x37, 0x38, 0x39] = 0x29B1"
  by (simp add: crc16_def crc_byte_def funpow_8 crc_bit_tested)

lemma bit_burst_detected:
  assumes "length ms = length ns" "ms \<noteq> ns"
    and "\<And>i. i < length ms \<Longrightarrow> ms ! i \<noteq> ns ! i \<Longrightarrow> p \<le> i \<and> i < p + 16"
  shows "foldl crc_shift c ms \<noteq> foldl crc_shift c ns"
proof -
  obtain i where "i < length ms" "ms ! i \<noteq> ns ! i" using assms(1,2) by (auto simp: list_eq_iff_nth_eq)
  then have "map2 (\<noteq>) ms ns ! i = True" "i < length (map2 (\<noteq>) ms ns)" using assms(1) by simp_all
  then have "True \<in> set (map2 (\<noteq>) ms ns)" by (metis nth_mem)
  then have "foldl crc_shift 0 (map2 (\<noteq>) ms ns) \<noteq> 0"
    using assms(1,3) by (intro burst_difference [of _ p]) simp_all
  then show ?thesis using crc_difference [OF assms(1), of c c] by (metis xor_self_eq)
qed

subsection \<open>Properties\<close>

text \<open>C33: \<open>crc16\<close> detects every burst of up to sixteen bits, wherever in the bytes it starts. The bits
  of a message are numbered in the order in which the register takes them, the highest bit of each
  byte first: two different messages of one length whose bits differ only at positions from \<open>p\<close> to
  \<open>p + 15\<close> never have the same CRC. And the register is the one of CRC-16/CCITT-FALSE: its check
  value, the CRC of the nine characters from 1 to 9, is 0x29B1.\<close>

theorem crc16_detects_burst:
  assumes "length xs = length ys" "xs \<noteq> ys"
    and "\<forall>i < 8 * length xs. bit (xs ! (i div 8)) (7 - i mod 8) \<noteq> bit (ys ! (i div 8)) (7 - i mod 8) \<longrightarrow>
          p \<le> i \<and> i < p + 16"
  shows "crc16 xs \<noteq> crc16 ys \<and> crc16 [0x31, 0x32, 0x33, 0x34, 0x35, 0x36, 0x37, 0x38, 0x39] = 0x29B1"
proof -
  have "message_bits xs \<noteq> message_bits ys"
    using assms(1,2) message_bits_inj by blast
  moreover have "p \<le> i \<and> i < p + 16" if "i < length (message_bits xs)" "message_bits xs ! i \<noteq> message_bits ys ! i" for i
    using assms(1,3) that by (simp add: message_bits_nth)
  ultimately show ?thesis
    using bit_burst_detected [of "message_bits xs" "message_bits ys" p] assms(1) crc16_check_value
    by (simp add: crc16_bits)
qed

text \<open>Bits 14 to 21: the last two of the second byte and the first six of the third.\<close>

theorem crc16_detects_burst_witness:
  "crc16 [0x30, 0x31, 0x32, 0x33] \<noteq> crc16 [0x30, 0x32, 0xB6, 0x33]"
proof (rule crc16_detects_burst [where p = 14, THEN conjunct1])
  have "list_all (\<lambda>i. bit ([0x30, 0x31, 0x32, 0x33 :: u8] ! (i div 8)) (7 - i mod 8) \<noteq>
      bit ([0x30, 0x32, 0xB6, 0x33 :: u8] ! (i div 8)) (7 - i mod 8) \<longrightarrow> 14 \<le> i \<and> i < 14 + 16) [0..<32]"
    by code_simp
  then show "\<forall>i < 8 * length [0x30, 0x31, 0x32, 0x33 :: u8].
      bit ([0x30, 0x31, 0x32, 0x33 :: u8] ! (i div 8)) (7 - i mod 8) \<noteq>
      bit ([0x30, 0x32, 0xB6, 0x33 :: u8] ! (i div 8)) (7 - i mod 8) \<longrightarrow> 14 \<le> i \<and> i < 14 + 16"
    by (simp only: list_all_iff set_upt) simp
qed simp_all

end
