(* ===== verification/CppString.thy ===== *)
theory CppString
  imports Prelude
begin

text \<open>
  The part of the C++ standard library's string handling that the code calls, on byte strings
  (\<open>string\<close> is a list of 8-bit characters, as \<open>std::string\<close> is): character classes of the
  "C" locale, the searching members of \<open>std::string\<close>, \<open>std::getline\<close> and \<open>operator>>\<close>
  on a string stream, \<open>std::to_string\<close>, and the integer readers \<open>strtoull\<close>,
  \<open>std::stoull\<close> and \<open>std::stoll\<close> with what they accept beyond digits: leading white
  space, a sign, a negated unsigned value, trailing characters.
\<close>

subsection \<open>Character classes\<close>

definition char_nat :: "char \<Rightarrow> nat" where
  "char_nat c = of_char c"

definition is_space :: "char \<Rightarrow> bool" where
  "is_space c \<longleftrightarrow> char_nat c = 32 \<or> (9 \<le> char_nat c \<and> char_nat c \<le> 13)"

definition to_lower :: "char \<Rightarrow> char" where
  "to_lower c = (if 65 \<le> char_nat c \<and> char_nat c \<le> 90 then char_of (char_nat c + 32) else c)"

definition to_upper :: "char \<Rightarrow> char" where
  "to_upper c = (if 97 \<le> char_nat c \<and> char_nat c \<le> 122 then char_of (char_nat c - 32) else c)"

text \<open>The value of a digit in a base up to 36, as \<open>strtol\<close> reads it.\<close>

definition digit_val :: "nat \<Rightarrow> char \<Rightarrow> nat option" where
  "digit_val base c =
    (let n = char_nat c;
         v = (if 48 \<le> n \<and> n \<le> 57 then n - 48
              else if 65 \<le> n \<and> n \<le> 90 then n - 55
              else if 97 \<le> n \<and> n \<le> 122 then n - 87
              else 99)
     in if v < base then Some v else None)"

definition digit_char :: "nat \<Rightarrow> char" where
  "digit_char d = char_of (if d < 10 then 48 + d else 55 + d)"

lemma char_nat_of [simp]: "n < 256 \<Longrightarrow> char_nat (char_of n) = n"
  by (simp add: char_nat_def)

lemma char_nat_less: "char_nat c < 256"
  by (simp add: char_nat_def)

lemma char_nat_inj: "char_nat c = char_nat d \<Longrightarrow> c = d"
  using of_char_eq_iff by (auto simp: char_nat_def)

lemma digit_val_char: "d < base \<Longrightarrow> base \<le> 16 \<Longrightarrow> digit_val base (digit_char d) = Some d"
  by (auto simp: digit_val_def digit_char_def)

lemma digit_val_less: "digit_val base c = Some d \<Longrightarrow> d < base"
  by (auto simp: digit_val_def Let_def split: if_splits)

lemma digit_not_space: "digit_val 10 c = Some d \<Longrightarrow> \<not> is_space c"
  by (auto simp: digit_val_def is_space_def Let_def split: if_splits)

subsection \<open>Searching\<close>

fun find_if :: "('a \<Rightarrow> bool) \<Rightarrow> 'a list \<Rightarrow> nat option" where
  "find_if P [] = None"
| "find_if P (x # xs) = (if P x then Some 0 else map_option Suc (find_if P xs))"

definition find_last_if :: "('a \<Rightarrow> bool) \<Rightarrow> 'a list \<Rightarrow> nat option" where
  "find_last_if P xs = map_option (\<lambda>i. length xs - Suc i) (find_if P (rev xs))"

text \<open>\<open>s.find(c, pos)\<close>: the first occurrence at or after \<open>pos\<close>.\<close>

definition find_from :: "('a \<Rightarrow> bool) \<Rightarrow> nat \<Rightarrow> 'a list \<Rightarrow> nat option" where
  "find_from P pos xs = map_option (\<lambda>i. pos + i) (find_if P (drop pos xs))"

fun is_prefix :: "'a list \<Rightarrow> 'a list \<Rightarrow> bool" where
  "is_prefix [] ys = True"
| "is_prefix (x # xs) [] = False"
| "is_prefix (x # xs) (y # ys) = (x = y \<and> is_prefix xs ys)"

text \<open>\<open>s.find(p)\<close> for a string \<open>p\<close>.\<close>

fun find_sub :: "'a list \<Rightarrow> 'a list \<Rightarrow> nat option" where
  "find_sub p [] = (if p = [] then Some 0 else None)"
| "find_sub p (x # xs) = (if is_prefix p (x # xs) then Some 0 else map_option Suc (find_sub p xs))"

text \<open>\<open>s.substr(pos, n)\<close> for \<open>pos \<le> s.size()\<close>, which every call of the code satisfies.\<close>

definition substr :: "nat \<Rightarrow> nat \<Rightarrow> 'a list \<Rightarrow> 'a list" where
  "substr pos n xs = take n (drop pos xs)"

lemma is_prefix_take: "is_prefix xs ys \<longleftrightarrow> take (length xs) ys = xs"
  by (induction xs ys rule: is_prefix.induct) auto

lemma find_if_None: "find_if P xs = None \<longleftrightarrow> (\<forall>x \<in> set xs. \<not> P x)"
  by (induction xs) auto

lemma find_if_takeWhile: "find_if P xs = Some i \<Longrightarrow> i = length (takeWhile (\<lambda>x. \<not> P x) xs)"
  by (induction xs arbitrary: i) (auto split: if_splits)

lemma find_if_Some: "find_if P xs = Some i \<Longrightarrow> i < length xs \<and> P (xs ! i)"
  by (induction xs arbitrary: i) (auto split: if_splits)

lemma find_if_drop: "find_if P xs = Some i \<Longrightarrow> drop i xs = dropWhile (\<lambda>x. \<not> P x) xs"
  by (induction xs arbitrary: i) (auto split: if_splits)

lemma find_if_take: "find_if P xs = Some i \<Longrightarrow> take i xs = takeWhile (\<lambda>x. \<not> P x) xs"
  by (induction xs arbitrary: i) (auto split: if_splits)

lemma find_from_bound: "find_from P pos xs = Some i \<Longrightarrow> pos \<le> i \<and> i < length xs \<and> P (xs ! i)"
  using find_if_Some [of P "drop pos xs"] by (auto simp: find_from_def)

lemma find_sub_bound: "find_sub p xs = Some i \<Longrightarrow> i + length p \<le> length xs"
proof (induction xs arbitrary: i)
  case (Cons x xs)
  then show ?case
    by (auto simp: is_prefix_take split: if_splits)
       (metis length_Cons length_take min.absorb_iff2 nle_le take_all_iff)
qed (auto split: if_splits)

lemma find_if_append: "\<forall>x\<in>set xs. \<not> P x \<Longrightarrow> P y \<Longrightarrow> find_if P (xs @ y # ys) = Some (length xs)"
  by (induction xs) auto

lemma find_last_if_append: "\<forall>x\<in>set ys. \<not> P x \<Longrightarrow> P y \<Longrightarrow> find_last_if P (xs @ y # ys) = Some (length xs)"
  using find_if_append [of "rev ys" P y "rev xs"] by (simp add: find_last_if_def)

text \<open>Cutting a class of characters off both ends.\<close>

definition strip :: "('a \<Rightarrow> bool) \<Rightarrow> 'a list \<Rightarrow> 'a list" where
  "strip P xs = rev (dropWhile P (rev (dropWhile P xs)))"

lemma find_last_if_Some_iff:
  "(\<exists>r. find_last_if P xs = Some r) \<longleftrightarrow> (\<exists>l. find_if P xs = Some l)"
  using find_if_None [of P xs] find_if_None [of P "rev xs"]
  by (auto simp: find_last_if_def)

lemma takeWhile_append_hit: "\<not> (\<forall>x \<in> set xs. P x) \<Longrightarrow> takeWhile P (xs @ ys) = takeWhile P xs"
  by (induction xs) auto

text \<open>
  The two searches and the \<open>substr\<close> call with which the code trims cut exactly the characters
  of the class off both ends.
\<close>

lemma substr_strip:
  assumes l: "find_if (\<lambda>x. \<not> P x) xs = Some l" and r: "find_last_if (\<lambda>x. \<not> P x) xs = Some r"
  shows "substr l (Suc (r - l)) xs = strip P xs"
proof -
  define t where "t = dropWhile P xs"
  define b where "b = takeWhile P (rev t)"
  have tl: "drop l xs = t" using find_if_drop [OF l] by (simp add: t_def)
  have hit: "\<not> (\<forall>x \<in> set (rev t). P x)"
    using find_if_Some [OF l] tl by (metis Cons_nth_drop_Suc list.set_intros(1) set_rev)
  have "rev xs = rev t @ rev (takeWhile P xs)"
    by (metis rev_append t_def takeWhile_dropWhile_id)
  then have "takeWhile P (rev xs) = b"
    using takeWhile_append_hit [OF hit] by (simp add: b_def)
  then have rb: "r = length xs - Suc (length b)"
    using r find_if_takeWhile by (fastforce simp: find_last_if_def)
  have tb: "t = strip P xs @ rev b"
    using takeWhile_dropWhile_id [of P "rev t"]
    by (metis b_def rev_append rev_rev_ident strip_def t_def)
  have "l < length xs" and "length t = length xs - l"
    using find_if_Some [OF l] tl by auto
  moreover have "strip P xs \<noteq> []"
    using hit by (metis (no_types) b_def dropWhile_eq_Nil_conv rev_is_Nil_conv strip_def t_def)
  moreover have "length t = length (strip P xs) + length b" by (metis length_append length_rev tb)
  ultimately have "Suc (r - l) = length (strip P xs)"
    using rb by (cases "strip P xs") auto
  then show ?thesis by (simp add: substr_def tl) (simp add: tb)
qed

lemma strip_no_class: "(\<forall>x \<in> set xs. \<not> P x) \<Longrightarrow> strip P xs = xs"
proof -
  have d: "(\<forall>x \<in> set ys. \<not> P x) \<Longrightarrow> dropWhile P ys = ys" for ys
    by (cases ys) auto
  assume "\<forall>x \<in> set xs. \<not> P x"
  then show ?thesis by (simp add: strip_def d)
qed

lemma strip_Nil_iff: "strip P xs = [] \<longleftrightarrow> (\<forall>x \<in> set xs. P x)"
proof -
  have "(\<forall>x \<in> set (dropWhile P xs). P x) \<longleftrightarrow> (\<forall>x \<in> set xs. P x)"
    by (induction xs) auto
  then show ?thesis by (simp add: strip_def)
qed

subsection \<open>Streams of a string\<close>

text \<open>
  Repeated \<open>std::getline(ss, tok, d)\<close>: the pieces between delimiters. An empty stream gives
  none, and a delimiter at the very end adds no empty piece.
\<close>

function getlines :: "char \<Rightarrow> string \<Rightarrow> string list" where
  "getlines d s =
    (if s = [] then []
     else takeWhile (\<lambda>c. c \<noteq> d) s # getlines d (drop (Suc (length (takeWhile (\<lambda>c. c \<noteq> d) s))) s))"
  by pat_completeness auto
termination
  by (relation "measure (\<lambda>(d, s). length s)") auto

declare getlines.simps [simp del]

text \<open>Repeated \<open>ss >> tok\<close>: the maximal runs of characters that are not white space.\<close>

function stream_words :: "string \<Rightarrow> string list" where
  "stream_words s =
    (let t = dropWhile is_space s
     in if t = [] then []
        else takeWhile (\<lambda>c. \<not> is_space c) t # stream_words (dropWhile (\<lambda>c. \<not> is_space c) t))"
  by pat_completeness auto
termination
proof (relation "measure length", goal_cases)
  case (2 s t)
  then have "\<not> is_space (hd t)" "t \<noteq> []"
    using hd_dropWhile by metis+
  then have "length (dropWhile (\<lambda>c. \<not> is_space c) t) < length t"
    by (cases t) (simp_all add: length_dropWhile_le le_imp_less_Suc)
  also have "length t \<le> length s"
    using 2 by (simp add: length_dropWhile_le)
  finally show ?case by simp
qed simp

declare stream_words.simps [simp del]

lemma getlines_Nil [simp]: "getlines d [] = []"
  by (simp add: getlines.simps)

lemma getlines_single: "s \<noteq> [] \<Longrightarrow> d \<notin> set s \<Longrightarrow> getlines d s = [s]"
proof -
  assume "s \<noteq> []" and n: "d \<notin> set s"
  from n have t: "takeWhile (\<lambda>c. c \<noteq> d) s = s" by (auto simp: takeWhile_eq_all_conv)
  show ?thesis
    using \<open>s \<noteq> []\<close> by (subst getlines.simps) (simp only: t drop_all le_SucI order_refl getlines_Nil if_False)
qed

lemma getlines_Cons:
  "d \<notin> set s \<Longrightarrow> getlines d (s @ d # t) = s # getlines d t"
proof -
  assume n: "d \<notin> set s"
  then have t: "takeWhile (\<lambda>c. c \<noteq> d) (s @ d # t) = s"
    by (subst takeWhile_append2) auto
  show ?thesis by (subst getlines.simps) (simp add: t)
qed

lemma getlines_no_delim: "p \<in> set (getlines d s) \<Longrightarrow> d \<notin> set p"
proof (induction d s rule: getlines.induct)
  case (1 d s)
  from "1.prems" show ?case
    by (subst (asm) getlines.simps) (auto split: if_splits dest: "1.IH" set_takeWhileD)
qed

subsection \<open>Decimal output\<close>

fun decimal :: "nat \<Rightarrow> string" where
  "decimal n = (if n < 10 then [digit_char n] else decimal (n div 10) @ [digit_char (n mod 10)])"

declare decimal.simps [simp del]

text \<open>\<open>std::to_string(int)\<close>.\<close>

definition decimal_int :: "int \<Rightarrow> string" where
  "decimal_int i = (if i < 0 then CHR ''-'' # decimal (nat (- i)) else decimal (nat i))"

text \<open>\<open>"%02X"\<close> of a byte.\<close>

definition hex2 :: "u8 \<Rightarrow> string" where
  "hex2 b = [digit_char (unat b div 16), digit_char (unat b mod 16)]"

subsection \<open>Integer readers\<close>

definition digits_value :: "nat \<Rightarrow> string \<Rightarrow> nat" where
  "digits_value base s = foldl (\<lambda>a c. a * base + the (digit_val base c)) 0 s"

text \<open>In base 16 a prefix \<open>0x\<close> is skipped when a hexadecimal digit follows it.\<close>

fun skip_0x :: "string \<Rightarrow> string" where
  "skip_0x (a # b # c # r) =
    (if a = CHR ''0'' \<and> (b = CHR ''x'' \<or> b = CHR ''X'') \<and> digit_val 16 c \<noteq> None
     then c # r else a # b # c # r)"
| "skip_0x s = s"

text \<open>
  What \<open>strtoll\<close> and \<open>strtoull\<close> have in common: white space, an optional sign, digits;
  the sign, the magnitude and the rest of the string, or nothing when no digit was found.
\<close>

definition strto :: "nat \<Rightarrow> string \<Rightarrow> (bool \<times> nat \<times> string) option" where
  "strto base s =
    (let s1 = dropWhile is_space s;
         neg = (s1 \<noteq> [] \<and> hd s1 = CHR ''-'');
         s2 = (if s1 \<noteq> [] \<and> (hd s1 = CHR ''-'' \<or> hd s1 = CHR ''+'') then tl s1 else s1);
         s3 = (if base = 16 then skip_0x s2 else s2);
         ds = takeWhile (\<lambda>c. digit_val base c \<noteq> None) s3
     in if ds = [] then None else Some (neg, digits_value base ds, drop (length ds) s3))"

definition ull_of :: "bool \<Rightarrow> nat \<Rightarrow> u64" where
  "ull_of neg m = (if neg then - (of_nat m) else of_nat m)"

text \<open>
  \<open>strtoull(p, &end, 10)\<close>: the value and the unread rest. Too large a magnitude gives
  \<open>ULLONG_MAX\<close>; a minus sign negates in the unsigned type. \<open>None\<close>: \<open>end == p\<close>.
\<close>

definition strtoull10 :: "string \<Rightarrow> (u64 \<times> string) option" where
  "strtoull10 s =
    (case strto 10 s of
       None \<Rightarrow> None
     | Some (neg, m, r) \<Rightarrow> Some (if 2 ^ 64 \<le> m then - 1 else ull_of neg m, r))"

definition stoull :: "nat \<Rightarrow> string \<Rightarrow> std_exn + u64" where
  "stoull base s =
    (case strto base s of
       None \<Rightarrow> Inl InvalidArgument
     | Some (neg, m, r) \<Rightarrow> if 2 ^ 64 \<le> m then Inl OutOfRange else Inr (ull_of neg m))"

definition stoll :: "nat \<Rightarrow> string \<Rightarrow> std_exn + int" where
  "stoll base s =
    (case strto base s of
       None \<Rightarrow> Inl InvalidArgument
     | Some (neg, m, r) \<Rightarrow>
         if neg then (if m \<le> 2 ^ 63 then Inr (- int m) else Inl OutOfRange)
         else (if m < 2 ^ 63 then Inr (int m) else Inl OutOfRange))"

text \<open>Reading back what \<open>std::to_string\<close> printed.\<close>

lemma decimal_nonempty [simp]: "decimal n \<noteq> []"
  by (subst decimal.simps) simp

lemma digits_value_snoc:
  "digits_value b (s @ [c]) = digits_value b s * b + the (digit_val b c)"
  by (simp add: digits_value_def)

lemma decimal_value: "digits_value 10 (decimal n) = n"
proof (induction n rule: decimal.induct)
  case (1 n)
  show ?case
  proof (cases "n < 10")
    case True
    then show ?thesis
      by (subst decimal.simps) (simp add: digits_value_def digit_val_char)
  next
    case False
    with "1.IH" show ?thesis
      by (subst decimal.simps) (simp add: digits_value_snoc digit_val_char)
  qed
qed

lemma decimal_digits: "c \<in> set (decimal n) \<Longrightarrow> digit_val 10 c \<noteq> None"
proof (induction n rule: decimal.induct)
  case (1 n)
  from "1.prems" show ?case
    by (subst (asm) decimal.simps)
       (auto simp: digit_val_char split: if_splits dest: "1.IH" intro: digit_val_char)
qed

lemma digit_not_sign: "digit_val 10 c \<noteq> None \<Longrightarrow> c \<noteq> CHR ''-'' \<and> c \<noteq> CHR ''+''"
  by (auto simp: digit_val_def char_nat_def)

lemma strto_decimal:
  assumes "\<forall>c r'. r = c # r' \<longrightarrow> digit_val 10 c = None"
  shows "strto 10 (decimal n @ r) = Some (False, n, r)"
proof -
  obtain c cs where c: "decimal n = c # cs" by (cases "decimal n") auto
  then have d: "digit_val 10 c \<noteq> None" using decimal_digits [of c n] by simp
  have t: "takeWhile (\<lambda>c. digit_val 10 c \<noteq> None) (decimal n @ r) = decimal n"
  proof (subst takeWhile_append2)
    show "\<And>x. x \<in> set (decimal n) \<Longrightarrow> digit_val 10 x \<noteq> None" by (rule decimal_digits)
    show "decimal n @ takeWhile (\<lambda>c. digit_val 10 c \<noteq> None) r = decimal n"
      using assms by (cases r) auto
  qed
  have "dropWhile is_space (decimal n @ r) = decimal n @ r"
    using d digit_not_space by (auto simp: c)
  then show ?thesis
    using digit_not_sign [OF d] t by (simp add: strto_def Let_def c [symmetric] decimal_value) (simp add: c)
qed

lemma stoull_decimal: "n < 2 ^ 64 \<Longrightarrow> stoull 10 (decimal n) = Inr (of_nat n)"
  using strto_decimal [of "[]" n] by (simp add: stoull_def ull_of_def)

lemma strtoull10_decimal:
  assumes "\<forall>c r'. r = c # r' \<longrightarrow> digit_val 10 c = None" "n < 2 ^ 64"
  shows "strtoull10 (decimal n @ r) = Some (of_nat n, r)"
  using strto_decimal [OF assms(1), of n] assms(2) by (simp add: strtoull10_def ull_of_def)

lemma decimal_inj: "decimal m = decimal n \<Longrightarrow> m = n"
  by (metis decimal_value)

text \<open>A reader that finds digits makes progress.\<close>

lemma skip_0x_le: "length (skip_0x s) \<le> length s"
  by (induction s rule: skip_0x.induct) auto

lemma strto_progress: "strto b s = Some (neg, m, r) \<Longrightarrow> length r < length s"
proof -
  define s1 where "s1 = dropWhile is_space s"
  define s2 where "s2 = (if s1 \<noteq> [] \<and> (hd s1 = CHR ''-'' \<or> hd s1 = CHR ''+'') then tl s1 else s1)"
  define s3 where "s3 = (if b = 16 then skip_0x s2 else s2)"
  assume "strto b s = Some (neg, m, r)"
  then have r: "r = drop (length (takeWhile (\<lambda>c. digit_val b c \<noteq> None) s3)) s3"
    and ne: "takeWhile (\<lambda>c. digit_val b c \<noteq> None) s3 \<noteq> []"
    by (auto simp: strto_def Let_def s1_def s2_def s3_def split: if_splits)
  have "length s3 \<le> length s2" using skip_0x_le by (simp add: s3_def)
  moreover have "length s2 \<le> length s1" by (simp add: s2_def)
  moreover have "length s1 \<le> length s" by (simp add: s1_def length_dropWhile_le)
  moreover have "length r < length s3" using ne r by (cases s3) (auto simp: length_greater_0_conv)
  ultimately show ?thesis by simp
qed

lemma strip_decomp: "\<exists>pre post. xs = pre @ strip P xs @ post \<and> (\<forall>x\<in>set pre. P x) \<and> (\<forall>x\<in>set post. P x)"
proof (intro exI conjI)
  show "xs = takeWhile P xs @ strip P xs @ rev (takeWhile P (rev (dropWhile P xs)))"
    by (metis rev_append rev_rev_ident strip_def takeWhile_dropWhile_id)
qed (auto dest: set_takeWhileD)

lemma strip_around:
  assumes "ys \<noteq> []" "\<not> P (hd ys)" "\<not> P (last ys)" "\<forall>x\<in>set pre. P x" "\<forall>x\<in>set post. P x"
  shows "strip P (pre @ ys @ post) = ys"
proof -
  have front: "dropWhile P (pre @ zs) = zs" if "\<forall>x\<in>set pre. P x" "zs \<noteq> []" "\<not> P (hd zs)" for pre zs
    using that by (cases zs) (simp_all add: dropWhile_append)
  have "dropWhile P (pre @ ys @ post) = ys @ post"
    using assms(1,2,4) by (intro front) simp_all
  moreover have "dropWhile P (rev post @ rev ys) = rev ys"
    using assms(1,3,5) by (intro front) (simp_all add: hd_rev)
  ultimately show ?thesis by (simp add: strip_def)
qed

lemma dropWhile_strip: "dropWhile P xs = strip P xs @ rev (takeWhile P (rev (dropWhile P xs)))"
  unfolding strip_def rev_append [symmetric] takeWhile_dropWhile_id by simp

end
