(* ===== verification/E2E.thy ===== *)
theory E2E
  imports Crc16 CppString
begin

text \<open>
  End-to-end protection of payloads: \<open>include/lin/safety/e2e.hpp\<close> and \<open>src/safety/e2e.cpp\<close>.
  The wire format, the \<open>Protector\<close> with its counter, and the \<open>Receiver\<close> with its checks.
\<close>

subsection \<open>Data\<close>

definition kHeaderSize :: nat where "kHeaderSize = 10"

record e2e_config =
  data_id :: u16
  source_id :: u16

datatype e2e_error_kind = CRCMismatch | SequenceGap | HeaderTooShort

datatype e2e_error = E2EError (e2e_kind: e2e_error_kind) (e2e_counter: u32) (e2e_msg: string)

definition e2e_what :: "e2e_error \<Rightarrow> string" where
  "e2e_what e = ''lin/safety: E2E error: '' @ e2e_msg e"

record protector =
  p_cfg :: e2e_config
  p_seq :: u32

record receiver =
  r_cfg :: e2e_config
  r_last_seq :: u32
  r_first :: bool

definition new_protector :: "e2e_config \<Rightarrow> protector" where
  "new_protector cfg = \<lparr>p_cfg = cfg, p_seq = 0\<rparr>"

definition new_receiver :: "e2e_config \<Rightarrow> receiver" where
  "new_receiver cfg = \<lparr>r_cfg = cfg, r_last_seq = 0, r_first = True\<rparr>"

subsection \<open>Header\<close>

text \<open>
  \<open>build_header\<close>: ten zero bytes, the identifiers and the counter little-endian, the CRC loop over
  bytes 0 to 7 and then over the payload, and the CRC little-endian into bytes 8 and 9.
\<close>

definition build_header :: "u16 \<Rightarrow> u16 \<Rightarrow> u32 \<Rightarrow> bytes \<Rightarrow> bytes" where
  "build_header did sid seq payload =
    (let hdr = replicate kHeaderSize 0;
         hdr = hdr[0 := ucast did];
         hdr = hdr[1 := ucast (drop_bit 8 did)];
         hdr = hdr[2 := ucast sid];
         hdr = hdr[3 := ucast (drop_bit 8 sid)];
         hdr = hdr[4 := ucast seq];
         hdr = hdr[5 := ucast (drop_bit 8 seq)];
         hdr = hdr[6 := ucast (drop_bit 16 seq)];
         hdr = hdr[7 := ucast (drop_bit 24 seq)];
         crc_val = foldl (\<lambda>c i. crc_byte c (hdr ! i)) 0xFFFF [0..<8];
         crc_val = foldl crc_byte crc_val payload;
         hdr = hdr[8 := ucast crc_val];
         hdr = hdr[9 := ucast (drop_bit 8 crc_val)]
     in hdr)"

definition protect :: "protector \<Rightarrow> bytes \<Rightarrow> bytes \<times> protector" where
  "protect p payload =
    (let seq = p_seq p;
         p' = p\<lparr>p_seq := p_seq p + 1\<rparr>;
         hdr = build_header (data_id (p_cfg p)) (source_id (p_cfg p)) seq payload
     in (hdr @ payload, p'))"

text \<open>Little-endian readers, as the shifts and ors of \<open>unwrap\<close>.\<close>

definition le32 :: "u8 \<Rightarrow> u8 \<Rightarrow> u8 \<Rightarrow> u8 \<Rightarrow> u32" where
  "le32 a b c d = ucast a OR push_bit 8 (ucast b) OR push_bit 16 (ucast c) OR push_bit 24 (ucast d)"

definition le16 :: "u8 \<Rightarrow> u8 \<Rightarrow> u16" where
  "le16 a b = ucast a OR push_bit 8 (ucast b)"

definition unwrap :: "receiver \<Rightarrow> bytes \<Rightarrow> (e2e_error + bytes) \<times> receiver" where
  "unwrap r data =
    (if length data < kHeaderSize then
       (Inl (E2EError HeaderTooShort 0
          (''need '' @ decimal kHeaderSize @ '' bytes, got '' @ decimal (length data))), r)
     else
       let seq = le32 (data ! 4) (data ! 5) (data ! 6) (data ! 7);
           received_crc = le16 (data ! 8) (data ! 9);
           payload = drop kHeaderSize data;
           expected_hdr = build_header (data_id (r_cfg r)) (source_id (r_cfg r)) seq payload;
           expected_crc = le16 (expected_hdr ! 8) (expected_hdr ! 9)
       in if received_crc \<noteq> expected_crc then
            (Inl (E2EError CRCMismatch seq ''CRC mismatch''), r)
          else if \<not> r_first r \<and> seq \<noteq> r_last_seq r + 1 then
            (Inl (E2EError SequenceGap seq
               (''expected '' @ decimal (unat (r_last_seq r + 1)) @ '', got '' @ decimal (unat seq))), r)
          else (Inr payload, r\<lparr>r_first := False, r_last_seq := seq\<rparr>))"

subsection \<open>The header in closed form\<close>

definition header_fields :: "u16 \<Rightarrow> u16 \<Rightarrow> u32 \<Rightarrow> bytes" where
  "header_fields did sid seq =
    [ucast did, ucast (drop_bit 8 did), ucast sid, ucast (drop_bit 8 sid),
     ucast seq, ucast (drop_bit 8 seq), ucast (drop_bit 16 seq), ucast (drop_bit 24 seq)]"

lemma build_header_closed:
  "build_header did sid seq payload =
    (let crc = crc16 (header_fields did sid seq @ payload)
     in header_fields did sid seq @ [ucast crc, ucast (drop_bit 8 crc)])"
proof -
  have r: "replicate kHeaderSize (0 :: u8) = [0, 0, 0, 0, 0, 0, 0, 0, 0, 0]"
    by (simp add: kHeaderSize_def numeral_eq_Suc)
  have u: "[0..<8] = [0, 1, 2, 3, 4, 5, 6, 7 :: nat]" by (simp add: upt_rec)
  show ?thesis
    by (simp add: build_header_def r u Let_def header_fields_def crc16_def)
qed

lemma length_build_header [simp]: "length (build_header did sid seq payload) = 10"
  by (simp add: build_header_closed header_fields_def Let_def)

lemma le16_split: "le16 (ucast w) (ucast (drop_bit 8 w)) = (w :: u16)"
  by (rule bit_word_eqI) (auto simp: le16_def bit_simps)

lemma le32_split:
  "le32 (ucast w) (ucast (drop_bit 8 w)) (ucast (drop_bit 16 w)) (ucast (drop_bit 24 w)) = (w :: u32)"
proof (rule bit_word_eqI)
  fix n assume "n < LENGTH(32)"
  then show "bit (le32 (ucast w) (ucast (drop_bit 8 w)) (ucast (drop_bit 16 w)) (ucast (drop_bit 24 w))) n
      = bit w n"
    by (cases "24 \<le> n"; cases "16 \<le> n") (auto simp: le32_def bit_simps)
qed

lemma header_crc:
  "le16 (build_header did sid seq payload ! 8) (build_header did sid seq payload ! 9) =
    crc16 (header_fields did sid seq @ payload)"
  by (simp add: build_header_closed header_fields_def Let_def le16_split)

lemma le16_parts: "ucast (le16 a b) = a" "ucast (drop_bit 8 (le16 a b)) = b"
  by (rule bit_word_eqI; auto simp: le16_def bit_simps dest: bit_imp_le_length)+

lemma le32_parts:
  "ucast (le32 a b c d) = a" "ucast (drop_bit 8 (le32 a b c d)) = b"
  "ucast (drop_bit 16 (le32 a b c d)) = c" "ucast (drop_bit 24 (le32 a b c d)) = d"
  by (rule bit_word_eqI; auto simp: le32_def bit_simps dest: bit_imp_le_length)+

lemma le16_inj: "le16 a b = le16 c d \<longleftrightarrow> a = c \<and> b = d"
  by (metis le16_parts)

lemma le32_inj: "le32 a b c d = le32 a' b' c' d' \<longleftrightarrow> a = a' \<and> b = b' \<and> c = c' \<and> d = d'"
  by (metis le32_parts)

lemma header_fields_le32:
  "header_fields did sid (le32 a b c d) =
    [ucast did, ucast (drop_bit 8 did), ucast sid, ucast (drop_bit 8 sid), a, b, c, d]"
  by (simp add: header_fields_def le32_parts)

text \<open>
  The CRC a receiver expects on a message with the counter bytes \<open>b4 b5 b6 b7\<close> and the given payload:
  over its own identifiers, the received counter and the payload.
\<close>

definition expected_crc :: "e2e_config \<Rightarrow> u8 \<Rightarrow> u8 \<Rightarrow> u8 \<Rightarrow> u8 \<Rightarrow> bytes \<Rightarrow> u16" where
  "expected_crc cfg b4 b5 b6 b7 payload =
    crc16 ([ucast (data_id cfg), ucast (drop_bit 8 (data_id cfg)),
            ucast (source_id cfg), ucast (drop_bit 8 (source_id cfg)), b4, b5, b6, b7] @ payload)"

lemma unwrap_bytes:
  "unwrap r (b0 # b1 # b2 # b3 # b4 # b5 # b6 # b7 # b8 # b9 # payload) =
    (let seq = le32 b4 b5 b6 b7
     in if le16 b8 b9 \<noteq> expected_crc (r_cfg r) b4 b5 b6 b7 payload then
          (Inl (E2EError CRCMismatch seq ''CRC mismatch''), r)
        else if \<not> r_first r \<and> seq \<noteq> r_last_seq r + 1 then
          (Inl (E2EError SequenceGap seq
             (''expected '' @ decimal (unat (r_last_seq r + 1)) @ '', got '' @ decimal (unat seq))), r)
        else (Inr payload, r\<lparr>r_first := False, r_last_seq := seq\<rparr>))"
  unfolding unwrap_def Let_def header_crc header_fields_le32 expected_crc_def kHeaderSize_def
  by (simp only: list.size nth_Cons_numeral nth_Cons_0 nth_Cons_Suc pred_numeral_simps drop_Cons_numeral)
     (simp add: header_crc header_fields_le32)

lemma ten_bytes:
  assumes "kHeaderSize \<le> length data"
  obtains b0 b1 b2 b3 b4 b5 b6 b7 b8 b9 payload
  where "data = b0 # b1 # b2 # b3 # b4 # b5 # b6 # b7 # b8 # b9 # payload"
  using assms by (auto simp: kHeaderSize_def numeral_eq_Suc Suc_le_length_iff)

subsection \<open>Protected messages\<close>

lemma protect_bytes:
  "fst (protect p payload) =
    (let crc = crc16 (header_fields (data_id (p_cfg p)) (source_id (p_cfg p)) (p_seq p) @ payload)
     in header_fields (data_id (p_cfg p)) (source_id (p_cfg p)) (p_seq p) @
          ucast crc # ucast (drop_bit 8 crc) # payload)"
  by (simp add: protect_def Let_def build_header_closed)

lemma protect_snd [simp]: "snd (protect p payload) = p\<lparr>p_seq := p_seq p + 1\<rparr>"
  by (simp add: protect_def Let_def)

lemma length_protect [simp]: "length (fst (protect p payload)) = 10 + length payload"
  by (simp add: protect_def Let_def)

text \<open>A protected message as ten bytes and the payload, with the CRC its receiver expects.\<close>

lemma protect_ten:
  obtains b0 b1 b2 b3 b4 b5 b6 b7 b8 b9
  where "fst (protect p payload) = b0 # b1 # b2 # b3 # b4 # b5 # b6 # b7 # b8 # b9 # payload"
    and "le32 b4 b5 b6 b7 = p_seq p"
    and "le16 b8 b9 = expected_crc (p_cfg p) b4 b5 b6 b7 payload"
    and "le16 b0 b1 = data_id (p_cfg p)" and "le16 b2 b3 = source_id (p_cfg p)"
proof -
  define did sid seq where "did = data_id (p_cfg p)" and "sid = source_id (p_cfg p)" and "seq = p_seq p"
  define crc where "crc = crc16 (header_fields did sid seq @ payload)"
  show thesis
    by (rule that [of "ucast did" "ucast (drop_bit 8 did)" "ucast sid" "ucast (drop_bit 8 sid)"
          "ucast seq" "ucast (drop_bit 8 seq)" "ucast (drop_bit 16 seq)" "ucast (drop_bit 24 seq)"
          "ucast crc" "ucast (drop_bit 8 crc)"])
       (simp_all add: protect_bytes Let_def header_fields_def le32_split le16_split
          expected_crc_def did_def sid_def seq_def crc_def)
qed

lemma unwrap_protect:
  assumes "r_cfg r = p_cfg p" and "r_first r \<or> p_seq p = r_last_seq r + 1"
  shows "unwrap r (fst (protect p payload)) = (Inr payload, r\<lparr>r_first := False, r_last_seq := p_seq p\<rparr>)"
  by (rule protect_ten [of p payload]) (use assms in \<open>auto simp: unwrap_bytes\<close>)

lemma unwrap_reject_unchanged: "isl (fst (unwrap r data)) \<Longrightarrow> snd (unwrap r data) = r"
  by (auto simp: unwrap_def Let_def split: if_splits)

lemma unwrap_Inr_iff:
  "unwrap r data = (Inr payload, r') \<longleftrightarrow>
    kHeaderSize \<le> length data \<and> payload = drop kHeaderSize data \<and>
    le16 (data ! 8) (data ! 9) =
      expected_crc (r_cfg r) (data ! 4) (data ! 5) (data ! 6) (data ! 7) payload \<and>
    (r_first r \<or> le32 (data ! 4) (data ! 5) (data ! 6) (data ! 7) = r_last_seq r + 1) \<and>
    r' = r\<lparr>r_first := False, r_last_seq := le32 (data ! 4) (data ! 5) (data ! 6) (data ! 7)\<rparr>"
proof (cases "kHeaderSize \<le> length data")
  case True
  then obtain b0 b1 b2 b3 b4 b5 b6 b7 b8 b9 pl
    where d: "data = b0 # b1 # b2 # b3 # b4 # b5 # b6 # b7 # b8 # b9 # pl"
    by (rule ten_bytes)
  show ?thesis
    unfolding d unwrap_bytes Let_def kHeaderSize_def by auto
next
  case False
  then show ?thesis by (simp add: unwrap_def)
qed

text \<open>Two CRC inputs that differ in one byte, or in two adjacent ones, have different CRCs.\<close>

lemma crc16_update: "i < length xs \<Longrightarrow> crc16 (xs[i := b]) = crc16 xs \<longleftrightarrow> b = xs ! i"
  by (simp add: crc16_def crc.update_change)

lemma expected_crc_counter:
  "expected_crc cfg b4 b5 b6 b7 pl = expected_crc cfg c b5 b6 b7 pl \<longleftrightarrow> b4 = c"
  "expected_crc cfg b4 b5 b6 b7 pl = expected_crc cfg b4 c b6 b7 pl \<longleftrightarrow> b5 = c"
  "expected_crc cfg b4 b5 b6 b7 pl = expected_crc cfg b4 b5 c b7 pl \<longleftrightarrow> b6 = c"
  "expected_crc cfg b4 b5 b6 b7 pl = expected_crc cfg b4 b5 b6 c pl \<longleftrightarrow> b7 = c"
  by (auto simp: expected_crc_def crc16_def crc.fold_inj dest: crc.byte_inj crc.state_inj)

lemma expected_crc_payload:
  "i < length pl \<Longrightarrow> expected_crc cfg b4 b5 b6 b7 (pl[i := b]) = expected_crc cfg b4 b5 b6 b7 pl \<longleftrightarrow> b = pl ! i"
  by (simp add: expected_crc_def crc16_def crc.update_change)

lemma expected_crc_ids:
  assumes "(data_id cfg = data_id cfg') \<noteq> (source_id cfg = source_id cfg')"
  shows "expected_crc cfg b4 b5 b6 b7 pl \<noteq> expected_crc cfg' b4 b5 b6 b7 pl"
proof
  have split: "w = w'" if "ucast w = (ucast w' :: u8)" "ucast (drop_bit 8 w) = (ucast (drop_bit 8 w') :: u8)"
    for w w' :: u16
    using that by (metis le16_split)
  assume "expected_crc cfg b4 b5 b6 b7 pl = expected_crc cfg' b4 b5 b6 b7 pl"
  then show False
    using assms
    by (auto simp: expected_crc_def crc16_def crc.fold_inj dest!: crc.state_inj)
       (auto dest!: crc.pair_inj dest: split)
qed

subsection \<open>Runs\<close>

fun protect_all :: "protector \<Rightarrow> bytes list \<Rightarrow> bytes list \<times> protector" where
  "protect_all p [] = ([], p)"
| "protect_all p (x # xs) =
    (let (m, p') = protect p x; (ms, p'') = protect_all p' xs in (m # ms, p''))"

fun unwrap_all :: "receiver \<Rightarrow> bytes list \<Rightarrow> (e2e_error + bytes) list \<times> receiver" where
  "unwrap_all r [] = ([], r)"
| "unwrap_all r (m # ms) =
    (let (x, r') = unwrap r m; (xs, r'') = unwrap_all r' ms in (x # xs, r''))"

text \<open>The counters of the messages a receiver accepts in a run, in order.\<close>

fun accepted_counters :: "receiver \<Rightarrow> bytes list \<Rightarrow> u32 list" where
  "accepted_counters r [] = []"
| "accepted_counters r (m # ms) =
    (let (x, r') = unwrap r m
     in (if isl x then [] else [r_last_seq r']) @ accepted_counters r' ms)"

fun consecutive :: "u32 \<Rightarrow> u32 list \<Rightarrow> bool" where
  "consecutive n [] = True"
| "consecutive n (x # xs) = (x = n \<and> consecutive (n + 1) xs)"

lemma accepted_consecutive:
  "\<not> r_first r \<Longrightarrow> consecutive (r_last_seq r + 1) (accepted_counters r ms)"
proof (induction ms arbitrary: r)
  case (Cons m ms)
  obtain x r' where u: "unwrap r m = (x, r')" by (cases "unwrap r m")
  show ?case
  proof (cases x)
    case (Inl e)
    then have "r' = r" using unwrap_reject_unchanged [of r m] u by simp
    with Inl u Cons show ?thesis by simp
  next
    case (Inr pl)
    then have "\<not> r_first r'" "r_last_seq r' = r_last_seq r + 1"
      using u Cons.prems unwrap_Inr_iff [of r m pl r'] by auto
    with Inr u Cons.IH [of r'] show ?thesis by simp
  qed
qed simp

lemma stream_roundtrip:
  "r_cfg r = p_cfg p \<Longrightarrow> r_first r \<or> p_seq p = r_last_seq r + 1 \<Longrightarrow>
   fst (unwrap_all r (fst (protect_all p payloads))) = map Inr payloads"
proof (induction payloads arbitrary: p r)
  case (Cons x xs)
  then show ?case by (simp add: unwrap_protect split_beta)
qed simp

subsection \<open>Properties\<close>

text \<open>Wire format. A protected message is ten header bytes and the payload: the configured
  identifiers in bytes 0 to 3, the counter in bytes 4 to 7, and in bytes 8 and 9 the CRC-16 of
  bytes 0 to 7 followed by the payload, all little-endian; the CRC the header builder computes
  with its own two loops is the one of \<open>crc16\<close>. The counter goes up by one, modulo $2^{32}$.\<close>

theorem protect_wire_format:
  "(let (m, p') = protect p payload in
      length m = kHeaderSize + length payload \<and>
      le16 (m ! 0) (m ! 1) = data_id (p_cfg p) \<and>
      le16 (m ! 2) (m ! 3) = source_id (p_cfg p) \<and>
      le32 (m ! 4) (m ! 5) (m ! 6) (m ! 7) = p_seq p \<and>
      le16 (m ! 8) (m ! 9) = crc16 (take 8 m @ payload) \<and>
      drop kHeaderSize m = payload \<and>
      p_cfg p' = p_cfg p \<and> unat (p_seq p') = (unat (p_seq p) + 1) mod 2 ^ 32)"
  by (simp add: protect_def Let_def build_header_closed header_fields_def kHeaderSize_def
      le16_split le32_split nth_append unat_word_ariths)

text \<open>C3: round trip of a whole stream. Whatever payloads a protector sends, a receiver with the same
  configuration that starts fresh, or stands just before the protector's counter, unwraps every
  message to its payload, across the wrap-around of the counter too.\<close>

theorem e2e_stream_roundtrip:
  assumes "r_cfg r = p_cfg p" and "r_first r \<or> p_seq p = r_last_seq r + 1"
  shows "fst (unwrap_all r (fst (protect_all p payloads))) = map Inr payloads"
  using assms by (rule stream_roundtrip)

theorem e2e_stream_roundtrip_witness:
  "fst (unwrap_all (new_receiver \<lparr>data_id = 0x42, source_id = 1\<rparr>)
     (fst (protect_all \<lparr>p_cfg = \<lparr>data_id = 0x42, source_id = 1\<rparr>, p_seq = 0xFFFFFFFF\<rparr> [[1, 2], [], [3]])))
   = [Inr [1, 2], Inr [], Inr [3]]"
  using e2e_stream_roundtrip [of "new_receiver \<lparr>data_id = 0x42, source_id = 1\<rparr>"
      "\<lparr>p_cfg = \<lparr>data_id = 0x42, source_id = 1\<rparr>, p_seq = 0xFFFFFFFF\<rparr>" "[[1, 2], [], [3]]"]
  by (simp add: new_receiver_def)

text \<open>C27: the checks of \<open>unwrap\<close>, exactly. A message is accepted when it has ten bytes, its CRC is that
  of the receiver's identifiers, the received counter and the payload, and the receiver is fresh
  or the counter follows the last accepted one; the payload is what follows the header. A rejected
  message leaves the receiver as it was.\<close>

theorem unwrap_accepts_iff:
  "(unwrap r data = (Inr payload, r') \<longleftrightarrow>
     kHeaderSize \<le> length data \<and> payload = drop kHeaderSize data \<and>
     le16 (data ! 8) (data ! 9) =
       crc16 (header_fields (data_id (r_cfg r)) (source_id (r_cfg r))
                (le32 (data ! 4) (data ! 5) (data ! 6) (data ! 7)) @ payload) \<and>
     (r_first r \<or> le32 (data ! 4) (data ! 5) (data ! 6) (data ! 7) = r_last_seq r + 1) \<and>
     r' = r\<lparr>r_first := False, r_last_seq := le32 (data ! 4) (data ! 5) (data ! 6) (data ! 7)\<rparr>)
   \<and> (unwrap r data = (Inl e, r') \<longrightarrow> r' = r)"
proof
  show "unwrap r data = (Inl e, r') \<longrightarrow> r' = r"
    using unwrap_reject_unchanged [of r data] by auto
qed (simp only: unwrap_Inr_iff expected_crc_def header_fields_le32)

theorem unwrap_accepts_iff_witness:
  "unwrap (new_receiver \<lparr>data_id = 0, source_id = 0\<rparr>) [1, 2] =
     (Inl (E2EError HeaderTooShort 0 ''need 10 bytes, got 2''), new_receiver \<lparr>data_id = 0, source_id = 0\<rparr>)
   \<and> (\<nexists>pl r'. unwrap (new_receiver \<lparr>data_id = 0, source_id = 0\<rparr>) [1, 2] = (Inr pl, r'))"
proof
  show "\<nexists>pl r'. unwrap (new_receiver \<lparr>data_id = 0, source_id = 0\<rparr>) [1, 2] = (Inr pl, r')"
    using unwrap_accepts_iff [of "new_receiver \<lparr>data_id = 0, source_id = 0\<rparr>" "[1, 2]"]
    by (simp add: kHeaderSize_def)
qed code_simp

text \<open>Changing any single byte of a protected message from the counter on (bytes 4 and up: counter,
  CRC, payload) makes a receiver with the same configuration reject it with a CRC mismatch, and
  leaves its state alone.\<close>

theorem unwrap_detects_byte_corruption:
  assumes "r_cfg r = p_cfg p" and "4 \<le> i" and "i < 10 + length payload"
    and "b \<noteq> fst (protect p payload) ! i"
  shows "\<exists>seq. unwrap r ((fst (protect p payload))[i := b]) =
    (Inl (E2EError CRCMismatch seq ''CRC mismatch''), r)"
proof -
  obtain b0 b1 b2 b3 b4 b5 b6 b7 b8 b9
    where m: "fst (protect p payload) = b0 # b1 # b2 # b3 # b4 # b5 # b6 # b7 # b8 # b9 # payload"
      and crc: "le16 b8 b9 = expected_crc (p_cfg p) b4 b5 b6 b7 payload"
    by (rule protect_ten [of p payload])
  have "i = 4 \<or> i = 5 \<or> i = 6 \<or> i = 7 \<or> i = 8 \<or> i = 9 \<or>
      i = 10 + (i - 10) \<and> i - 10 < length payload"
    using assms(2,3) by arith
  then consider "i = 4 \<or> i = 5 \<or> i = 6 \<or> i = 7" | "i = 8 \<or> i = 9"
    | j where "i = 10 + j" "j < length payload" by blast
  then show ?thesis
  proof cases
    case 1
    then show ?thesis
      using assms(1,4) by (elim disjE) (simp_all add: m unwrap_bytes Let_def crc expected_crc_counter)
  next
    case 2
    then show ?thesis
      using assms(1,4) by (elim disjE) (simp_all add: m unwrap_bytes Let_def crc [symmetric] le16_inj)
  next
    case (3 j)
    then have "b \<noteq> payload ! j" using assms(4) by (simp add: m)
    then show ?thesis
      using 3 assms(1) expected_crc_payload [of j payload "p_cfg p" b4 b5 b6 b7 b]
      by (simp add: m unwrap_bytes Let_def crc eq_commute)
  qed
qed

theorem unwrap_detects_byte_corruption_witness:
  "\<exists>seq. unwrap (new_receiver \<lparr>data_id = 7, source_id = 9\<rparr>)
       ((fst (protect (new_protector \<lparr>data_id = 7, source_id = 9\<rparr>) [1, 2]))[4 := 1]) =
     (Inl (E2EError CRCMismatch seq ''CRC mismatch''), new_receiver \<lparr>data_id = 7, source_id = 9\<rparr>)"
proof -
  have "(1 :: u8) \<noteq> fst (protect (new_protector \<lparr>data_id = 7, source_id = 9\<rparr>) [1, 2]) ! 4"
    by (simp add: protect_bytes Let_def new_protector_def header_fields_def)
  then show ?thesis
    by (intro unwrap_detects_byte_corruption) (simp_all add: new_receiver_def new_protector_def)
qed

text \<open>Masquerading. A receiver configured for another data element of the same source, or for the
  same data element of another source, rejects every message of the protector with a CRC mismatch.\<close>

theorem unwrap_detects_masquerade:
  assumes "(data_id (r_cfg r) = data_id (p_cfg p)) \<noteq> (source_id (r_cfg r) = source_id (p_cfg p))"
  shows "unwrap r (fst (protect p payload)) = (Inl (E2EError CRCMismatch (p_seq p) ''CRC mismatch''), r)"
proof -
  obtain b0 b1 b2 b3 b4 b5 b6 b7 b8 b9
    where m: "fst (protect p payload) = b0 # b1 # b2 # b3 # b4 # b5 # b6 # b7 # b8 # b9 # payload"
      and "le32 b4 b5 b6 b7 = p_seq p"
      and "le16 b8 b9 = expected_crc (p_cfg p) b4 b5 b6 b7 payload"
    by (rule protect_ten [of p payload])
  moreover have "expected_crc (p_cfg p) b4 b5 b6 b7 payload \<noteq> expected_crc (r_cfg r) b4 b5 b6 b7 payload"
    using expected_crc_ids [OF assms] by (rule not_sym)
  ultimately show ?thesis by (simp add: unwrap_bytes)
qed

theorem unwrap_detects_masquerade_witness:
  "unwrap (new_receiver \<lparr>data_id = 7, source_id = 8\<rparr>)
     (fst (protect (new_protector \<lparr>data_id = 7, source_id = 9\<rparr>) [1, 2])) =
   (Inl (E2EError CRCMismatch 0 ''CRC mismatch''), new_receiver \<lparr>data_id = 7, source_id = 8\<rparr>)"
  using unwrap_detects_masquerade [of "new_receiver \<lparr>data_id = 7, source_id = 8\<rparr>"
      "new_protector \<lparr>data_id = 7, source_id = 9\<rparr>" "[1, 2]"]
  by (simp add: new_receiver_def new_protector_def)

text \<open>The identifier bytes of a received message are never looked at: replacing bytes 0 to 3 by
  anything changes neither the result of \<open>unwrap\<close> nor the receiver's next state.\<close>

theorem unwrap_ignores_received_ids:
  assumes "length ids = 4" and "length ids' = 4"
  shows "unwrap r (ids @ rest) = unwrap r (ids' @ rest)"
proof -
  have "unwrap r ((a # b # c # d # []) @ rest) = unwrap r ((a' # b' # c' # d' # []) @ rest)"
    for a b c d a' b' c' d'
    by (simp add: unwrap_def kHeaderSize_def)
  moreover have "\<exists>a b c d. xs = [a, b, c, d]" if "length xs = 4" for xs :: bytes
    using that by (auto simp: numeral_eq_Suc length_Suc_conv)
  ultimately show ?thesis using assms by metis
qed

theorem unwrap_ignores_received_ids_witness:
  "unwrap (new_receiver \<lparr>data_id = 7, source_id = 9\<rparr>) ([7, 0, 9, 0] @ [0, 0, 0, 0, 0, 0]) =
   unwrap (new_receiver \<lparr>data_id = 7, source_id = 9\<rparr>) ([1, 2, 3, 4] @ [0, 0, 0, 0, 0, 0])"
  by (rule unwrap_ignores_received_ids) simp_all

text \<open>Sequence safety. In any run over any messages, valid or not, the counters of the accepted
  messages are consecutive (modulo $2^{32}$), starting from the one after the last accepted before
  the run; so a message accepted once is rejected as a sequence gap when it comes again next.\<close>

theorem receiver_sequence_safety:
  assumes "unwrap r m = (Inr payload, r')"
  shows "consecutive (r_last_seq r' + 1) (accepted_counters r' ms)
    \<and> (\<exists>msg. unwrap r' m = (Inl (E2EError SequenceGap (r_last_seq r') msg), r'))"
proof
  have "\<not> r_first r'" using assms by (simp add: unwrap_Inr_iff)
  then show "consecutive (r_last_seq r' + 1) (accepted_counters r' ms)"
    by (rule accepted_consecutive)
  have "kHeaderSize \<le> length m" using assms by (simp add: unwrap_Inr_iff)
  then obtain b0 b1 b2 b3 b4 b5 b6 b7 b8 b9 pl
    where m: "m = b0 # b1 # b2 # b3 # b4 # b5 # b6 # b7 # b8 # b9 # pl"
    by (rule ten_bytes)
  show "\<exists>msg. unwrap r' m = (Inl (E2EError SequenceGap (r_last_seq r') msg), r')"
    using assms unfolding m unwrap_Inr_iff by (simp add: unwrap_bytes kHeaderSize_def Let_def)
qed

theorem receiver_sequence_safety_witness:
  "\<exists>msg. unwrap \<lparr>r_cfg = \<lparr>data_id = 7, source_id = 9\<rparr>, r_last_seq = 0, r_first = False\<rparr>
      (fst (protect (new_protector \<lparr>data_id = 7, source_id = 9\<rparr>) [1])) =
    (Inl (E2EError SequenceGap 0 msg), \<lparr>r_cfg = \<lparr>data_id = 7, source_id = 9\<rparr>, r_last_seq = 0, r_first = False\<rparr>)"
proof -
  let ?m = "fst (protect (new_protector \<lparr>data_id = 7, source_id = 9\<rparr>) [1])"
  let ?r = "\<lparr>r_cfg = \<lparr>data_id = 7, source_id = 9\<rparr>, r_last_seq = 0, r_first = False\<rparr>"
  have "unwrap (new_receiver \<lparr>data_id = 7, source_id = 9\<rparr>) ?m = (Inr [1], ?r)"
    by (subst unwrap_protect) (simp_all add: new_receiver_def new_protector_def)
  from receiver_sequence_safety [OF this, THEN conjunct2] show ?thesis by simp
qed

end
