(* ===== verification/E2ELoss.thy ===== *)
theory E2ELoss
  imports E2E
begin

text \<open>
  End-to-end protection (\<open>src/safety/e2e.cpp\<close>) over a channel that loses messages, as a dropping
  subscription of the bus does: what the receiver still hands out.
\<close>

text \<open>What arrives of a stream: the messages whose mark is \<open>True\<close>. The payloads a receiver hands out.\<close>

definition arriving :: "bool list \<Rightarrow> 'a list \<Rightarrow> 'a list" where
  "arriving marks xs = map snd (filter fst (zip marks xs))"

definition handed_out :: "(e2e_error + bytes) list \<Rightarrow> bytes list" where
  "handed_out rs = concat (map (case_sum (\<lambda>_. []) (\<lambda>pl. [pl])) rs)"

lemma arriving_Cons [simp]:
  "arriving [] xs = []" "arriving (b # bs) (x # xs) = (if b then x # arriving bs xs else arriving bs xs)"
  by (simp_all add: arriving_def)

lemma handed_out_Cons [simp]:
  "handed_out [] = []" "handed_out (Inr pl # rs) = pl # handed_out rs" "handed_out (Inl e # rs) = handed_out rs"
  by (simp_all add: handed_out_def)

text \<open>A message with another counter than the expected one is a gap.\<close>

lemma unwrap_shifted:
  assumes "r_cfg r = p_cfg p" "\<not> r_first r" "p_seq p \<noteq> r_last_seq r + 1"
  shows "\<exists>msg. unwrap r (fst (protect p payload)) = (Inl (E2EError SequenceGap (p_seq p) msg), r)"
  by (rule protect_ten [of p payload]) (use assms in \<open>auto simp: unwrap_bytes Let_def\<close>)

text \<open>A receiver that has missed \<open>d\<close> messages hands out nothing until the counter comes round.\<close>

lemma after_loss:
  assumes "r_cfg r = p_cfg p" "\<not> r_first r" "p_seq p = r_last_seq r + 1 + of_nat d"
    and "0 < d" "d + length payloads \<le> 2 ^ 32" "length marks = length payloads"
  shows "handed_out (fst (unwrap_all r (arriving marks (fst (protect_all p payloads))))) = []"
  using assms
proof (induction payloads arbitrary: p d marks)
  case (Cons x xs)
  obtain b bs where marks: "marks = b # bs" using Cons.prems(6) by (cases marks) auto
  have "(of_nat d :: u32) \<noteq> 0"
    using Cons.prems(4,5) by (auto simp: word_of_nat_eq_0_iff dest: dvd_imp_le)
  then have "p_seq p \<noteq> r_last_seq r + 1" using Cons.prems(3) by simp
  then obtain msg where "unwrap r (fst (protect p x)) = (Inl (E2EError SequenceGap (p_seq p) msg), r)"
    using unwrap_shifted [OF Cons.prems(1,2)] by blast
  moreover have "handed_out (fst (unwrap_all r (arriving bs (fst (protect_all (p\<lparr>p_seq := p_seq p + 1\<rparr>) xs))))) = []"
    by (rule Cons.IH [of _ "Suc d"]) (use Cons.prems marks in simp_all)
  ultimately show ?case by (simp add: marks split_beta)
qed (simp add: arriving_def)

lemma unwrap_all_lossy:
  assumes "r_cfg r = p_cfg p" "\<not> r_first r" "p_seq p = r_last_seq r + 1"
    and "length payloads \<le> 2 ^ 32" "length marks = length payloads"
  shows "handed_out (fst (unwrap_all r (arriving marks (fst (protect_all p payloads))))) =
    map snd (takeWhile fst (zip marks payloads))"
  using assms
proof (induction payloads arbitrary: p r marks)
  case (Cons x xs)
  obtain b bs where marks: "marks = b # bs" using Cons.prems(5) by (cases marks) auto
  define p1 where "p1 = p\<lparr>p_seq := p_seq p + 1\<rparr>"
  have len: "length bs = length xs" using Cons.prems(5) by (simp add: marks)
  show ?case
  proof (cases b)
    case True
    define r1 where "r1 = r\<lparr>r_first := False, r_last_seq := p_seq p\<rparr>"
    have u: "unwrap r (fst (protect p x)) = (Inr x, r1)"
      using Cons.prems(1-3) by (simp add: unwrap_protect r1_def)
    have "handed_out (fst (unwrap_all r1 (arriving bs (fst (protect_all p1 xs))))) = map snd (takeWhile fst (zip bs xs))"
      by (rule Cons.IH) (use Cons.prems len in \<open>simp_all add: r1_def p1_def\<close>)
    then show ?thesis using u True by (simp add: marks split_beta p1_def)
  next
    case False
    have "handed_out (fst (unwrap_all r (arriving bs (fst (protect_all p1 xs))))) = []"
      by (rule after_loss [of _ _ 1]) (use Cons.prems len in \<open>simp_all add: p1_def\<close>)
    then show ?thesis using False by (simp add: marks split_beta p1_def)
  qed
qed (simp add: arriving_def)

text \<open>Over a channel that loses messages a receiver in step hands out, of at most $2^{32}$ messages,
  exactly the payloads sent before the first loss: never one out of order, and nothing after a loss,
  however many messages follow undamaged.\<close>

theorem loss_stops_the_stream:
  assumes "r_cfg r = p_cfg p" "\<not> r_first r" "p_seq p = r_last_seq r + 1"
    and "length payloads \<le> 2 ^ 32" "length marks = length payloads"
  shows "handed_out (fst (unwrap_all r (arriving marks (fst (protect_all p payloads))))) =
    map snd (takeWhile fst (zip marks payloads))"
  using assms by (rule unwrap_all_lossy)

theorem loss_stops_the_stream_witness:
  "handed_out (fst (unwrap_all \<lparr>r_cfg = \<lparr>data_id = 7, source_id = 9\<rparr>, r_last_seq = - 1, r_first = False\<rparr>
     (arriving [True, True, False, True] (fst (protect_all (new_protector \<lparr>data_id = 7, source_id = 9\<rparr>) [[1], [2], [3], [4]])))))
   = [[1], [2]]"
  by (subst loss_stops_the_stream) (simp_all add: new_protector_def)

end
