(* ===== verification/E2EOrder.thy ===== *)
theory E2EOrder
  imports E2ELoss "HOL-Library.Sublist" "HOL-Library.Multiset"
begin

text \<open>
  End-to-end protection (\<open>src/safety/e2e.cpp\<close>) over a channel that loses, reorders and repeats
  messages, and by threads that share a \<open>Protector\<close>: what a receiver hands out then.
\<close>

subsection \<open>A stream by positions\<close>

definition stream_message :: "protector \<Rightarrow> bytes list \<Rightarrow> nat \<Rightarrow> bytes" where
  "stream_message p payloads i = fst (protect (p\<lparr>p_seq := p_seq p + of_nat i\<rparr>) (payloads ! i))"

lemma protect_all_positions: "fst (protect_all p payloads) = map (stream_message p payloads) [0..<length payloads]"
proof (induction payloads arbitrary: p)
  case (Cons x xs)
  have "stream_message (p\<lparr>p_seq := p_seq p + 1\<rparr>) xs = stream_message p (x # xs) \<circ> Suc"
    by (rule ext) (simp add: stream_message_def add.assoc)
  then have "fst (protect_all (p\<lparr>p_seq := p_seq p + 1\<rparr>) xs) = map (stream_message p (x # xs)) (map Suc [0..<length xs])"
    using Cons.IH by simp
  also have "map Suc [0..<length xs] = [Suc 0..<Suc (length xs)]" by (rule map_Suc_upt)
  finally show ?case
    by (simp add: split_beta upt_conv_Cons stream_message_def del: upt_Suc)
qed simp

lemma of_nat_u32_eq: "i < 2 ^ 32 \<Longrightarrow> j < 2 ^ 32 \<Longrightarrow> (of_nat i :: u32) = of_nat j \<longleftrightarrow> i = j"
  by (simp add: word_of_nat_eq_iff take_bit_nat_eq_self)

lemma stream_counter: "le32 (stream_message p xs i ! 4) (stream_message p xs i ! 5) (stream_message p xs i ! 6)
    (stream_message p xs i ! 7) = p_seq p + of_nat i"
  by (rule protect_ten [of "p\<lparr>p_seq := p_seq p + of_nat i\<rparr>" "xs ! i"]) (simp add: stream_message_def)

lemma stream_message_inj: "length payloads \<le> 2 ^ 32 \<Longrightarrow> inj_on (stream_message p payloads) {..<length payloads}"
proof (rule inj_onI)
  fix i j
  assume "length payloads \<le> 2 ^ 32" "i \<in> {..<length payloads}" "j \<in> {..<length payloads}"
    and "stream_message p payloads i = stream_message p payloads j"
  then show "i = j"
    using stream_counter [of p payloads i] stream_counter [of p payloads j] of_nat_u32_eq [of i j] by simp
qed

text \<open>The receiver after the first \<open>k\<close> messages of the stream.\<close>

definition after_first :: "nat \<Rightarrow> protector \<Rightarrow> receiver \<Rightarrow> receiver" where
  "after_first k p r = r\<lparr>r_first := False, r_last_seq := p_seq p + of_nat k - 1\<rparr>"

lemma unwrap_position:
  assumes "r_cfg r = p_cfg p" "length payloads < 2 ^ 32" "i < length payloads" "k \<le> length payloads"
  shows "i = k \<Longrightarrow> unwrap (after_first k p r) (stream_message p payloads i) = (Inr (payloads ! i), after_first (Suc k) p r)"
    and "i \<noteq> k \<Longrightarrow> \<exists>e. unwrap (after_first k p r) (stream_message p payloads i) = (Inl e, after_first k p r)"
proof -
  let ?p = "p\<lparr>p_seq := p_seq p + of_nat i\<rparr>" and ?r = "after_first k p r"
  have r: "r_cfg ?r = p_cfg ?p" "\<not> r_first ?r" "r_last_seq ?r + 1 = p_seq p + of_nat k"
    using assms(1) by (simp_all add: after_first_def)
  show "unwrap ?r (stream_message p payloads i) = (Inr (payloads ! i), after_first (Suc k) p r)" if "i = k"
    using unwrap_protect [OF r(1), of "payloads ! i"] r(3) that
    by (simp add: stream_message_def after_first_def)
  show "\<exists>e. unwrap ?r (stream_message p payloads i) = (Inl e, ?r)" if "i \<noteq> k"
  proof -
    have "p_seq ?p \<noteq> r_last_seq ?r + 1"
      using that assms(2-4) of_nat_u32_eq [of i k] unfolding r(3) by simp
    then show ?thesis
      using unwrap_shifted [OF r(1,2), of "payloads ! i"] by (auto simp: stream_message_def)
  qed
qed

subsection \<open>Following one's turn\<close>

text \<open>How far a count goes that advances at its own number only.\<close>

fun follow :: "nat \<Rightarrow> nat list \<Rightarrow> nat" where
  "follow k [] = k"
| "follow k (i # is) = follow (if i = k then Suc k else k) is"

lemma follow_ge: "k \<le> follow k is"
  by (induction "is" arbitrary: k) (auto intro: le_trans [OF le_SucI])

lemma follow_le: "k \<le> n \<Longrightarrow> \<forall>i\<in>set is. i < n \<Longrightarrow> follow k is \<le> n"
  by (induction "is" arbitrary: k) auto

text \<open>It reaches the longest piece that lies in the list in order.\<close>

lemma follow_longest: "k \<le> m \<Longrightarrow> subseq [k..<m] is \<longleftrightarrow> m \<le> follow k is"
proof (induction "is" arbitrary: k)
  case Nil
  then show ?case by (cases "k = m") (simp_all add: upt_conv_Cons)
next
  case (Cons i "is")
  show ?case
  proof (cases "k = m")
    case True
    then show ?thesis using follow_ge [of m "i # is"] by simp
  next
    case False
    then have "[k..<m] = k # [Suc k..<m]" "Suc k \<le> m" using Cons.prems by (simp_all add: upt_conv_Cons)
    then show ?thesis using Cons.IH [of k] Cons.IH [of "Suc k"] Cons.prems by auto
  qed
qed

lemma handed_out_follow:
  assumes "r_cfg r = p_cfg p" "length payloads < 2 ^ 32"
  shows "k \<le> length payloads \<Longrightarrow> \<forall>i\<in>set is. i < length payloads \<Longrightarrow>
    handed_out (fst (unwrap_all (after_first k p r) (map (stream_message p payloads) is))) =
      map ((!) payloads) [k..<follow k is]"
proof (induction "is" arbitrary: k)
  case (Cons i "is")
  have i: "i < length payloads" "\<forall>i\<in>set is. i < length payloads" using Cons.prems(2) by simp_all
  note pos = unwrap_position [OF assms i(1) Cons.prems(1)]
  show ?case
  proof (cases "i = k")
    case True
    have "[k..<follow (Suc k) is] = k # [Suc k..<follow (Suc k) is]"
      using follow_ge [of "Suc k" "is"] by (simp add: upt_conv_Cons)
    then show ?thesis using pos(1) [OF True] True Cons.IH [of "Suc k"] i by (simp add: split_beta)
  next
    case False
    obtain e where "unwrap (after_first k p r) (stream_message p payloads i) = (Inl e, after_first k p r)"
      using pos(2) [OF False] by blast
    then show ?thesis using False Cons.IH [OF Cons.prems(1)] i by (simp add: split_beta)
  qed
qed simp

text \<open>Messages of the stream in any order, by their positions.\<close>

lemma wire_positions:
  assumes "set wire \<subseteq> set (fst (protect_all p payloads))"
  obtains "is" where "wire = map (stream_message p payloads) is" "\<forall>i\<in>set is. i < length payloads"
proof -
  have "wire \<in> lists (stream_message p payloads ` {..<length payloads})"
    using assms by (auto simp: protect_all_positions atLeast0LessThan)
  then obtain "is" where "is \<in> lists {..<length payloads}" "wire = map (stream_message p payloads) is"
    by (auto simp: lists_image)
  then show thesis by (intro that) auto
qed

lemma subseq_map_inj:
  assumes "inj_on f A" "set xs \<subseteq> A" "set ys \<subseteq> A"
  shows "subseq (map f xs) (map f ys) \<longleftrightarrow> subseq xs ys"
proof
  assume "subseq (map f xs) (map f ys)"
  then have "subseq (map (the_inv_into A f) (map f xs)) (map (the_inv_into A f) (map f ys))" by (rule subseq_map)
  moreover have "map (the_inv_into A f) (map f zs) = zs" if "set zs \<subseteq> A" for zs
    using that assms(1) by (induction zs) (auto simp: the_inv_into_f_f)
  ultimately show "subseq xs ys" using assms(2,3) by metis
qed (rule subseq_map)

lemma handed_out_longest:
  assumes "r_cfg r = p_cfg p" "\<not> r_first r" "p_seq p = r_last_seq r + 1" "length payloads < 2 ^ 32"
    and "set wire \<subseteq> set (fst (protect_all p payloads))"
  obtains m where "m \<le> length payloads" "handed_out (fst (unwrap_all r wire)) = take m payloads"
    "\<And>n. n \<le> length payloads \<Longrightarrow> subseq (take n (fst (protect_all p payloads))) wire \<longleftrightarrow> n \<le> m"
proof -
  obtain "is" where w: "wire = map (stream_message p payloads) is" "\<forall>i\<in>set is. i < length payloads"
    using wire_positions [OF assms(5)] by blast
  define m where "m = follow 0 is"
  have m: "m \<le> length payloads" using w(2) unfolding m_def by (intro follow_le) simp_all
  have "after_first 0 p r = r" using assms(2,3) by (simp add: after_first_def)
  then have "handed_out (fst (unwrap_all r wire)) = map ((!) payloads) [0..<m]"
    using handed_out_follow [OF assms(1,4), of 0 "is"] w by (simp add: m_def)
  also have "\<dots> = take m payloads" using m by (intro nth_equalityI) auto
  finally have out: "handed_out (fst (unwrap_all r wire)) = take m payloads" .
  have "subseq (take n (fst (protect_all p payloads))) wire \<longleftrightarrow> n \<le> m" if "n \<le> length payloads" for n
  proof -
    have "take n (fst (protect_all p payloads)) = map (stream_message p payloads) [0..<n]"
      using that by (simp add: protect_all_positions take_map take_upt)
    then have "subseq (take n (fst (protect_all p payloads))) wire \<longleftrightarrow> subseq [0..<n] is"
      unfolding w(1) using that w(2) assms(4) stream_message_inj [of payloads p]
      by (simp add: subseq_map_inj [where A = "{..<length payloads}"] subset_eq)
    then show ?thesis using follow_longest [of 0 n "is"] by (simp add: m_def)
  qed
  with m out show thesis by (rule that)
qed

subsection \<open>Threads that share a protector\<close>

text \<open>
  A call of \<open>protect\<close> draws its counter with one atomic increment; header and message are then built
  by the calling thread alone, so the calls return, and their messages are sent, in any order.
\<close>

record sending =
  sd_protector :: protector
  sd_drawn :: "(u32 \<times> bytes) list"
  sd_sent :: "bytes list"

datatype protect_event = Draw bytes | Finish nat

definition sending_start :: "protector \<Rightarrow> sending" where
  "sending_start p = \<lparr>sd_protector = p, sd_drawn = [], sd_sent = []\<rparr>"

definition build_message :: "e2e_config \<Rightarrow> u32 \<times> bytes \<Rightarrow> bytes" where
  "build_message cfg x =
    (let (seq, payload) = x;
         hdr = build_header (data_id cfg) (source_id cfg) seq payload
     in hdr @ payload)"

fun protect_step :: "protect_event \<Rightarrow> sending \<Rightarrow> sending" where
  "protect_step (Draw payload) s =
    (let p = sd_protector s
     in s\<lparr>sd_protector := p\<lparr>p_seq := p_seq p + 1\<rparr>, sd_drawn := sd_drawn s @ [(p_seq p, payload)]\<rparr>)"
| "protect_step (Finish k) s =
    (if k < length (sd_drawn s) then
       s\<lparr>sd_drawn := take k (sd_drawn s) @ drop (Suc k) (sd_drawn s),
         sd_sent := sd_sent s @ [build_message (p_cfg (sd_protector s)) (sd_drawn s ! k)]\<rparr>
     else s)"

fun drawn_payload :: "protect_event \<Rightarrow> bytes list" where
  "drawn_payload (Draw payload) = [payload]"
| "drawn_payload (Finish k) = []"

abbreviation drawn_payloads :: "protect_event list \<Rightarrow> bytes list" where
  "drawn_payloads es \<equiv> concat (map drawn_payload es)"

definition in_making :: "sending \<Rightarrow> bytes list" where
  "in_making s = map (build_message (p_cfg (sd_protector s))) (sd_drawn s)"

lemma protect_build: "fst (protect p payload) = build_message (p_cfg p) (p_seq p, payload)"
  by (simp add: protect_def build_message_def Let_def)

lemma protect_all_snoc:
  "protect_all p (xs @ [x]) =
    (fst (protect_all p xs) @ [fst (protect (snd (protect_all p xs)) x)], snd (protect (snd (protect_all p xs)) x))"
  by (induction xs arbitrary: p) (simp_all add: split_beta)

lemma mset_take_out: "k < length xs \<Longrightarrow> add_mset (xs ! k) (mset (take k xs @ drop (Suc k) xs)) = mset xs"
  by (subst (3) id_take_nth_drop [of k xs]) simp_all

lemma length_build_message [simp]: "length (build_message cfg (seq, payload)) = 10 + length payload"
  by (simp add: build_message_def Let_def)

lemma draw_step:
  "sd_protector (protect_step (Draw payload) s) = snd (protect (sd_protector s) payload)"
  "sd_sent (protect_step (Draw payload) s) = sd_sent s"
  "in_making (protect_step (Draw payload) s) = in_making s @ [fst (protect (sd_protector s) payload)]"
  by (simp_all add: Let_def in_making_def protect_build)

lemma finish_step:
  "sd_protector (protect_step (Finish k) s) = sd_protector s"
  "mset (sd_sent (protect_step (Finish k) s)) + mset (in_making (protect_step (Finish k) s)) =
    mset (sd_sent s) + mset (in_making s)"
proof -
  show "sd_protector (protect_step (Finish k) s) = sd_protector s" by simp
  have "add_mset (in_making s ! k) (mset (take k (in_making s) @ drop (Suc k) (in_making s))) = mset (in_making s)"
    if "k < length (sd_drawn s)"
    using that by (intro mset_take_out) (simp add: in_making_def)
  then show "mset (sd_sent (protect_step (Finish k) s)) + mset (in_making (protect_step (Finish k) s)) =
      mset (sd_sent s) + mset (in_making s)"
    by (simp add: in_making_def take_map drop_map)
qed

lemma protect_steps:
  "sd_protector (fold protect_step es (sending_start p)) = snd (protect_all p (drawn_payloads es)) \<and>
   mset (sd_sent (fold protect_step es (sending_start p))) + mset (in_making (fold protect_step es (sending_start p))) =
     mset (fst (protect_all p (drawn_payloads es)))"
proof (induction es rule: rev_induct)
  case Nil
  then show ?case by (simp add: sending_start_def in_making_def)
next
  case (snoc e es)
  define s where "s = fold protect_step es (sending_start p)"
  have ih: "sd_protector s = snd (protect_all p (drawn_payloads es))"
    "mset (sd_sent s) + mset (in_making s) = mset (fst (protect_all p (drawn_payloads es)))"
    using snoc by (simp_all add: s_def)
  have "fold protect_step (es @ [e]) (sending_start p) = protect_step e s" by (simp add: s_def)
  then show ?case
    using ih by (cases e) (simp_all only: draw_step finish_step, simp_all add: protect_all_snoc)
qed

lemma distinct_stream: "length payloads \<le> 2 ^ 32 \<Longrightarrow> distinct (fst (protect_all p payloads))"
  using stream_message_inj [of payloads p] by (simp add: protect_all_positions distinct_map atLeast0LessThan)

subsection \<open>Properties\<close>

text \<open>C12: whatever a channel does to a stream of fewer than $2^{32}$ protected messages, losing,
  reordering and repeating them at will, a receiver in step hands out a beginning of the payloads
  sent, in order and each once, and the longest one whose messages arrived in their order.\<close>

theorem receiver_hands_out_longest_prefix:
  assumes "r_cfg r = p_cfg p" "\<not> r_first r" "p_seq p = r_last_seq r + 1" "length payloads < 2 ^ 32"
    and "set wire \<subseteq> set (fst (protect_all p payloads))"
  shows "\<exists>m\<le>length payloads. handed_out (fst (unwrap_all r wire)) = take m payloads \<and>
    (\<forall>n\<le>length payloads. subseq (take n (fst (protect_all p payloads))) wire \<longleftrightarrow> n \<le> m)"
  using handed_out_longest [OF assms] by metis

text \<open>A receiver in step with a new protector, and what it hands out when messages are swapped.\<close>

definition demo_protector :: protector where
  "demo_protector = new_protector \<lparr>data_id = 7, source_id = 9\<rparr>"

definition demo_receiver :: receiver where
  "demo_receiver = \<lparr>r_cfg = \<lparr>data_id = 7, source_id = 9\<rparr>, r_last_seq = - 1, r_first = False\<rparr>"

lemma demo_in_step:
  "r_cfg demo_receiver = p_cfg demo_protector" "\<not> r_first demo_receiver"
  "p_seq demo_protector = r_last_seq demo_receiver + 1"
  by (simp_all add: demo_receiver_def demo_protector_def new_protector_def)

theorem receiver_hands_out_longest_prefix_witness:
  "(let ms = fst (protect_all demo_protector [[1], [2], [3]])
    in \<exists>m\<le>3. handed_out (fst (unwrap_all demo_receiver [ms ! 0, ms ! 2, ms ! 1, ms ! 0])) = take m [[1], [2], [3]])"
proof -
  define ms where "ms = fst (protect_all demo_protector [[1], [2], [3]])"
  have "length ms = 3" unfolding ms_def protect_all_positions by simp
  then have wire: "set [ms ! 0, ms ! 2, ms ! 1, ms ! 0] \<subseteq> set (fst (protect_all demo_protector [[1], [2], [3]]))"
    unfolding ms_def [symmetric] by simp
  have few: "length [[1], [2], [3 :: u8]] < 2 ^ 32" and three: "length [[1], [2], [3 :: u8]] = 3" by simp_all
  show ?thesis
    using receiver_hands_out_longest_prefix [OF demo_in_step few wire]
    unfolding Let_def ms_def [symmetric] three by blast
qed

text \<open>C26: calls of \<open>protect\<close> from several threads, fewer than $2^{32}$, give the messages of the stream
  in the order the counters were drawn, each once, and all different. But they may leave in another
  order: a receiver in step hands out all payloads exactly if the calls return in the order in
  which they drew their counters, and otherwise only a beginning of them.\<close>

theorem concurrent_protect:
  assumes "r_cfg r = p_cfg p" "\<not> r_first r" "p_seq p = r_last_seq r + 1" "length (drawn_payloads es) < 2 ^ 32"
  shows "(let s = fold protect_step es (sending_start p); payloads = drawn_payloads es;
              stream = fst (protect_all p payloads)
          in mset (sd_sent s) + mset (in_making s) = mset stream
           \<and> distinct (sd_sent s @ in_making s)
           \<and> prefix (handed_out (fst (unwrap_all r (sd_sent s)))) payloads
           \<and> (handed_out (fst (unwrap_all r (sd_sent s))) = payloads \<longleftrightarrow> sd_sent s = stream))"
proof -
  define s where "s = fold protect_step es (sending_start p)"
  define payloads where "payloads = drawn_payloads es"
  define stream where "stream = fst (protect_all p payloads)"
  have all: "mset (sd_sent s @ in_making s) = mset stream"
    using protect_steps [of es p] by (simp add: s_def payloads_def stream_def)
  have n: "length payloads < 2 ^ 32" using assms(4) by (simp add: payloads_def)
  have "distinct stream" using n by (simp add: stream_def distinct_stream)
  then have dist: "distinct (sd_sent s @ in_making s)" using mset_eq_imp_distinct_iff [OF all] by blast
  have "set (sd_sent s) \<subseteq> set (fst (protect_all p payloads))"
    using mset_eq_setD [OF all] by (auto simp: stream_def)
  from handed_out_longest [OF assms(1-3) n this] obtain m where m: "m \<le> length payloads"
    "handed_out (fst (unwrap_all r (sd_sent s))) = take m payloads"
    "\<And>k. k \<le> length payloads \<Longrightarrow> subseq (take k stream) (sd_sent s) \<longleftrightarrow> k \<le> m"
    unfolding stream_def by blast
  have len: "length stream = length payloads" by (simp add: stream_def protect_all_positions)
  have "sd_sent s = stream" if "m = length payloads"
  proof -
    have "subseq stream (sd_sent s)" using m(3) [of "length payloads"] that len by simp
    moreover have "length (sd_sent s) \<le> length stream" using arg_cong [OF all, of size] by simp
    ultimately show ?thesis by (metis le_antisym list_emb_length subseq_same_length)
  qed
  moreover have "m = length payloads" if "sd_sent s = stream"
    using m(1) m(3) [of "length payloads"] that len by simp
  moreover have "take m payloads = payloads \<longleftrightarrow> m = length payloads" using m(1) by auto
  ultimately have "handed_out (fst (unwrap_all r (sd_sent s))) = payloads \<longleftrightarrow> sd_sent s = stream"
    unfolding m(2) by blast
  then show ?thesis
    using all dist m(2) unfolding Let_def s_def [symmetric] payloads_def [symmetric] stream_def [symmetric]
    by (simp add: take_is_prefix)
qed

theorem concurrent_protect_witness:
  "(let s = fold protect_step [Draw [], Draw [2], Finish 1, Finish 0] (sending_start demo_protector)
    in length (sd_sent s) = 2 \<and> distinct (sd_sent s) \<and> handed_out (fst (unwrap_all demo_receiver (sd_sent s))) \<noteq> [[], [2]])"
proof -
  let ?es = "[Draw [], Draw [2], Finish 1, Finish 0]"
  define s where "s = fold protect_step ?es (sending_start demo_protector)"
  have sent: "map length (sd_sent s) = [11, 10]"
    by (simp add: s_def sending_start_def Let_def)
  have "map length (fst (protect_all demo_protector [[], [2]])) = [10, 11]"
    by (simp add: split_beta)
  then have "sd_sent s \<noteq> fst (protect_all demo_protector [[], [2]])" using sent by auto
  moreover have "length (sd_sent s) = 2" using arg_cong [OF sent, of length] by simp
  moreover have d: "drawn_payloads ?es = [[], [2]]" by simp
  have "length (drawn_payloads ?es) < 2 ^ 32" unfolding d by simp
  ultimately show ?thesis
    using concurrent_protect [OF demo_in_step, of ?es] unfolding d Let_def s_def [symmetric] by auto
qed

end
