(* ===== verification/Channel.thy ===== *)
theory Channel
  imports Prelude
begin

text \<open>
  The bounded channel \<open>Chan<T>\<close> of \<open>include/lin/channel.hpp\<close>: its buffer, capacity and closed
  flag, and its operations, each run under the channel's mutex. A call whose wait predicate is
  false has the outcome \<open>Blocks\<close>; popping an empty deque has the outcome \<open>UB\<close>. The condition
  variables are the subject of theory \<open>ChanSync\<close>.
\<close>

subsection \<open>State and operations\<close>

record 'a chan =
  ch_buf :: "'a list"
  ch_capacity :: nat
  ch_closed :: bool

datatype send_result = Ok | Full | Closed | Evicted

definition new_chan :: "nat \<Rightarrow> 'a chan" where
  "new_chan cap = \<lparr>ch_buf = [], ch_capacity = cap, ch_closed = False\<rparr>"

definition chan_size :: "'a chan \<Rightarrow> nat" where
  "chan_size c = length (ch_buf c)"

definition chan_push :: "'a \<Rightarrow> 'a chan \<Rightarrow> 'a chan" where
  "chan_push v c = c\<lparr>ch_buf := ch_buf c @ [v]\<rparr>"

definition send_ready :: "'a chan \<Rightarrow> bool" where
  "send_ready c \<longleftrightarrow> ch_closed c \<or> chan_size c < ch_capacity c"

definition recv_ready :: "'a chan \<Rightarrow> bool" where
  "recv_ready c \<longleftrightarrow> ch_buf c \<noteq> [] \<or> ch_closed c"

definition chan_send :: "'a \<Rightarrow> 'a chan \<Rightarrow> (bool \<times> 'a chan) outcome" where
  "chan_send v c =
    (if \<not> send_ready c then Blocks
     else if ch_closed c then Ret (False, c)
     else Ret (True, chan_push v c))"

definition try_send :: "'a \<Rightarrow> 'a chan \<Rightarrow> send_result \<times> 'a chan" where
  "try_send v c =
    (if ch_closed c then (Closed, c)
     else if chan_size c \<ge> ch_capacity c then (Full, c)
     else (Ok, chan_push v c))"

definition send_drop_oldest :: "'a \<Rightarrow> 'a chan \<Rightarrow> (send_result \<times> 'a chan) outcome" where
  "send_drop_oldest v c =
    (if ch_closed c then Ret (Closed, c)
     else if chan_size c \<ge> ch_capacity c then
       (case ch_buf c of
          [] \<Rightarrow> UB
        | _ # rest \<Rightarrow> Ret (Evicted, chan_push v (c\<lparr>ch_buf := rest\<rparr>)))
     else Ret (Ok, chan_push v c))"

definition chan_recv :: "'a chan \<Rightarrow> ('a option \<times> 'a chan) outcome" where
  "chan_recv c =
    (if \<not> recv_ready c then Blocks
     else case ch_buf c of
        [] \<Rightarrow> Ret (None, c)
      | v # rest \<Rightarrow> Ret (Some v, c\<lparr>ch_buf := rest\<rparr>))"

definition try_recv :: "'a chan \<Rightarrow> 'a option \<times> 'a chan" where
  "try_recv c =
    (case ch_buf c of
        [] \<Rightarrow> (None, c)
      | v # rest \<Rightarrow> (Some v, c\<lparr>ch_buf := rest\<rparr>))"

definition chan_close :: "'a chan \<Rightarrow> 'a chan" where
  "chan_close c = c\<lparr>ch_closed := True\<rparr>"

definition is_closed :: "'a chan \<Rightarrow> bool" where
  "is_closed c = ch_closed c"

definition capacity :: "'a chan \<Rightarrow> nat" where
  "capacity c = ch_capacity c"

lemmas chan_defs = chan_send_def try_send_def send_drop_oldest_def chan_recv_def try_recv_def
  chan_close_def chan_push_def chan_size_def send_ready_def recv_ready_def

subsection \<open>Invariant\<close>

definition chan_ok :: "'a chan \<Rightarrow> bool" where
  "chan_ok c \<longleftrightarrow> 0 < ch_capacity c \<and> length (ch_buf c) \<le> ch_capacity c"

lemma new_chan_ok [simp]: "chan_ok (new_chan cap) \<longleftrightarrow> 0 < cap"
  by (simp add: chan_ok_def new_chan_def)

lemma chan_ok_open_empty: "chan_ok c \<Longrightarrow> ch_buf c = [] \<Longrightarrow> chan_size c < ch_capacity c"
  by (simp add: chan_ok_def chan_size_def)

lemma chan_ok_send: "chan_ok c \<Longrightarrow> chan_send v c = Ret (b, c') \<Longrightarrow> chan_ok c'"
  by (auto simp: chan_ok_def chan_defs split: if_splits)

lemma chan_ok_try_send: "chan_ok c \<Longrightarrow> chan_ok (snd (try_send v c))"
  by (auto simp: chan_ok_def chan_defs)

lemma chan_ok_send_drop_oldest: "chan_ok c \<Longrightarrow> send_drop_oldest v c = Ret (r, c') \<Longrightarrow> chan_ok c'"
  by (auto simp: chan_ok_def chan_defs split: if_splits list.splits)

lemma chan_ok_recv: "chan_ok c \<Longrightarrow> chan_recv c = Ret (x, c') \<Longrightarrow> chan_ok c'"
  by (auto simp: chan_ok_def chan_defs split: if_splits list.splits)

lemma chan_ok_try_recv: "chan_ok c \<Longrightarrow> chan_ok (snd (try_recv c))"
  by (auto simp: chan_ok_def chan_defs split: list.splits)

lemma chan_ok_close [simp]: "chan_ok (chan_close c) = chan_ok c"
  by (simp add: chan_ok_def chan_close_def)

lemma send_drop_oldest_UB: "send_drop_oldest v c = UB \<longleftrightarrow> \<not> ch_closed c \<and> ch_capacity c = 0 \<and> ch_buf c = []"
  by (auto simp: chan_defs split: list.splits)

lemma send_drop_oldest_no_block: "send_drop_oldest v c \<noteq> Blocks"
  by (auto simp: chan_defs split: list.splits)

lemma chan_ok_drop_oldest_returns:
  assumes "chan_ok c"
  obtains r c' where "send_drop_oldest v c = Ret (r, c')" "chan_ok c'"
proof -
  have "send_drop_oldest v c \<noteq> UB"
    using assms by (simp add: send_drop_oldest_UB chan_ok_def)
  then show thesis
    using that chan_ok_send_drop_oldest [OF assms] send_drop_oldest_no_block [of v c]
    by (cases "send_drop_oldest v c") auto
qed

subsection \<open>Runs of operations\<close>

text \<open>
  One call of any operation; a call that waits, or that is undefined, has no effect in the run.
\<close>

datatype 'a chan_op = Send 'a | TrySend 'a | SendDropOldest 'a | Recv | TryRecv | CloseChan

fun chan_step :: "'a chan_op \<Rightarrow> 'a chan \<Rightarrow> 'a chan" where
  "chan_step (Send v) c = (case chan_send v c of Ret (_, c') \<Rightarrow> c' | _ \<Rightarrow> c)"
| "chan_step (TrySend v) c = snd (try_send v c)"
| "chan_step (SendDropOldest v) c = (case send_drop_oldest v c of Ret (_, c') \<Rightarrow> c' | _ \<Rightarrow> c)"
| "chan_step Recv c = (case chan_recv c of Ret (_, c') \<Rightarrow> c' | _ \<Rightarrow> c)"
| "chan_step TryRecv c = snd (try_recv c)"
| "chan_step CloseChan c = chan_close c"

text \<open>The items a call enqueues, hands to its caller, and discards, as its return value tells.\<close>

fun put_items :: "'a chan_op \<Rightarrow> 'a chan \<Rightarrow> 'a list" where
  "put_items (Send v) c = (case chan_send v c of Ret (True, _) \<Rightarrow> [v] | _ \<Rightarrow> [])"
| "put_items (TrySend v) c = (if fst (try_send v c) = Ok then [v] else [])"
| "put_items (SendDropOldest v) c =
    (case send_drop_oldest v c of Ret (r, _) \<Rightarrow> if r = Ok \<or> r = Evicted then [v] else [] | _ \<Rightarrow> [])"
| "put_items _ c = []"

fun received_items :: "'a chan_op \<Rightarrow> 'a chan \<Rightarrow> 'a list" where
  "received_items Recv c = (case chan_recv c of Ret (Some v, _) \<Rightarrow> [v] | _ \<Rightarrow> [])"
| "received_items TryRecv c = (case fst (try_recv c) of Some v \<Rightarrow> [v] | None \<Rightarrow> [])"
| "received_items _ c = []"

fun evicted_items :: "'a chan_op \<Rightarrow> 'a chan \<Rightarrow> 'a list" where
  "evicted_items (SendDropOldest v) c =
    (case send_drop_oldest v c of Ret (Evicted, _) \<Rightarrow> take 1 (ch_buf c) | _ \<Rightarrow> [])"
| "evicted_items _ c = []"

definition removed_items :: "'a chan_op \<Rightarrow> 'a chan \<Rightarrow> 'a list" where
  "removed_items x c = received_items x c @ evicted_items x c"

subsection \<open>The contract of a bounded queue\<close>

text \<open>
  A store whose every operation removes from the front and adds at the back, and keeps within its
  bound: over a run nothing is lost, duplicated or reordered.
\<close>

locale fifo_store =
  fixes contents :: "'s \<Rightarrow> 'a list"
    and step :: "'op \<Rightarrow> 's \<Rightarrow> 's"
    and removed :: "'op \<Rightarrow> 's \<Rightarrow> 'a list"
    and put :: "'op \<Rightarrow> 's \<Rightarrow> 'a list"
  assumes conservation: "removed x s @ contents (step x s) = contents s @ put x s"
begin

lemma run_conservation:
  "trace step removed xs s @ contents (fold step xs s) = contents s @ trace step put xs s"
proof (induction xs arbitrary: s)
  case (Cons x xs)
  have "trace step removed (x # xs) s @ contents (fold step (x # xs) s) =
      removed x s @ contents (step x s) @ trace step put xs (step x s)"
    by (simp add: Cons.IH)
  also have "\<dots> = contents s @ trace step put (x # xs) s"
    using conservation [of x s] by (simp flip: append_assoc)
  finally show ?case .
qed simp

lemma length_conservation:
  "length (trace step removed xs s) + length (contents (fold step xs s)) =
   length (contents s) + length (trace step put xs s)"
  using arg_cong [where f = length, OF run_conservation [of xs s]] by simp

end

locale bounded_fifo_store = fifo_store contents step removed put
  for contents :: "'s \<Rightarrow> 'a list" and step :: "'op \<Rightarrow> 's \<Rightarrow> 's"
    and removed :: "'op \<Rightarrow> 's \<Rightarrow> 'a list" and put :: "'op \<Rightarrow> 's \<Rightarrow> 'a list" +
  fixes bound :: "'s \<Rightarrow> nat"
  assumes bound_step: "bound (step x s) = bound s"
    and bounded: "length (contents s) \<le> bound s \<Longrightarrow> length (contents (step x s)) \<le> bound (step x s)"
begin

lemma run_bound [simp]: "bound (fold step xs s) = bound s"
  by (induction xs arbitrary: s) (simp_all add: bound_step)

lemma run_bounded:
  "length (contents s) \<le> bound s \<Longrightarrow> length (contents (fold step xs s)) \<le> bound s"
  by (induction xs arbitrary: s) (use bounded bound_step in \<open>fastforce+\<close>)

lemma run_backlog:
  "length (contents s) \<le> bound s \<Longrightarrow>
   length (contents s) + length (trace step put xs s) \<le> length (trace step removed xs s) + bound s"
  using run_bounded [of s xs] length_conservation [of xs s] by simp

end

interpretation chan: fifo_store ch_buf chan_step removed_items put_items
proof unfold_locales
  fix x :: "'a chan_op" and c :: "'a chan"
  show "removed_items x c @ ch_buf (chan_step x c) = ch_buf c @ put_items x c"
    by (cases x; cases "ch_buf c") (auto simp: removed_items_def chan_defs)
qed

interpretation bchan: bounded_fifo_store ch_buf chan_step removed_items put_items ch_capacity
proof unfold_locales
  fix x :: "'a chan_op" and c :: "'a chan"
  show cap: "ch_capacity (chan_step x c) = ch_capacity c"
    by (cases x) (auto simp: chan_defs split: list.split)
  show "length (ch_buf (chan_step x c)) \<le> ch_capacity (chan_step x c)"
    if "length (ch_buf c) \<le> ch_capacity c"
    unfolding cap using that by (cases x) (auto simp: chan_defs split: list.split)
qed

text \<open>What a holder may rely on: the capacity is the one of the constructor, and closed is for ever.\<close>

lemma chan_observers:
  "capacity (fold chan_step xs (new_chan n)) = n"
  "is_closed c \<Longrightarrow> is_closed (fold chan_step xs c)"
proof -
  show "capacity (fold chan_step xs (new_chan n)) = n"
    using bchan.run_bound [of xs "new_chan n"] by (simp add: capacity_def new_chan_def)
  have "ch_closed (chan_step x c)" if "ch_closed c" for x and c :: "'a chan"
    using that by (cases x) (auto simp: chan_defs split: list.split)
  then show "is_closed c \<Longrightarrow> is_closed (fold chan_step xs c)"
    unfolding is_closed_def by (induction xs arbitrary: c) simp_all
qed

lemma chan_step_closed: "ch_closed c \<Longrightarrow> ch_closed (chan_step x c) \<and> put_items x c = []"
  by (cases x) (auto simp: chan_defs split: list.split)

text \<open>Receiving again and again, until a call would wait.\<close>

fun recv_n :: "nat \<Rightarrow> 'a chan \<Rightarrow> 'a option list \<times> 'a chan" where
  "recv_n 0 c = ([], c)"
| "recv_n (Suc n) c =
    (case chan_recv c of
       Ret (x, c') \<Rightarrow> (let (xs, c'') = recv_n n c' in (x # xs, c''))
     | _ \<Rightarrow> ([], c))"

lemma recv_n_closed:
  "ch_closed c \<Longrightarrow> recv_n (length (ch_buf c) + k) c =
    (map Some (ch_buf c) @ replicate k None, c\<lparr>ch_buf := []\<rparr>)"
proof (induction "ch_buf c" arbitrary: c)
  case Nil
  have "recv_n k c = (replicate k None, c)"
    using Nil by (induction k) (simp_all add: chan_recv_def recv_ready_def)
  with Nil show ?case by (simp flip: Nil(1))
next
  case (Cons v rest)
  have "chan_recv c = Ret (Some v, c\<lparr>ch_buf := rest\<rparr>)"
    by (simp add: chan_recv_def recv_ready_def flip: Cons(2))
  moreover have "recv_n (length rest + k) (c\<lparr>ch_buf := rest\<rparr>) =
      (map Some rest @ replicate k None, c\<lparr>ch_buf := []\<rparr>)"
    using Cons(1) [of "c\<lparr>ch_buf := rest\<rparr>"] Cons.prems by simp
  ultimately show ?case by (simp flip: Cons(2))
qed

subsection \<open>Properties\<close>

text \<open>A channel is a bounded FIFO under every mix of its six operations. Whatever calls run on a new
  channel, in whatever order, the items received or evicted so far followed by those still
  buffered are exactly the items whose send was accepted, in the order of acceptance: nothing is
  lost, duplicated or reordered, and the buffer never exceeds the capacity.\<close>

theorem chan_fifo:
  "(let c = fold chan_step ops (new_chan cap) in
      trace chan_step removed_items ops (new_chan cap) @ ch_buf c =
        trace chan_step put_items ops (new_chan cap) \<and>
      length (ch_buf c) \<le> cap)"
  using chan.run_conservation [of ops "new_chan cap"] bchan.run_bounded [of "new_chan cap" ops]
  by (simp add: new_chan_def)

text \<open>Closing. On a closed channel no call is ever accepted again, the channel stays closed
  whatever is called on it, and receiving hands out the items still buffered, in order, and then
  \<open>nullopt\<close> for ever, without once waiting.\<close>

theorem chan_close_drains:
  "ch_closed (fold chan_step ops (chan_close c)) \<and>
   trace chan_step put_items ops (chan_close c) = [] \<and>
   recv_n (length (ch_buf c) + k) (chan_close c) =
     (map Some (ch_buf c) @ replicate k None, (chan_close c)\<lparr>ch_buf := []\<rparr>)"
proof (intro conjI)
  have closed: "ch_closed (chan_close c)" by (simp add: chan_close_def)
  show "ch_closed (fold chan_step ops (chan_close c))"
    using closed by (rule fold_invariant) (simp add: chan_step_closed)
  show "trace chan_step put_items ops (chan_close c) = []"
    using closed by (rule trace_silent) (simp add: chan_step_closed)
  show "recv_n (length (ch_buf c) + k) (chan_close c) =
      (map Some (ch_buf c) @ replicate k None, (chan_close c)\<lparr>ch_buf := []\<rparr>)"
    using recv_n_closed [OF closed, of k] by (simp add: chan_close_def)
qed

end
