(* ===== verification/ChanSync.thy ===== *)
theory ChanSync
  imports Channel "HOL-Library.Multiset"
begin

text \<open>
  The condition variables of \<open>Chan<T>\<close>: threads that call \<open>send\<close> and \<open>recv\<close>, sleep on
  \<open>cv_not_full_\<close> and \<open>cv_not_empty_\<close>, are notified, and test their predicate again when they have
  the mutex back. Every step is one critical section of the code, or a spurious wake-up.
\<close>

subsection \<open>State\<close>

text \<open>
  Receivers carry no data and are counted; senders carry the value they want to send. A notified
  thread has left the wait set of its condition variable and waits for the mutex. The last two
  fields record the calls that have returned.
\<close>

record 'a sync =
  sy_chan :: "'a chan"
  rx_asleep :: nat
  rx_notified :: nat
  tx_asleep :: "'a multiset"
  tx_notified :: "'a multiset"

definition sync_init :: "nat \<Rightarrow> 'a sync" where
  "sync_init cap = \<lparr>sy_chan = new_chan cap, rx_asleep = 0, rx_notified = 0, tx_asleep = {#}, tx_notified = {#}\<rparr>"

text \<open>\<open>cv_not_empty_.notify_one()\<close> and the \<open>notify_all()\<close> of both variables in \<open>close\<close>.\<close>

definition notify_rx :: "'a sync \<Rightarrow> 'a sync" where
  "notify_rx s =
    (if rx_asleep s = 0 then s
     else s\<lparr>rx_asleep := rx_asleep s - 1, rx_notified := rx_notified s + 1\<rparr>)"

definition notify_everyone :: "'a sync \<Rightarrow> 'a sync" where
  "notify_everyone s =
    s\<lparr>rx_asleep := 0, rx_notified := rx_notified s + rx_asleep s,
      tx_asleep := {#}, tx_notified := tx_notified s + tx_asleep s\<rparr>"

text \<open>\<open>cv_not_full_.notify_one()\<close> wakes any one of the sleeping senders, so it is a relation.\<close>

inductive notify_tx :: "'a sync \<Rightarrow> 'a sync \<Rightarrow> bool" where
  nobody: "tx_asleep s = {#} \<Longrightarrow> notify_tx s s"
| somebody: "v \<in># tx_asleep s \<Longrightarrow>
    notify_tx s (s\<lparr>tx_asleep := tx_asleep s - {#v#}, tx_notified := tx_notified s + {#v#}\<rparr>)"

subsection \<open>Steps\<close>

text \<open>
  What a critical section shows to the caller: a call returns, with this value, or nothing returns
  (the thread goes to sleep, or is woken spuriously).
\<close>

datatype 'a call_end =
    Silent
  | SendEnds 'a bool
  | TrySendEnds 'a send_result
  | DropOldestEnds 'a send_result
  | RecvEnds "'a option"
  | TryRecvEnds "'a option"
  | CloseEnds

text \<open>
  \<open>recv_body\<close> is what a receiver does once it holds the mutex, on its first test of the predicate or
  after a wake-up: sleep, return the head and notify a sender, or return \<open>nullopt\<close>.
  \<open>send_body\<close> is the same for a sender.
\<close>

inductive recv_body :: "'a call_end \<Rightarrow> 'a sync \<Rightarrow> 'a sync \<Rightarrow> bool" where
  recv_sleep: "chan_recv (sy_chan s) = Blocks \<Longrightarrow> recv_body Silent s (s\<lparr>rx_asleep := rx_asleep s + 1\<rparr>)"
| recv_item: "chan_recv (sy_chan s) = Ret (Some v, c) \<Longrightarrow> notify_tx (s\<lparr>sy_chan := c\<rparr>) s' \<Longrightarrow>
    recv_body (RecvEnds (Some v)) s s'"
| recv_end: "chan_recv (sy_chan s) = Ret (None, c) \<Longrightarrow> recv_body (RecvEnds None) s (s\<lparr>sy_chan := c\<rparr>)"

inductive send_body :: "'a \<Rightarrow> 'a call_end \<Rightarrow> 'a sync \<Rightarrow> 'a sync \<Rightarrow> bool" for v where
  send_sleep: "chan_send v (sy_chan s) = Blocks \<Longrightarrow>
    send_body v Silent s (s\<lparr>tx_asleep := tx_asleep s + {#v#}\<rparr>)"
| send_done: "chan_send v (sy_chan s) = Ret (True, c) \<Longrightarrow> send_body v (SendEnds v True) s (notify_rx (s\<lparr>sy_chan := c\<rparr>))"
| send_refused: "chan_send v (sy_chan s) = Ret (False, c) \<Longrightarrow> send_body v (SendEnds v False) s (s\<lparr>sy_chan := c\<rparr>)"

text \<open>A notified thread has the mutex again, and tests its predicate once more.\<close>

inductive sync_resume :: "'a call_end \<Rightarrow> 'a sync \<Rightarrow> 'a sync \<Rightarrow> bool" where
  resume_recv: "0 < rx_notified s \<Longrightarrow> recv_body e (s\<lparr>rx_notified := rx_notified s - 1\<rparr>) s' \<Longrightarrow>
    sync_resume e s s'"
| resume_send: "v \<in># tx_notified s \<Longrightarrow>
    send_body v e (s\<lparr>tx_notified := tx_notified s - {#v#}\<rparr>) s' \<Longrightarrow> sync_resume e s s'"

text \<open>
  The critical sections of all operations: a call, or the second half of one that has slept. A
  spurious wake-up may move any sleeper at any time.
\<close>

inductive sync_step :: "'a call_end \<Rightarrow> 'a sync \<Rightarrow> 'a sync \<Rightarrow> bool" where
  call_recv: "recv_body e s s' \<Longrightarrow> sync_step e s s'"
| call_send: "send_body v e s s' \<Longrightarrow> sync_step e s s'"
| call_try_recv_empty: "try_recv (sy_chan s) = (None, c) \<Longrightarrow>
    sync_step (TryRecvEnds None) s (s\<lparr>sy_chan := c\<rparr>)"
| call_try_recv_item: "try_recv (sy_chan s) = (Some v, c) \<Longrightarrow> notify_tx (s\<lparr>sy_chan := c\<rparr>) s' \<Longrightarrow>
    sync_step (TryRecvEnds (Some v)) s s'"
| call_try_send_ok: "try_send v (sy_chan s) = (Ok, c) \<Longrightarrow>
    sync_step (TrySendEnds v Ok) s (notify_rx (s\<lparr>sy_chan := c\<rparr>))"
| call_try_send_no: "try_send v (sy_chan s) = (r, c) \<Longrightarrow> r \<noteq> Ok \<Longrightarrow>
    sync_step (TrySendEnds v r) s (s\<lparr>sy_chan := c\<rparr>)"
| call_drop_oldest: "send_drop_oldest v (sy_chan s) = Ret (r, c) \<Longrightarrow> r \<noteq> Closed \<Longrightarrow>
    sync_step (DropOldestEnds v r) s (notify_rx (s\<lparr>sy_chan := c\<rparr>))"
| call_drop_oldest_closed: "send_drop_oldest v (sy_chan s) = Ret (Closed, c) \<Longrightarrow>
    sync_step (DropOldestEnds v Closed) s (s\<lparr>sy_chan := c\<rparr>)"
| call_close: "sync_step CloseEnds s (notify_everyone (s\<lparr>sy_chan := chan_close (sy_chan s)\<rparr>))"
| resume: "sync_resume e s s' \<Longrightarrow> sync_step e s s'"
| spurious_rx: "0 < rx_asleep s \<Longrightarrow>
    sync_step Silent s (s\<lparr>rx_asleep := rx_asleep s - 1, rx_notified := rx_notified s + 1\<rparr>)"
| spurious_tx: "v \<in># tx_asleep s \<Longrightarrow>
    sync_step Silent s (s\<lparr>tx_asleep := tx_asleep s - {#v#}, tx_notified := tx_notified s + {#v#}\<rparr>)"

text \<open>States, and what has returned on the way to them.\<close>

inductive sync_run :: "nat \<Rightarrow> 'a call_end list \<Rightarrow> 'a sync \<Rightarrow> bool" for cap where
  run_start: "sync_run cap [] (sync_init cap)"
| run_step: "sync_run cap es s \<Longrightarrow> sync_step e s s' \<Longrightarrow> sync_run cap (es @ [e]) s'"

inductive sync_reachable :: "nat \<Rightarrow> 'a sync \<Rightarrow> bool" for cap where
  start: "sync_reachable cap (sync_init cap)"
| step: "sync_reachable cap s \<Longrightarrow> sync_step e s s' \<Longrightarrow> sync_reachable cap s'"

text \<open>One pending call goes on.\<close>

abbreviation sync_wakes :: "'a sync \<Rightarrow> 'a sync \<Rightarrow> bool" where
  "sync_wakes s s' \<equiv> \<exists>e. sync_resume e s s'"

inductive_cases recv_bodyE: "recv_body e s s'"
inductive_cases send_bodyE: "send_body v e s s'"
inductive_cases notify_txE: "notify_tx s s'"

subsection \<open>No lost wake-up\<close>

text \<open>
  While receivers sleep the channel is open, and for every buffered item a receiver has been
  notified; while senders sleep it is open, and for every free slot a sender has been notified.
\<close>

definition rx_covered :: "'a sync \<Rightarrow> bool" where
  "rx_covered s \<longleftrightarrow> rx_asleep s = 0 \<or> (\<not> ch_closed (sy_chan s) \<and> chan_size (sy_chan s) \<le> rx_notified s)"

definition tx_covered :: "'a sync \<Rightarrow> bool" where
  "tx_covered s \<longleftrightarrow> tx_asleep s = {#} \<or>
    (\<not> ch_closed (sy_chan s) \<and> ch_capacity (sy_chan s) \<le> chan_size (sy_chan s) + size (tx_notified s))"

definition sync_inv :: "nat \<Rightarrow> 'a sync \<Rightarrow> bool" where
  "sync_inv cap s \<longleftrightarrow> chan_ok (sy_chan s) \<and> ch_capacity (sy_chan s) = cap \<and> rx_covered s \<and> tx_covered s"

lemmas sync_inv_defs = sync_inv_def rx_covered_def tx_covered_def chan_ok_def

lemma notify_rx_simps [simp]:
  "sy_chan (notify_rx s) = sy_chan s" "tx_asleep (notify_rx s) = tx_asleep s"
  "tx_notified (notify_rx s) = tx_notified s"
  by (simp_all add: notify_rx_def)

lemma notify_rx_covered:
  "rx_covered s \<Longrightarrow> chan_size c \<le> chan_size (sy_chan s) + 1 \<Longrightarrow> ch_closed c = ch_closed (sy_chan s) \<Longrightarrow>
   rx_covered (notify_rx (s\<lparr>sy_chan := c\<rparr>))"
  by (auto simp: rx_covered_def notify_rx_def)

lemma notify_tx_inv:
  assumes "notify_tx s s'" "chan_ok (sy_chan s)" "rx_covered s"
    and "tx_asleep s = {#} \<or> (\<not> ch_closed (sy_chan s) \<and>
      ch_capacity (sy_chan s) \<le> chan_size (sy_chan s) + size (tx_notified s) + 1)"
  shows "sync_inv (ch_capacity (sy_chan s)) s'"
  using assms by (cases rule: notify_tx.cases) (auto simp: sync_inv_defs)

text \<open>
  What holds when a resumed thread has left the set of notified ones and begins its critical
  section: one notified thread may be missing.
\<close>

definition rx_resuming :: "nat \<Rightarrow> 'a sync \<Rightarrow> bool" where
  "rx_resuming cap s \<longleftrightarrow> chan_ok (sy_chan s) \<and> ch_capacity (sy_chan s) = cap \<and> tx_covered s \<and>
    (rx_asleep s = 0 \<or> (\<not> ch_closed (sy_chan s) \<and> chan_size (sy_chan s) \<le> rx_notified s + 1))"

definition tx_resuming :: "nat \<Rightarrow> 'a sync \<Rightarrow> bool" where
  "tx_resuming cap s \<longleftrightarrow> chan_ok (sy_chan s) \<and> ch_capacity (sy_chan s) = cap \<and> rx_covered s \<and>
    (tx_asleep s = {#} \<or> (\<not> ch_closed (sy_chan s) \<and>
       ch_capacity (sy_chan s) \<le> chan_size (sy_chan s) + size (tx_notified s) + 1))"

lemma sync_inv_resuming: "sync_inv cap s \<Longrightarrow> rx_resuming cap s \<and> tx_resuming cap s"
  by (auto simp: rx_resuming_def tx_resuming_def sync_inv_defs)

lemma chan_recv_item:
  assumes "chan_recv c = Ret (Some v, c')"
  shows "chan_size c = chan_size c' + 1" "ch_closed c' = ch_closed c" "ch_capacity c' = ch_capacity c"
    "chan_ok c \<Longrightarrow> chan_ok c'"
  using assms by (auto simp: chan_defs chan_ok_def split: if_splits list.splits)

lemma chan_send_item:
  assumes "chan_send v c = Ret (True, c')"
  shows "chan_size c' = chan_size c + 1" "ch_closed c' = ch_closed c" "ch_capacity c' = ch_capacity c"
    "chan_ok c \<Longrightarrow> chan_ok c'"
  using assms by (auto simp: chan_defs chan_ok_def split: if_splits)

lemma pop_inv:
  assumes "notify_tx (s\<lparr>sy_chan := c\<rparr>) s'" and "rx_resuming cap s"
    and "chan_recv (sy_chan s) = Ret (Some v, c)"
  shows "sync_inv cap s'"
proof -
  have "sync_inv (ch_capacity (sy_chan (s\<lparr>sy_chan := c\<rparr>))) s'"
    using assms(1)
    by (rule notify_tx_inv)
      (use assms(2) chan_recv_item [OF assms(3)] in \<open>auto simp: rx_resuming_def rx_covered_def tx_covered_def\<close>)
  then show ?thesis
    using assms(2) chan_recv_item [OF assms(3)] by (simp add: rx_resuming_def)
qed

lemma push_inv:
  assumes "tx_resuming cap s" and "chan_send v (sy_chan s) = Ret (True, c)"
  shows "sync_inv cap (notify_rx (s\<lparr>sy_chan := c\<rparr>))"
proof -
  have "rx_covered (notify_rx (s\<lparr>sy_chan := c\<rparr>))"
    using assms(1) chan_send_item [OF assms(2)] by (intro notify_rx_covered) (auto simp: tx_resuming_def)
  then show ?thesis
    using assms(1) chan_send_item [OF assms(2)] by (auto simp: sync_inv_def tx_resuming_def tx_covered_def)
qed

lemma recv_body_inv: "recv_body e s s' \<Longrightarrow> rx_resuming cap s \<Longrightarrow> sync_inv cap s'"
proof (induction rule: recv_body.induct)
  case (recv_sleep s)
  then show ?case by (auto simp: rx_resuming_def sync_inv_defs chan_defs split: if_splits list.splits)
next
  case (recv_item s v c s')
  then show ?case by (blast intro: pop_inv)
next
  case (recv_end s c)
  then show ?case by (auto simp: rx_resuming_def sync_inv_defs chan_defs split: if_splits list.splits)
qed

lemma send_body_inv: "send_body v e s s' \<Longrightarrow> tx_resuming cap s \<Longrightarrow> sync_inv cap s'"
proof (induction rule: send_body.induct)
  case (send_sleep s)
  then show ?case by (auto simp: tx_resuming_def sync_inv_defs chan_defs split: if_splits)
next
  case (send_done s c)
  then show ?case by (blast intro: push_inv)
next
  case (send_refused s c)
  then show ?case by (auto simp: tx_resuming_def sync_inv_defs chan_defs split: if_splits)
qed

lemma drop_oldest_inv:
  assumes "sync_inv cap s" "send_drop_oldest v (sy_chan s) = Ret (r, c)" "r \<noteq> Closed"
  shows "sync_inv cap (notify_rx (s\<lparr>sy_chan := c\<rparr>))"
proof -
  have c: "ch_closed c = ch_closed (sy_chan s)" "ch_capacity c = ch_capacity (sy_chan s)"
      "chan_size (sy_chan s) \<le> chan_size c" "chan_size c \<le> chan_size (sy_chan s) + 1" "chan_ok c"
    using assms chan_ok_send_drop_oldest [of "sy_chan s" v r c]
    by (auto simp: chan_defs sync_inv_def split: if_splits list.splits)
  have "rx_covered (notify_rx (s\<lparr>sy_chan := c\<rparr>))"
    using assms(1) c by (intro notify_rx_covered) (auto simp: sync_inv_def)
  then show ?thesis using assms(1) c by (auto simp: sync_inv_def tx_covered_def)
qed

lemma try_recv_as_recv: "try_recv c = (Some v, c') \<Longrightarrow> chan_recv c = Ret (Some v, c')"
  by (auto simp: chan_defs split: list.splits)

lemma try_send_as_send: "try_send v c = (Ok, c') \<Longrightarrow> chan_send v c = Ret (True, c')"
  by (auto simp: chan_defs split: if_splits)

lemma sync_resume_inv: "sync_resume e s s' \<Longrightarrow> sync_inv cap s \<Longrightarrow> sync_inv cap s'"
proof (induction rule: sync_resume.induct)
  case (resume_recv s e s')
  then have "rx_resuming cap (s\<lparr>rx_notified := rx_notified s - 1\<rparr>)"
    by (auto simp: rx_resuming_def sync_inv_defs)
  with resume_recv show ?case by (blast intro: recv_body_inv)
next
  case (resume_send v s e s')
  then have "tx_resuming cap (s\<lparr>tx_notified := tx_notified s - {#v#}\<rparr>)"
    by (auto simp: tx_resuming_def sync_inv_defs size_Diff_singleton)
  with resume_send show ?case by (blast intro: send_body_inv)
qed

lemma sync_step_inv: "sync_step e s s' \<Longrightarrow> sync_inv cap s \<Longrightarrow> sync_inv cap s'"
proof (induction rule: sync_step.induct)
  case (call_recv e s s')
  then show ?case by (blast intro: recv_body_inv dest: sync_inv_resuming)
next
  case (call_send v e s s')
  then show ?case by (blast intro: send_body_inv dest: sync_inv_resuming)
next
  case (call_try_recv_empty s c)
  then show ?case by (auto simp: try_recv_def split: list.splits)
next
  case (call_try_recv_item s v c s')
  then show ?case by (blast intro: pop_inv dest: sync_inv_resuming try_recv_as_recv)
next
  case (call_try_send_ok v s c)
  then show ?case by (blast intro: push_inv dest: sync_inv_resuming try_send_as_send)
next
  case (call_try_send_no v s r c)
  then show ?case by (auto simp: try_send_def split: if_splits)
next
  case (call_drop_oldest v s r c)
  then show ?case by (blast intro: drop_oldest_inv)
next
  case (call_drop_oldest_closed v s c)
  then show ?case by (auto simp: send_drop_oldest_def split: if_splits list.splits)
next
  case (call_close s)
  then show ?case by (auto simp: notify_everyone_def sync_inv_defs chan_close_def)
next
  case (resume e s s')
  then show ?case by (rule sync_resume_inv)
next
  case (spurious_rx s)
  then show ?case by (auto simp: sync_inv_defs)
next
  case (spurious_tx v s)
  then show ?case by (auto simp: sync_inv_defs)
qed

lemma sync_reachable_inv: "sync_reachable cap s \<Longrightarrow> 0 < cap \<Longrightarrow> sync_inv cap s"
proof (induction rule: sync_reachable.induct)
  case start
  then show ?case by (simp add: sync_init_def sync_inv_defs new_chan_def)
next
  case (step s e s')
  then show ?case by (blast intro: sync_step_inv)
qed

subsection \<open>After a close\<close>

text \<open>The calls that have not returned yet.\<close>

definition pending :: "'a sync \<Rightarrow> nat" where
  "pending s = rx_asleep s + rx_notified s + size (tx_asleep s) + size (tx_notified s)"

lemma sync_inv_closed: "sync_inv cap s \<Longrightarrow> ch_closed (sy_chan s) \<Longrightarrow> rx_asleep s = 0 \<and> tx_asleep s = {#}"
  by (auto simp: sync_inv_defs)

lemma closed_never_blocks:
  assumes "ch_closed c"
  shows "chan_recv c \<noteq> Blocks" "chan_send v c = Ret (False, c)"
    "chan_recv c = Ret (x, c') \<Longrightarrow> ch_closed c'"
  using assms by (auto simp: chan_defs split: list.splits)

lemma recv_body_closed:
  "recv_body e s s' \<Longrightarrow> ch_closed (sy_chan s) \<Longrightarrow> tx_asleep s = {#} \<Longrightarrow>
    ch_closed (sy_chan s') \<and> pending s' = pending s"
proof (induction rule: recv_body.induct)
  case (recv_sleep s)
  then show ?case using closed_never_blocks(1) [of "sy_chan s"] by simp
next
  case (recv_item s v c s')
  then have "ch_closed c" using closed_never_blocks(3) by blast
  then show ?case
    using recv_item(2,4) by (auto simp: pending_def elim: notify_tx.cases)
next
  case (recv_end s c)
  then have "ch_closed c" using closed_never_blocks(3) by blast
  then show ?case by (simp add: pending_def)
qed

lemma notify_tx_total: "\<exists>s'. notify_tx s s'"
proof (cases "tx_asleep s = {#}")
  case True
  then show ?thesis by (blast intro: notify_tx.nobody)
next
  case False
  then obtain v where "v \<in># tx_asleep s" by (rule multiset_nonemptyE)
  then show ?thesis by (blast intro: notify_tx.somebody)
qed

lemma recv_body_enabled: "\<exists>e s'. recv_body e s s'"
proof (cases "chan_recv (sy_chan s)")
  case (Ret r)
  obtain x c where r: "r = (x, c)" by (cases r)
  obtain s' where "notify_tx (s\<lparr>sy_chan := c\<rparr>) s'" using notify_tx_total by blast
  then show ?thesis
    using Ret unfolding r by (cases x) (blast intro: recv_end recv_item)+
next
  case Blocks
  then show ?thesis by (blast intro: recv_sleep)
next
  case UB
  then show ?thesis by (simp add: chan_recv_def split: if_splits list.splits)
qed

lemma send_body_closed:
  "send_body v e s s' \<Longrightarrow> ch_closed (sy_chan s) \<Longrightarrow> ch_closed (sy_chan s') \<and> pending s' = pending s"
  by (induction rule: send_body.induct) (auto simp: closed_never_blocks pending_def)

lemma sync_resume_closed:
  assumes "sync_resume e s s'" "sync_inv cap s" "ch_closed (sy_chan s)"
  shows "ch_closed (sy_chan s') \<and> pending s' + 1 = pending s"
  using assms
proof (induction rule: sync_resume.induct)
  case (resume_recv s e s')
  then show ?case
    using recv_body_closed [OF resume_recv(2)] sync_inv_closed [of cap s] by (auto simp: pending_def)
next
  case (resume_send v s e s')
  have "size (tx_notified s) = size (tx_notified s - {#v#}) + 1"
    using resume_send(1) by (metis Suc_eq_plus1 size_Suc_Diff1)
  then show ?case
    using send_body_closed [OF resume_send(2)] resume_send.prems by (auto simp: pending_def)
qed

lemma send_body_enabled: "\<exists>e s'. send_body v e s s'"
proof (cases "chan_send v (sy_chan s)")
  case (Ret r)
  obtain b c where "r = (b, c)" by (cases r)
  with Ret show ?thesis by (cases b) (auto dest: send_done send_refused)
next
  case Blocks
  then show ?thesis by (blast intro: send_sleep)
next
  case UB
  then show ?thesis by (simp add: chan_send_def split: if_splits)
qed

lemma sync_resume_enabled: "rx_notified s \<noteq> 0 \<or> tx_notified s \<noteq> {#} \<Longrightarrow> \<exists>s'. sync_wakes s s'"
proof (elim disjE)
  assume "rx_notified s \<noteq> 0"
  then show ?thesis
    using recv_body_enabled [of "s\<lparr>rx_notified := rx_notified s - 1\<rparr>"] by (blast intro: resume_recv)
next
  assume "tx_notified s \<noteq> {#}"
  then obtain v where "v \<in># tx_notified s" by (rule multiset_nonemptyE)
  then show ?thesis
    using send_body_enabled [of v "s\<lparr>tx_notified := tx_notified s - {#v#}\<rparr>"]
    by (blast intro: resume_send)
qed

lemma closed_resume_enabled:
  "sync_inv cap s \<Longrightarrow> ch_closed (sy_chan s) \<Longrightarrow> 0 < pending s \<Longrightarrow> \<exists>s'. sync_wakes s s'"
  using sync_inv_closed [of cap s] by (intro sync_resume_enabled) (auto simp: pending_def)

lemma resumes_closed:
  "(sync_wakes ^^ n) s s' \<Longrightarrow> sync_inv cap s \<Longrightarrow> ch_closed (sy_chan s) \<Longrightarrow>
    sync_inv cap s' \<and> ch_closed (sy_chan s') \<and> pending s' + n = pending s"
proof (induction n arbitrary: s)
  case (Suc n)
  obtain t where "sync_wakes s t" and rest: "(sync_wakes ^^ n) t s'"
    using Suc.prems(1) by (rule relpowp_Suc_E2)
  then obtain e where t: "sync_resume e s t" by blast
  show ?case
    using Suc.IH [OF rest] sync_resume_inv [OF t] sync_resume_closed [OF t] Suc.prems(2,3)
    by fastforce
qed simp

subsection \<open>Properties\<close>

text \<open>C24: no lost wake-up. In every reachable state, whatever calls, wake-ups and spurious wake-ups came
  before: if a receiver sleeps, the channel is open and every buffered item has a receiver of its
  own that is already notified; if a sender sleeps, the channel is open and every free slot has a
  notified sender. So when no notified thread is pending, a sleeping receiver means an empty
  open channel, a sleeping sender a full open one, and never do both kinds sleep.\<close>

theorem no_lost_wakeup:
  assumes "sync_reachable cap s" and "0 < cap"
  shows "(rx_asleep s = 0 \<or> (\<not> ch_closed (sy_chan s) \<and> chan_size (sy_chan s) \<le> rx_notified s))
    \<and> (tx_asleep s = {#} \<or> (\<not> ch_closed (sy_chan s) \<and> cap - chan_size (sy_chan s) \<le> size (tx_notified s)))
    \<and> chan_size (sy_chan s) \<le> cap
    \<and> (rx_notified s = 0 \<and> tx_notified s = {#} \<longrightarrow> rx_asleep s = 0 \<or> tx_asleep s = {#})"
proof -
  have "sync_inv cap s" using assms by (rule sync_reachable_inv)
  then show ?thesis by (auto simp: sync_inv_defs chan_size_def)
qed

theorem no_lost_wakeup_witness:
  "\<exists>s :: nat sync. sync_reachable 1 s \<and> rx_asleep s = 1 \<and> ch_buf (sy_chan s) = [] \<and>
     \<not> ch_closed (sy_chan s) \<and> chan_size (sy_chan s) \<le> rx_notified s"
proof -
  let ?s = "(sync_init 1 :: nat sync)\<lparr>rx_asleep := rx_asleep (sync_init 1 :: nat sync) + 1\<rparr>"
  have "recv_body Silent (sync_init 1 :: nat sync) ?s"
    by (rule recv_sleep) (simp add: sync_init_def new_chan_def chan_defs)
  then have r: "sync_reachable 1 ?s"
    by (blast intro: sync_reachable.intros call_recv)
  have "rx_asleep ?s = 1" "ch_buf (sy_chan ?s) = []" by (simp_all add: sync_init_def new_chan_def)
  then show ?thesis
    using r no_lost_wakeup [OF r, THEN conjunct1] by (intro exI [of _ ?s]) simp
qed

text \<open>C34: \<open>close\<close> releases every thread. From any reachable state in which the channel is closed, the
  waiting calls return one by one: each wake-up makes one of them return, as long as calls are
  pending some thread can go on, and after exactly as many steps as there were pending calls
  none is left.\<close>

theorem close_releases_all:
  assumes "sync_reachable cap s" and "0 < cap" and "ch_closed (sy_chan s)" and "(sync_wakes ^^ n) s s'"
  shows "rx_asleep s = 0 \<and> tx_asleep s = {#} \<and> pending s' + n = pending s
    \<and> (pending s' = 0 \<or> (\<exists>s''. sync_wakes s' s'' \<and> pending s'' < pending s'))"
proof -
  have inv: "sync_inv cap s" using assms(1,2) by (rule sync_reachable_inv)
  have s': "sync_inv cap s'" "ch_closed (sy_chan s')" "pending s' + n = pending s"
    using resumes_closed [OF assms(4) inv assms(3)] by auto
  have "\<exists>s''. sync_wakes s' s'' \<and> pending s'' < pending s'" if "pending s' \<noteq> 0"
    using closed_resume_enabled [OF s'(1,2)] sync_resume_closed [OF _ s'(1,2)] that
    by (metis less_add_one not_gr_zero)
  then show ?thesis using sync_inv_closed [OF inv assms(3)] s'(3) by blast
qed

theorem close_releases_all_witness:
  "\<exists>s :: nat sync. sync_reachable 1 s \<and> ch_closed (sy_chan s) \<and> pending s = 1 \<and>
     (\<exists>s'. sync_wakes s s' \<and> pending s' < pending s)"
proof -
  let ?i = "sync_init 1 :: nat sync"
  let ?w = "?i\<lparr>rx_asleep := rx_asleep ?i + 1\<rparr>"
  let ?s = "notify_everyone (?w\<lparr>sy_chan := chan_close (sy_chan ?w)\<rparr>)"
  have "recv_body Silent ?i ?w"
    by (rule recv_sleep) (simp add: sync_init_def new_chan_def chan_defs)
  then have "sync_reachable 1 ?w" by (blast intro: sync_reachable.intros call_recv)
  then have r: "sync_reachable 1 ?s" by (blast intro: sync_reachable.intros call_close)
  have c: "ch_closed (sy_chan ?s)" "pending ?s = 1"
    by (simp_all add: notify_everyone_def chan_close_def pending_def sync_init_def)
  have "(sync_wakes ^^ 0) ?s ?s" by simp
  from close_releases_all [OF r _ c(1) this] c show ?thesis using r by fastforce
qed

end
