(* ===== verification/ChanRefine.thy ===== *)
theory ChanRefine
  imports ChanSync "HOL-Library.Sublist"
begin

text \<open>
  The threads of theory \<open>ChanSync\<close> against the atomic channel of theory \<open>Channel\<close>: every critical
  section is either invisible or one whole atomic operation with the same answer, so a channel used
  by threads that sleep, are notified and wake up spuriously is still a bounded FIFO.
\<close>

subsection \<open>What the atomic channel answers\<close>

text \<open>The operation behind a return, and the return of an operation on the atomic channel.\<close>

fun call_ops :: "'a call_end \<Rightarrow> 'a chan_op list" where
  "call_ops Silent = []"
| "call_ops (SendEnds v b) = [Send v]"
| "call_ops (TrySendEnds v r) = [TrySend v]"
| "call_ops (DropOldestEnds v r) = [SendDropOldest v]"
| "call_ops (RecvEnds x) = [Recv]"
| "call_ops (TryRecvEnds x) = [TryRecv]"
| "call_ops CloseEnds = [CloseChan]"

fun answer :: "'a chan_op \<Rightarrow> 'a chan \<Rightarrow> 'a call_end" where
  "answer (Send v) c = (case chan_send v c of Ret (b, _) \<Rightarrow> SendEnds v b | _ \<Rightarrow> Silent)"
| "answer (TrySend v) c = TrySendEnds v (fst (try_send v c))"
| "answer (SendDropOldest v) c =
    (case send_drop_oldest v c of Ret (r, _) \<Rightarrow> DropOldestEnds v r | _ \<Rightarrow> Silent)"
| "answer Recv c = (case chan_recv c of Ret (x, _) \<Rightarrow> RecvEnds x | _ \<Rightarrow> Silent)"
| "answer TryRecv c = TryRecvEnds (fst (try_recv c))"
| "answer CloseChan c = CloseEnds"

text \<open>What the callers know of the items: accepted from them, handed to them, evicted.\<close>

fun items_in :: "'a call_end \<Rightarrow> 'a list" where
  "items_in (SendEnds v b) = (if b then [v] else [])"
| "items_in (TrySendEnds v r) = (if r = Ok then [v] else [])"
| "items_in (DropOldestEnds v r) = (if r = Ok \<or> r = Evicted then [v] else [])"
| "items_in _ = []"

fun items_out :: "'a call_end \<Rightarrow> 'a list" where
  "items_out (RecvEnds (Some v)) = [v]"
| "items_out (TryRecvEnds (Some v)) = [v]"
| "items_out _ = []"

fun evictions :: "'a call_end \<Rightarrow> nat" where
  "evictions (DropOldestEnds v Evicted) = 1"
| "evictions _ = 0"

subsection \<open>The simulation\<close>

text \<open>
  One critical section from channel \<open>c\<close> to channel \<open>c'\<close>, as the atomic channel sees it: either
  nothing happens, or one operation runs and answers the same.
\<close>

inductive atomic_step :: "'a call_end \<Rightarrow> 'a chan \<Rightarrow> 'a chan \<Rightarrow> bool" where
  unseen: "atomic_step Silent c c"
| one_call: "call_ops e = [x] \<Longrightarrow> answer x c = e \<Longrightarrow> chan_step x c = c' \<Longrightarrow> atomic_step e c c'"

inductive_simps atomic_step_simps [simp]:
  "atomic_step Silent c c'"
  "atomic_step (SendEnds v b) c c'"
  "atomic_step (TrySendEnds v r) c c'"
  "atomic_step (DropOldestEnds v r) c c'"
  "atomic_step (RecvEnds x) c c'"
  "atomic_step (TryRecvEnds x) c c'"
  "atomic_step CloseEnds c c'"

lemma notify_tx_chan: "notify_tx s s' \<Longrightarrow> sy_chan s' = sy_chan s"
  by (induction rule: notify_tx.induct) simp_all

lemma recv_body_atomic: "recv_body e s s' \<Longrightarrow> atomic_step e (sy_chan s) (sy_chan s')"
  by (induction rule: recv_body.induct) (auto dest!: notify_tx_chan)

lemma send_body_atomic: "send_body v e s s' \<Longrightarrow> atomic_step e (sy_chan s) (sy_chan s')"
  by (induction rule: send_body.induct) auto

lemma sync_resume_atomic: "sync_resume e s s' \<Longrightarrow> atomic_step e (sy_chan s) (sy_chan s')"
  by (induction rule: sync_resume.induct) (auto dest!: recv_body_atomic send_body_atomic)

lemma sync_step_atomic: "sync_step e s s' \<Longrightarrow> atomic_step e (sy_chan s) (sy_chan s')"
proof (induction rule: sync_step.induct)
  case (call_close s)
  then show ?case by (simp add: notify_everyone_def)
qed (auto dest!: recv_body_atomic send_body_atomic sync_resume_atomic notify_tx_chan)

subsection \<open>Runs of threads and runs of the channel\<close>

lemma answer_items:
  "answer x c \<noteq> Silent \<Longrightarrow>
   items_in (answer x c) = put_items x c \<and> items_out (answer x c) = received_items x c
    \<and> evictions (answer x c) = length (evicted_items x c)"
  by (cases x; cases "ch_buf c") (auto simp: chan_defs)

lemma call_ops_Silent: "call_ops e = [x] \<Longrightarrow> e \<noteq> Silent"
  by auto

text \<open>The calls that returned, in the order in which they did, as operations of the atomic channel.\<close>

abbreviation linearised :: "'a call_end list \<Rightarrow> 'a chan_op list" where
  "linearised es \<equiv> concat (map call_ops es)"

abbreviation returns :: "'a call_end list \<Rightarrow> 'a call_end list" where
  "returns es \<equiv> filter (\<lambda>e. e \<noteq> Silent) es"

lemma sync_run_linearised:
  "sync_run cap es s \<Longrightarrow>
    fold chan_step (linearised es) (new_chan cap) = sy_chan s
    \<and> trace chan_step (\<lambda>x c. [answer x c]) (linearised es) (new_chan cap) = returns es
    \<and> trace chan_step put_items (linearised es) (new_chan cap) = concat (map items_in es)
    \<and> trace chan_step received_items (linearised es) (new_chan cap) = concat (map items_out es)
    \<and> length (trace chan_step evicted_items (linearised es) (new_chan cap)) = sum_list (map evictions es)"
proof (induction rule: sync_run.induct)
  case run_start
  then show ?case by (simp add: sync_init_def)
next
  case (run_step es s e s')
  have "atomic_step e (sy_chan s) (sy_chan s')" using run_step.hyps(2) by (rule sync_step_atomic)
  then show ?case
  proof (cases rule: atomic_step.cases)
    case unseen
    with run_step.IH show ?thesis by simp
  next
    case (one_call x)
    then have "e \<noteq> Silent" by (blast dest: call_ops_Silent)
    with one_call answer_items [of x "sy_chan s"] run_step.IH show ?thesis
      by (simp add: trace_append)
  qed
qed

lemma sync_run_reachable: "sync_run cap es s \<Longrightarrow> sync_reachable cap s"
  by (induction rule: sync_run.induct) (blast intro: sync_reachable.intros)+

lemma reachable_sync_run: "sync_reachable cap s \<Longrightarrow> \<exists>es. sync_run cap es s"
  by (induction rule: sync_reachable.induct) (blast intro: sync_run.intros)+

lemma subseq_received:
  "subseq (trace chan_step received_items xs c) (trace chan_step removed_items xs c)"
  by (induction xs arbitrary: c) (auto simp: removed_items_def intro!: list_emb_append_mono)

lemma length_removed:
  "length (trace chan_step removed_items xs c) =
    length (trace chan_step received_items xs c) + length (trace chan_step evicted_items xs c)"
  by (induction xs arbitrary: c) (simp_all add: removed_items_def)

text \<open>What the callers see of the items, whatever the threads do.\<close>

lemma sync_run_items:
  assumes "sync_run cap es s"
  shows "subseq (concat (map items_out es) @ ch_buf (sy_chan s)) (concat (map items_in es))"
    and "length (concat (map items_in es)) =
      length (concat (map items_out es)) + length (ch_buf (sy_chan s)) + sum_list (map evictions es)"
proof -
  let ?ops = "linearised es" and ?c = "new_chan cap"
  note run = sync_run_linearised [OF assms]
  have all: "trace chan_step removed_items ?ops ?c @ ch_buf (sy_chan s) = concat (map items_in es)"
    using chan.run_conservation [of ?ops ?c] run by (simp add: new_chan_def)
  show "subseq (concat (map items_out es) @ ch_buf (sy_chan s)) (concat (map items_in es))"
    using subseq_received [of ?ops ?c] run unfolding all [symmetric] by simp
  show "length (concat (map items_in es)) =
      length (concat (map items_out es)) + length (ch_buf (sy_chan s)) + sum_list (map evictions es)"
    using length_removed [of ?ops ?c] run unfolding all [symmetric] by simp
qed

text \<open>A thread sleeps, with no wake-up on its way, only where the atomic operation waits too.\<close>

lemma sync_inv_blocks:
  assumes "sync_inv cap s" "rx_notified s = 0" "tx_notified s = {#}"
  shows "rx_asleep s \<noteq> 0 \<Longrightarrow> chan_recv (sy_chan s) = Blocks"
    and "v \<in># tx_asleep s \<Longrightarrow> chan_send v (sy_chan s) = Blocks"
  using assms by (auto simp: sync_inv_defs chan_defs)

subsection \<open>Property\<close>

text \<open>C23: the channel with its condition variables implements the atomic channel. Let any threads call
  its operations, sleep, be notified and wake up spuriously. The calls that returned, taken in the
  order of their critical sections as operations on an atomic channel, give the same answers and
  leave the same contents. So the items handed out, then those buffered, form a subsequence of the
  items accepted, in that order, and the number missing is the number of evictions reported. And it
  waits no more than the atomic channel: either some woken thread can go on, or
  every sleeping call is one that the atomic channel would make wait.\<close>

theorem threads_refine_channel:
  assumes "sync_run cap es s" and "0 < cap"
  shows "fold chan_step (linearised es) (new_chan cap) = sy_chan s
    \<and> trace chan_step (\<lambda>x c. [answer x c]) (linearised es) (new_chan cap) = returns es
    \<and> subseq (concat (map items_out es) @ ch_buf (sy_chan s)) (concat (map items_in es))
    \<and> length (concat (map items_in es)) =
        length (concat (map items_out es)) + length (ch_buf (sy_chan s)) + sum_list (map evictions es)
    \<and> length (ch_buf (sy_chan s)) \<le> cap
    \<and> ((\<exists>s'. sync_wakes s s') \<or>
        ((rx_asleep s = 0 \<or> chan_recv (sy_chan s) = Blocks) \<and>
         (\<forall>v. v \<in># tx_asleep s \<longrightarrow> chan_send v (sy_chan s) = Blocks)))"
proof -
  have inv: "sync_inv cap s"
    using assms by (blast intro: sync_reachable_inv sync_run_reachable)
  then have "length (ch_buf (sy_chan s)) \<le> cap" by (auto simp: sync_inv_defs)
  then show ?thesis
    using sync_run_linearised [OF assms(1)] sync_run_items [OF assms(1)]
      sync_resume_enabled [of s] sync_inv_blocks [OF inv]
    by blast
qed

text \<open>A receiver waits on an empty channel, is notified by a send, and returns the item.\<close>

lemma waiting_receiver_run:
  "\<exists>s. sync_run 1 [Silent, SendEnds (7 :: nat) True, RecvEnds (Some 7)] s"
proof -
  define waits where "waits = (sync_init 1 :: nat sync)\<lparr>rx_asleep := 1\<rparr>"
  define sent where "sent = waits\<lparr>sy_chan := chan_push 7 (new_chan 1), rx_asleep := 0, rx_notified := 1\<rparr>"
  define got where "got = sent\<lparr>sy_chan := new_chan 1, rx_notified := 0\<rparr>"
  note defs = got_def sent_def waits_def sync_init_def new_chan_def chan_defs
  have "recv_body Silent (sync_init 1) waits"
    using recv_sleep [of "sync_init 1 :: nat sync"] by (simp add: defs)
  moreover have "send_body 7 (SendEnds 7 True) waits sent"
    using send_done [of 7 waits "chan_push 7 (new_chan 1)"] by (simp add: defs notify_rx_def)
  moreover have "recv_body (RecvEnds (Some 7)) (sent\<lparr>rx_notified := rx_notified sent - 1\<rparr>) got"
    by (rule recv_item [where c = "new_chan 1"]) (simp_all add: defs notify_tx.simps)
  then have "sync_resume (RecvEnds (Some 7)) sent got"
    by (rule resume_recv [rotated]) (simp add: defs)
  ultimately have "sync_run 1 ((([] @ [Silent]) @ [SendEnds 7 True]) @ [RecvEnds (Some 7)]) got"
    by (blast intro: sync_run.intros call_recv call_send resume)
  then show ?thesis by auto
qed

theorem threads_refine_channel_witness:
  "\<exists>s. sync_run 1 [Silent, SendEnds (7 :: nat) True, RecvEnds (Some 7)] s \<and>
    fold chan_step [Send 7, Recv] (new_chan 1) = sy_chan s \<and> subseq ([7] @ ch_buf (sy_chan s)) [7]"
proof -
  obtain s where s: "sync_run 1 [Silent, SendEnds (7 :: nat) True, RecvEnds (Some 7)] s"
    using waiting_receiver_run by blast
  show ?thesis
    using threads_refine_channel [OF s] s by (intro exI [of _ s]) simp
qed

end
