(* ===== verification/Relay.thy ===== *)
theory Relay
  imports CppString
begin

text \<open>
  The RELAY types of \<open>include/lin/relay.hpp\<close> and \<open>src/relay.cpp\<close>: the protocol
  enumeration with its printer and parser, versions, messages, the error codes with their two
  categories, the subscriber options and the health and metrics structures.
\<close>

subsection \<open>Protocol\<close>

text \<open>
  An \<open>enum class : int\<close> can hold integers that name no enumerator (a value-initialised
  \<open>Message\<close> has protocol 0); \<open>Protocol_value\<close> stands for those.
\<close>

datatype protocol = CAN | DDS | LIN | MQTT | RCP | SOMEIP | Protocol_value int

fun protocol_int :: "protocol \<Rightarrow> int" where
  "protocol_int CAN = 1"
| "protocol_int DDS = 2"
| "protocol_int LIN = 3"
| "protocol_int MQTT = 4"
| "protocol_int RCP = 5"
| "protocol_int SOMEIP = 6"
| "protocol_int (Protocol_value i) = i"

fun protocol_to_string :: "protocol \<Rightarrow> string" where
  "protocol_to_string CAN = ''CAN''"
| "protocol_to_string DDS = ''DDS''"
| "protocol_to_string LIN = ''LIN''"
| "protocol_to_string MQTT = ''MQTT''"
| "protocol_to_string RCP = ''RCP''"
| "protocol_to_string SOMEIP = ''SOMEIP''"
| "protocol_to_string (Protocol_value i) = ''unknown''"

definition blank :: "char \<Rightarrow> bool" where
  "blank c \<longleftrightarrow> c = CHR '' '' \<or> c = CHR 0x09"

text \<open>
  \<open>try_parse_protocol\<close>: \<open>None\<close> is the result \<open>false\<close>, with \<open>out\<close> left alone.
\<close>

definition try_parse_protocol :: "string \<Rightarrow> protocol option" where
  "try_parse_protocol s =
    (let upper = map to_upper s
     in case (find_if (\<lambda>c. \<not> blank c) upper, find_last_if (\<lambda>c. \<not> blank c) upper) of
          (Some l, Some r) \<Rightarrow>
            (let u = substr l (r - l + 1) upper
             in if u = ''CAN'' then Some CAN
                else if u = ''DDS'' then Some DDS
                else if u = ''LIN'' then Some LIN
                else if u = ''MQTT'' then Some MQTT
                else if u = ''RCP'' then Some RCP
                else if u = ''SOMEIP'' then Some SOMEIP
                else if u = ''SOME/IP'' then Some SOMEIP
                else None)
        | _ \<Rightarrow> None)"

text \<open>\<open>parse_protocol\<close> throws \<open>std::invalid_argument\<close> with this message.\<close>

definition parse_protocol :: "string \<Rightarrow> string + protocol" where
  "parse_protocol s =
    (case try_parse_protocol s of
       Some p \<Rightarrow> Inr p
     | None \<Rightarrow> Inl (''relay: unknown protocol: '' @ s))"

subsection \<open>Version and message\<close>

record version =
  v_major :: int
  v_minor :: int
  v_patch :: int

definition version_to_string :: "version \<Rightarrow> string" where
  "version_to_string v =
    decimal_int (v_major v) @ ''.'' @ decimal_int (v_minor v) @ ''.'' @ decimal_int (v_patch v)"

definition version_eq :: "version \<Rightarrow> version \<Rightarrow> bool" where
  "version_eq v w \<longleftrightarrow> v_major v = v_major w \<and> v_minor v = v_minor w \<and> v_patch v = v_patch w"

text \<open>
  \<open>meta\<close> is an \<open>unordered_map\<close>: an association list with one entry per key, in the
  unspecified order an iteration meets them.
\<close>

record message =
  m_protocol :: protocol
  m_version :: version
  m_id :: string
  m_payload :: bytes
  m_timestamp :: int
  m_seq :: u64
  m_meta :: "(string \<times> string) list"

definition empty_message :: message where
  "empty_message = \<lparr>m_protocol = Protocol_value 0, m_version = \<lparr>v_major = 0, v_minor = 0, v_patch = 0\<rparr>,
     m_id = '''', m_payload = [], m_timestamp = 0, m_seq = 0, m_meta = []\<rparr>"

text \<open>\<open>meta[k] = v\<close>.\<close>

fun meta_set :: "string \<Rightarrow> string \<Rightarrow> (string \<times> string) list \<Rightarrow> (string \<times> string) list" where
  "meta_set k v [] = [(k, v)]"
| "meta_set k v ((k', v') # m) = (if k' = k then (k, v) # m else (k', v') # meta_set k v m)"

lemma meta_set_lookup: "map_of (meta_set k v m) = (map_of m)(k \<mapsto> v)"
  by (induction k v m rule: meta_set.induct) (auto simp: fun_eq_iff)

lemma meta_set_keys: "fst ` set (meta_set k v m) = insert k (fst ` set m)"
  by (induction k v m rule: meta_set.induct) auto

lemma meta_set_distinct: "distinct (map fst m) \<Longrightarrow> distinct (map fst (meta_set k v m))"
  by (induction k v m rule: meta_set.induct) (auto simp: meta_set_keys)

subsection \<open>Error codes\<close>

text \<open>
  \<open>std::error_code\<close> is a number and a category; two codes are equal when both agree, and a
  code converts to \<open>true\<close> when its number is not 0. The default code is 0 in the system category.
\<close>

datatype category = SystemCategory | RelayCategory | LinCategory

record error_code =
  ec_value :: int
  ec_category :: category

definition ok_code :: error_code where
  "ok_code = \<lparr>ec_value = 0, ec_category = SystemCategory\<rparr>"

definition is_error :: "error_code \<Rightarrow> bool" where
  "is_error e \<longleftrightarrow> ec_value e \<noteq> 0"

datatype relay_errc = closed | not_connected | timeout | payload_too_large

fun relay_errc_int :: "relay_errc \<Rightarrow> int" where
  "relay_errc_int closed = 1"
| "relay_errc_int not_connected = 2"
| "relay_errc_int timeout = 3"
| "relay_errc_int payload_too_large = 4"

definition relay_make_error_code :: "relay_errc \<Rightarrow> error_code" where
  "relay_make_error_code e = \<lparr>ec_value = relay_errc_int e, ec_category = RelayCategory\<rparr>"

definition ErrClosed :: error_code where "ErrClosed = relay_make_error_code closed"
definition ErrNotConnected :: error_code where "ErrNotConnected = relay_make_error_code not_connected"
definition ErrTimeout :: error_code where "ErrTimeout = relay_make_error_code timeout"
definition ErrPayloadTooLarge :: error_code where
  "ErrPayloadTooLarge = relay_make_error_code payload_too_large"

definition relay_message :: "int \<Rightarrow> string" where
  "relay_message ev =
    (if ev = 1 then ''relay: closed''
     else if ev = 2 then ''relay: not connected''
     else if ev = 3 then ''relay: timeout''
     else if ev = 4 then ''relay: payload too large''
     else ''relay: unknown error'')"

definition kSpecVersion :: string where "kSpecVersion = ''2.0''"

definition relay_category_name :: string where "relay_category_name = ''relay''"

lemma relay_message_named: "take 7 (relay_message ev) = relay_category_name @ '': ''"
  by (simp add: relay_message_def relay_category_name_def)

text \<open>
  \<open>std::error_condition\<close>, and \<open>default_error_condition()\<close> of the two categories of the code,
  which inherit it: the same number in the same category.
\<close>

record error_condition =
  cond_value :: int
  cond_category :: category

definition default_error_condition :: "error_code \<Rightarrow> error_condition" where
  "default_error_condition e = \<lparr>cond_value = ec_value e, cond_category = ec_category e\<rparr>"

lemmas error_defs = ok_code_def is_error_def relay_make_error_code_def
  ErrClosed_def ErrNotConnected_def ErrTimeout_def ErrPayloadTooLarge_def

lemma relay_errors [simp]:
  "is_error ErrClosed" "is_error ErrTimeout" "is_error ErrNotConnected" "is_error ErrPayloadTooLarge"
  "\<not> is_error ok_code"
  by (simp_all add: error_defs)

lemma ok_not_relay [simp]:
  "ErrClosed \<noteq> ok_code" "ErrTimeout \<noteq> ok_code" "ErrPayloadTooLarge \<noteq> ok_code" "ErrNotConnected \<noteq> ok_code"
  by (simp_all add: error_defs)

subsection \<open>Subscriber options\<close>

datatype back_pressure_policy = DropNewest | DropOldest | Block

record subscriber_config =
  chan_depth :: int
  back_pressure :: back_pressure_policy
  event_id :: u32
  topic_name :: string

definition default_config :: subscriber_config where
  "default_config = \<lparr>chan_depth = 0, back_pressure = DropNewest, event_id = 0, topic_name = ''''\<rparr>"

definition effective_depth :: "subscriber_config \<Rightarrow> int \<Rightarrow> int" where
  "effective_depth c default_depth = (if chan_depth c > 0 then chan_depth c else default_depth)"

type_synonym subscriber_option = "subscriber_config \<Rightarrow> subscriber_config"

definition with_channel_depth :: "int \<Rightarrow> subscriber_option" where
  "with_channel_depth n = (\<lambda>c. c\<lparr>chan_depth := n\<rparr>)"

definition with_back_pressure :: "back_pressure_policy \<Rightarrow> subscriber_option" where
  "with_back_pressure p = (\<lambda>c. c\<lparr>back_pressure := p\<rparr>)"

definition with_event_id :: "u32 \<Rightarrow> subscriber_option" where
  "with_event_id i = (\<lambda>c. c\<lparr>event_id := i\<rparr>)"

definition with_topic :: "string \<Rightarrow> subscriber_option" where
  "with_topic n = (\<lambda>c. c\<lparr>topic_name := n\<rparr>)"

definition apply_options :: "subscriber_option list \<Rightarrow> subscriber_config" where
  "apply_options opts = foldl (\<lambda>c opt. opt c) default_config opts"

lemma effective_depth_pos: "0 < d \<Longrightarrow> 0 < effective_depth c d"
  by (simp add: effective_depth_def)

subsection \<open>Health and metrics\<close>

datatype health_status = Health_OK | Degraded | Down

record health =
  h_status :: health_status
  h_details :: string

record metrics =
  write_count :: u64
  deliver_count :: u64
  drop_count :: u64
  bytes_written :: u64
  bytes_delivered :: u64
  error_count :: u64

subsection \<open>What the protocol parser accepts\<close>

lemma try_parse_protocol_strip:
  "try_parse_protocol s =
    (let u = strip blank (map to_upper s)
     in if u = ''CAN'' then Some CAN
        else if u = ''DDS'' then Some DDS
        else if u = ''LIN'' then Some LIN
        else if u = ''MQTT'' then Some MQTT
        else if u = ''RCP'' then Some RCP
        else if u = ''SOMEIP'' \<or> u = ''SOME/IP'' then Some SOMEIP
        else None)"
proof (cases "find_if (\<lambda>c. \<not> blank c) (map to_upper s)")
  case None
  then have "strip blank (map to_upper s) = []"
    by (simp add: strip_Nil_iff find_if_None)
  then show ?thesis by (simp add: try_parse_protocol_def None)
next
  case (Some l)
  then obtain r where "find_last_if (\<lambda>c. \<not> blank c) (map to_upper s) = Some r"
    using find_last_if_Some_iff by blast
  with Some show ?thesis
    by (simp add: try_parse_protocol_def substr_strip Let_def)
qed

lemma blank_char_nat: "blank c \<longleftrightarrow> char_nat c = 32 \<or> char_nat c = 9"
proof -
  have "char_nat CHR '' '' = 32" "char_nat CHR 0x09 = 9" by (simp_all add: char_nat_def)
  then show ?thesis unfolding blank_def by (metis char_nat_inj)
qed

lemma to_upper_blank [simp]: "blank (to_upper c) = blank c"
  by (auto simp: blank_char_nat to_upper_def)

lemma to_upper_idem [simp]: "to_upper (to_upper c) = to_upper c"
  by (auto simp: to_upper_def)

definition protocol_names :: "protocol \<Rightarrow> string set" where
  "protocol_names p = (if p = SOMEIP then {''SOMEIP'', ''SOME/IP''} else {protocol_to_string p})"

lemma try_parse_protocol_names:
  "try_parse_protocol s = Some p \<longleftrightarrow> p \<notin> range Protocol_value \<and> strip blank (map to_upper s) \<in> protocol_names p"
  unfolding try_parse_protocol_strip Let_def
  by (cases p) (auto simp: protocol_names_def)

lemma protocol_name_ends:
  "u \<in> protocol_names p \<Longrightarrow> p \<notin> range Protocol_value \<Longrightarrow> u \<noteq> [] \<and> \<not> blank (hd u) \<and> \<not> blank (last u)"
  by (cases p) (auto simp: protocol_names_def blank_def split: if_splits)

text \<open>What the protocol parser accepts, exactly: the name a protocol prints as (for SOME/IP also with the
  slash), in any mixture of upper and lower case, between any number of spaces and tabs, and
  nothing else; so every protocol's printed name parses back to it.\<close>

theorem protocol_parser_exact:
  "try_parse_protocol s = Some p \<longleftrightarrow> p \<notin> range Protocol_value \<and>
    (\<exists>pre core post. s = pre @ core @ post \<and> list_all blank pre \<and> list_all blank post \<and>
       map to_upper core \<in> protocol_names p)"
proof
  assume h: "try_parse_protocol s = Some p"
  define u where "u = strip blank (map to_upper s)"
  obtain pre post where d: "map to_upper s = pre @ u @ post" "\<forall>x\<in>set pre. blank x" "\<forall>x\<in>set post. blank x"
    using strip_decomp [of "map to_upper s" blank] unfolding u_def by blast
  obtain a b c where s: "s = a @ b @ c" "map to_upper a = pre" "map to_upper b = u" "map to_upper c = post"
    using d(1) by (auto simp: map_eq_append_conv append_eq_map_conv)
  have "list_all blank a" "list_all blank c"
    using d(2,3) s(2,4) by (auto simp: list_all_iff)
  then show "p \<notin> range Protocol_value \<and>
    (\<exists>pre core post. s = pre @ core @ post \<and> list_all blank pre \<and> list_all blank post \<and>
       map to_upper core \<in> protocol_names p)"
  proof (intro conjI exI)
    show "p \<notin> range Protocol_value" "map to_upper b \<in> protocol_names p"
      using h unfolding try_parse_protocol_names s(3) u_def by blast+
    show "s = a @ b @ c" by (fact s(1))
  qed
next
  assume h: "p \<notin> range Protocol_value \<and>
    (\<exists>pre core post. s = pre @ core @ post \<and> list_all blank pre \<and> list_all blank post \<and>
       map to_upper core \<in> protocol_names p)"
  then obtain pre core post where s: "s = pre @ core @ post" "list_all blank pre" "list_all blank post"
    and n: "map to_upper core \<in> protocol_names p"
    by blast
  have "strip blank (map to_upper s) = map to_upper core"
    unfolding s(1) map_append
    using protocol_name_ends [OF n] h s(2,3) by (intro strip_around) (auto simp: list_all_iff)
  then show "try_parse_protocol s = Some p" using h n by (simp add: try_parse_protocol_names)
qed

end
