(* ===== verification/Lin.thy ===== *)
theory Lin
  imports Relay
begin

text \<open>
  The LIN core of \<open>include/lin/lin.hpp\<close> and \<open>src/lin.cpp\<close>: constants, frames, filters,
  the protected identifier, the checksum, frame validation, the LIN error codes and the bridge
  between frames and RELAY messages.
\<close>

subsection \<open>Constants and data\<close>

definition kLINMaxDataLen :: nat where "kLINMaxDataLen = 8"
definition kLINMaxID :: u8 where "kLINMaxID = 0x3F"
definition kLINDiagRequestID :: u8 where "kLINDiagRequestID = 0x3C"
definition kLINDiagResponseID :: u8 where "kLINDiagResponseID = 0x3D"

lemmas lin_consts = kLINMaxDataLen_def kLINMaxID_def kLINDiagRequestID_def kLINDiagResponseID_def

datatype checksum_type = Classic | Enhanced

record frame =
  f_id :: u8
  f_data :: bytes
  f_checksum :: u8
  f_checksum_type :: checksum_type

definition default_frame :: frame where
  "default_frame = \<lparr>f_id = 0, f_data = [], f_checksum = 0, f_checksum_type = Classic\<rparr>"

record filter_rule =
  fl_id :: u8
  fl_all :: bool

definition filter_matches :: "filter_rule \<Rightarrow> frame \<Rightarrow> bool" where
  "filter_matches fl f = (if fl_all fl then True else f_id f = fl_id fl)"

record schedule_entry =
  se_id :: u8
  se_delay_ms :: u32

subsection \<open>Exceptions and error codes\<close>

text \<open>\<open>ErrInvalidFrame\<close> carries its reason; \<open>what()\<close> prefixes it.\<close>

datatype lin_exn = ErrInvalidFrame string | ErrNoResponse

fun lin_what :: "lin_exn \<Rightarrow> string" where
  "lin_what (ErrInvalidFrame reason) = ''lin: invalid frame: '' @ reason"
| "lin_what ErrNoResponse = ''lin: no slave response''"

datatype lin_errc = invalid_frame | no_response

fun lin_errc_int :: "lin_errc \<Rightarrow> int" where
  "lin_errc_int invalid_frame = 1"
| "lin_errc_int no_response = 2"

definition lin_make_error_code :: "lin_errc \<Rightarrow> error_code" where
  "lin_make_error_code e = \<lparr>ec_value = lin_errc_int e, ec_category = LinCategory\<rparr>"

definition lin_message :: "int \<Rightarrow> string" where
  "lin_message ev =
    (if ev = 1 then ''lin: invalid frame''
     else if ev = 2 then ''lin: no slave response''
     else ''lin: unknown error'')"

definition lin_category_name :: string where "lin_category_name = ''lin''"

lemma lin_message_named: "take 5 (lin_message ev) = lin_category_name @ '': ''"
  by (simp add: lin_message_def lin_category_name_def)

text \<open>The sentinels of namespace \<open>lin\<close>: closed, not connected, timeout, payload too large.\<close>

definition lin_sentinels :: "error_code list" where
  "lin_sentinels = [ErrClosed, ErrNotConnected, ErrTimeout, ErrPayloadTooLarge]"

lemma lin_sentinels_relay:
  "lin_sentinels = map relay_make_error_code [closed, not_connected, timeout, payload_too_large]"
  by (simp add: lin_sentinels_def error_defs)

text \<open>
  \<open>LinErrorCategory::equivalent\<close>: a \<open>no_response\<close> code equals relay's timeout condition, and
  any other code of the category only its own default condition.
\<close>

definition lin_equivalent :: "int \<Rightarrow> error_condition \<Rightarrow> bool" where
  "lin_equivalent code cond =
    (if code = lin_errc_int no_response
     then cond = default_error_condition ErrTimeout
     else cond = \<lparr>cond_value = code, cond_category = LinCategory\<rparr>)"

text \<open>
  \<open>operator==(error_code, error_condition)\<close> for a LIN code: either category may call them
  equivalent; the condition's category (which inherits the test) asks for the same number and category.
\<close>

definition lin_code_matches :: "error_code \<Rightarrow> error_condition \<Rightarrow> bool" where
  "lin_code_matches e cond =
    (lin_equivalent (ec_value e) cond \<or>
     (ec_category e = cond_category cond \<and> ec_value e = cond_value cond))"

lemma lin_errors [simp]:
  "is_error (lin_make_error_code e)" "lin_make_error_code e \<noteq> ok_code"
  "lin_make_error_code e \<noteq> relay_make_error_code r"
  by (cases e; simp add: lin_make_error_code_def error_defs)+

lemma error_distinct [simp]:
  "ok_code \<noteq> lin_make_error_code e" "ok_code \<noteq> ErrClosed" "ok_code \<noteq> ErrTimeout"
  "ErrClosed \<noteq> lin_make_error_code e" "lin_make_error_code e \<noteq> ErrClosed"
  "ErrTimeout \<noteq> lin_make_error_code e" "lin_make_error_code e \<noteq> ErrTimeout"
  "ErrClosed \<noteq> ErrTimeout" "ErrTimeout \<noteq> ErrClosed"
  by (cases e; simp add: lin_make_error_code_def error_defs)+

lemma lin_make_error_code_inj: "lin_make_error_code a = lin_make_error_code b \<longleftrightarrow> a = b"
  by (cases a; cases b) (simp_all add: lin_make_error_code_def)

subsection \<open>Protected identifier\<close>

text \<open>
  The C++ computes the parities on promoted \<open>int\<close>s and keeps bit 0 of each, which no promotion
  changes; the result is cast to eight bits.
\<close>

definition protect_id :: "u8 \<Rightarrow> u8" where
  "protect_id id0 =
    (let i = id0 AND kLINMaxID;
         p0 = (drop_bit 0 i XOR drop_bit 1 i XOR drop_bit 2 i XOR drop_bit 4 i) AND 0x01;
         p1 = (NOT (drop_bit 1 i XOR drop_bit 3 i XOR drop_bit 4 i XOR drop_bit 5 i)) AND 0x01
     in i OR push_bit 6 p0 OR push_bit 7 p1)"

definition verify_pid :: "u8 \<Rightarrow> lin_exn + u8" where
  "verify_pid pid =
    (let i = pid AND kLINMaxID
     in if protect_id i \<noteq> pid
        then Inl (ErrInvalidFrame (''PID 0x'' @ hex2 pid @ '' parity mismatch''))
        else Inr i)"

lemma protect_id_bits:
  "bit (protect_id i) 0 = bit i 0" "bit (protect_id i) (Suc 0) = bit i (Suc 0)" "bit (protect_id i) 2 = bit i 2"
  "bit (protect_id i) 3 = bit i 3" "bit (protect_id i) 4 = bit i 4" "bit (protect_id i) 5 = bit i 5"
  "bit (protect_id i) 6 = (bit i 0 \<noteq> (bit i (Suc 0) \<noteq> (bit i 2 \<noteq> bit i 4)))"
  "bit (protect_id i) 7 = (\<not> (bit i (Suc 0) \<noteq> (bit i 3 \<noteq> (bit i 4 \<noteq> bit i 5))))"
  by (auto simp: protect_id_def Let_def bit_simps kLINMaxID_def)

lemma protect_id_low: "protect_id i AND 0x3F = i AND 0x3F"
  by (rule u8_eqI) (simp_all add: bit_simps protect_id_bits)

lemma protect_id_mask: "protect_id (i AND 0x3F) = protect_id i"
  by (simp add: protect_id_def kLINMaxID_def Let_def ac_simps)

lemma protect_id_parity:
  "bit (protect_id i) 6 = odd (length (filter (bit i) [0, 1, 2, 4]))"
  "bit (protect_id i) 7 = even (length (filter (bit i) [1, 3, 4, 5]))"
  by (simp_all add: protect_id_bits)

text \<open>A byte is its own protected form when its two upper bits are the parity bits of its lower ones.\<close>

lemma protected_iff:
  "protect_id pid = pid \<longleftrightarrow>
    bit pid 6 = odd (length (filter (bit pid) [0, 1, 2, 4])) \<and>
    bit pid 7 = even (length (filter (bit pid) [1, 3, 4, 5]))"
proof
  assume "protect_id pid = pid"
  then show "bit pid 6 = odd (length (filter (bit pid) [0, 1, 2, 4])) \<and>
      bit pid 7 = even (length (filter (bit pid) [1, 3, 4, 5]))"
    using protect_id_parity [of pid] by simp
next
  assume "bit pid 6 = odd (length (filter (bit pid) [0, 1, 2, 4])) \<and>
      bit pid 7 = even (length (filter (bit pid) [1, 3, 4, 5]))"
  then show "protect_id pid = pid"
    by (intro u8_eqI) (simp_all only: protect_id_parity, simp_all add: protect_id_bits)
qed

lemma verify_pid_by_bits:
  "verify_pid pid =
    (if bit pid 6 = odd (length (filter (bit pid) [0, 1, 2, 4])) \<and>
        bit pid 7 = even (length (filter (bit pid) [1, 3, 4, 5]))
     then Inr (pid AND 0x3F)
     else Inl (ErrInvalidFrame (''PID 0x'' @ hex2 pid @ '' parity mismatch'')))"
  unfolding protected_iff [symmetric]
  by (simp add: verify_pid_def Let_def kLINMaxID_def protect_id_mask)

lemma verify_pid_iff: "verify_pid pid = Inr i \<longleftrightarrow> i \<le> 0x3F \<and> pid = protect_id i"
proof
  assume "verify_pid pid = Inr i"
  then have "protect_id (pid AND 0x3F) = pid" "i = pid AND 0x3F"
    by (auto simp: verify_pid_def Let_def kLINMaxID_def split: if_splits)
  then show "i \<le> 0x3F \<and> pid = protect_id i" by (simp add: u8_and_63_le)
next
  assume "i \<le> 0x3F \<and> pid = protect_id i"
  then show "verify_pid pid = Inr i"
    by (simp add: verify_pid_def kLINMaxID_def Let_def protect_id_low u8_and_63_id)
qed

lemma verify_pid_Inl: "\<not> isl (verify_pid pid) \<longleftrightarrow> protect_id pid = pid"
  by (simp add: verify_pid_def Let_def kLINMaxID_def protect_id_mask)

subsection \<open>Checksum\<close>

text \<open>One round of the summing loop, in \<open>uint16_t\<close>: add, and fold a carry back by subtracting 0xFF.\<close>

definition sum_step :: "u16 \<Rightarrow> u8 \<Rightarrow> u16" where
  "sum_step acc b = (let s = acc + ucast b in if s > 0xFF then s - 0xFF else s)"

definition calc_checksum :: "u8 \<Rightarrow> bytes \<Rightarrow> checksum_type \<Rightarrow> u8" where
  "calc_checksum pid data ct =
    (let start = (if ct = Enhanced then ucast pid else 0 :: u16);
         total = foldl sum_step start data
     in 0xFF - (ucast total :: u8))"

definition verify_checksum :: "u8 \<Rightarrow> bytes \<Rightarrow> u8 \<Rightarrow> checksum_type \<Rightarrow> bool" where
  "verify_checksum pid data received ct \<longleftrightarrow> calc_checksum pid data ct = received"

text \<open>
  The reference: the sum of the covered bytes in ones' complement arithmetic, where 255 stands for
  every non-zero multiple of 255 and 0 only for the sum of nothing but zeros.
\<close>

definition ones_sum :: "nat \<Rightarrow> nat" where
  "ones_sum n = (if n = 0 then 0 else (n - 1) mod 255 + 1)"

definition covered_sum :: "u8 \<Rightarrow> bytes \<Rightarrow> checksum_type \<Rightarrow> nat" where
  "covered_sum pid data ct = (if ct = Enhanced then unat pid else 0) + sum_list (map unat data)"

lemma ones_sum_le: "ones_sum n \<le> 255"
  using mod_less_divisor [of 255 "n - 1"] by (simp add: ones_sum_def Suc_le_eq)

lemma ones_sum_small: "n \<le> 255 \<Longrightarrow> ones_sum n = n"
  by (simp add: ones_sum_def)

lemma ones_sum_mod: "ones_sum k mod 255 = k mod 255"
proof (cases k)
  case (Suc j)
  then show ?thesis by (simp add: ones_sum_def mod_Suc_eq)
qed (simp add: ones_sum_def)

lemma ones_sum_0: "ones_sum k = 0 \<longleftrightarrow> k = 0"
  by (simp add: ones_sum_def)

lemma ones_sum_cong: "ones_sum m = ones_sum n \<longleftrightarrow> m mod 255 = n mod 255 \<and> (m = 0 \<longleftrightarrow> n = 0)"
proof -
  have z: "z mod 255 = (if z = 255 then 0 else z)" if "z \<le> 255" for z :: nat
    using that by (cases "z = 255") simp_all
  show ?thesis
    using ones_sum_mod [of m] ones_sum_mod [of n] ones_sum_0 [of m] ones_sum_0 [of n]
      z [OF ones_sum_le [of m]] z [OF ones_sum_le [of n]]
    by (auto split: if_splits)
qed

lemma ones_sum_step:
  assumes "b \<le> 255"
  shows "ones_sum (n + b) = (if 255 < ones_sum n + b then ones_sum n + b - 255 else ones_sum n + b)"
proof (cases "n = 0")
  case True
  then show ?thesis using assms by (simp add: ones_sum_def)
next
  case False
  define k where "k = (n - Suc 0) mod 255"
  have k: "k < 255" by (simp add: k_def)
  have "(n + b - 1) mod 255 = (k + b) mod 255"
    using False by (simp add: k_def mod_simps)
  also have "\<dots> = (if k + b < 255 then k + b else k + b - 255)"
    using k assms by (cases "k + b < 255"; cases "k + b - 255 < 255") (auto simp: mod_if)
  finally show ?thesis
    using False k by (auto simp add: ones_sum_def k_def [symmetric])
qed

lemma sum_step_nat:
  assumes "unat s \<le> 255"
  shows "unat (sum_step s b) =
    (if 255 < unat s + unat b then unat s + unat b - 255 else unat s + unat b)"
proof -
  have b: "unat (ucast b :: u16) = unat b" and l: "unat b < 256"
    using u8_unat_less [of b] by simp_all
  have sum: "unat (s + ucast b :: u16) = unat s + unat b"
    using assms l by (subst unat_add_lem [THEN iffD1]) (simp_all add: b)
  show ?thesis
  proof (cases "255 < unat s + unat b")
    case True
    then have g: "(0xFF :: u16) < s + ucast b"
      by (simp add: word_less_nat_alt sum)
    then have "unat (s + ucast b - 0xFF :: u16) = unat s + unat b - 255"
      by (subst unat_sub) (simp_all add: sum)
    with g True show ?thesis by (simp add: sum_step_def Let_def)
  next
    case False
    then have "\<not> (0xFF :: u16) < s + ucast b"
      by (simp add: word_less_nat_alt sum)
    with False show ?thesis by (simp add: sum_step_def Let_def sum)
  qed
qed

lemma sum_loop_nat:
  "unat s \<le> 255 \<Longrightarrow>
   unat (foldl sum_step s data) = ones_sum (unat s + sum_list (map unat data))"
proof (induction data rule: rev_induct)
  case Nil
  then show ?case by (simp add: ones_sum_small)
next
  case (snoc b data)
  then show ?case
    using ones_sum_step [of "unat b" "unat s + sum_list (map unat data)"] u8_unat_less [of b]
    by (simp add: sum_step_nat ones_sum_le add.assoc)
qed

lemma calc_checksum_nat:
  "unat (calc_checksum pid data ct) = 255 - ones_sum (covered_sum pid data ct)"
proof -
  define st where "st = (if ct = Enhanced then ucast pid else 0 :: u16)"
  have st: "unat st = (if ct = Enhanced then unat pid else 0)"
    by (simp add: st_def)
  then have "unat (foldl sum_step st data) = ones_sum (covered_sum pid data ct)"
    using u8_unat_less [of pid] by (subst sum_loop_nat) (simp_all add: covered_sum_def)
  moreover then have "unat (ucast (foldl sum_step st data) :: u8) = ones_sum (covered_sum pid data ct)"
    using ones_sum_le [of "covered_sum pid data ct"] by (simp add: unat_to_u8)
  ultimately show ?thesis
    by (simp add: calc_checksum_def Let_def st_def [symmetric] unat_sub word_le_nat_alt ones_sum_le)
qed

lemma verify_checksum_iff:
  "verify_checksum pid data cs ct \<longleftrightarrow> unat cs = 255 - ones_sum (covered_sum pid data ct)"
  using calc_checksum_nat by (metis verify_checksum_def unat_eqI)

lemma same_checksum_iff:
  "calc_checksum pid data ct = calc_checksum pid' data' ct' \<longleftrightarrow>
   covered_sum pid data ct mod 255 = covered_sum pid' data' ct' mod 255 \<and>
   (covered_sum pid data ct = 0 \<longleftrightarrow> covered_sum pid' data' ct' = 0)"
proof -
  have "calc_checksum pid data ct = calc_checksum pid' data' ct' \<longleftrightarrow>
      ones_sum (covered_sum pid data ct) = ones_sum (covered_sum pid' data' ct')"
    using ones_sum_le [of "covered_sum pid data ct"] ones_sum_le [of "covered_sum pid' data' ct'"]
    by (simp add: word_unat_eq_iff calc_checksum_nat) arith
  then show ?thesis by (simp add: ones_sum_cong)
qed

subsection \<open>Frame validation\<close>

definition is_diag :: "u8 \<Rightarrow> bool" where
  "is_diag i \<longleftrightarrow> i = kLINDiagRequestID \<or> i = kLINDiagResponseID"

definition validate_frame :: "frame \<Rightarrow> lin_exn + unit" where
  "validate_frame f =
    (if f_id f > kLINMaxID then
       Inl (ErrInvalidFrame (''frame ID 0x'' @ hex2 (f_id f) @ '' exceeds maximum 0x3F''))
     else if f_data f = [] then
       Inl (ErrInvalidFrame ''frame data must not be empty'')
     else if length (f_data f) > kLINMaxDataLen then
       Inl (ErrInvalidFrame (''frame data length '' @ decimal (length (f_data f)) @
              '' exceeds maximum '' @ decimal kLINMaxDataLen))
     else if (f_id f = kLINDiagRequestID \<or> f_id f = kLINDiagResponseID) \<and> f_checksum_type f \<noteq> Classic then
       Inl (ErrInvalidFrame (''diagnostic frame 0x'' @ hex2 (f_id f) @ '' must use classic checksum''))
     else Inr ())"

definition valid_frame :: "frame \<Rightarrow> bool" where
  "valid_frame f \<longleftrightarrow> f_id f \<le> kLINMaxID \<and> 1 \<le> length (f_data f) \<and> length (f_data f) \<le> kLINMaxDataLen \<and>
     (is_diag (f_id f) \<longrightarrow> f_checksum_type f = Classic)"

lemma validate_frame_ok: "validate_frame f = Inr () \<longleftrightarrow> valid_frame f"
  by (auto simp: validate_frame_def valid_frame_def is_diag_def not_less Suc_le_eq)

subsection \<open>Frames and RELAY messages\<close>

definition to_message :: "frame \<Rightarrow> message" where
  "to_message f =
    empty_message\<lparr>
      m_protocol := LIN,
      m_id := decimal_int (uint (f_id f)),
      m_payload := f_data f,
      m_meta := meta_set ''lin.checksum'' (decimal_int (uint (f_checksum f)))
        (meta_set ''lin.checksum_type''
          (if f_checksum_type f = Enhanced then ''enhanced'' else ''classic'') [])\<rparr>"

definition parse_lin_id :: "string \<Rightarrow> lin_exn + u8" where
  "parse_lin_id s =
    (case stoull 10 s of
       Inl _ \<Rightarrow> Inl (ErrInvalidFrame (''invalid LIN ID: '' @ s))
     | Inr v \<Rightarrow>
         if v > ucast kLINMaxID then Inl (ErrInvalidFrame (''invalid LIN ID: '' @ s))
         else Inr (ucast v))"

definition parse_checksum_type :: "(string \<times> string) list \<Rightarrow> lin_exn + checksum_type" where
  "parse_checksum_type meta =
    (case map_of meta ''lin.checksum_type'' of
       None \<Rightarrow> Inr Classic
     | Some t \<Rightarrow>
         if t = '''' \<or> t = ''classic'' then Inr Classic
         else if t = ''enhanced'' then Inr Enhanced
         else Inl (ErrInvalidFrame (''unknown lin.checksum_type: '' @ t)))"

definition parse_checksum :: "(string \<times> string) list \<Rightarrow> u8" where
  "parse_checksum meta =
    (case map_of meta ''lin.checksum'' of
       None \<Rightarrow> 0
     | Some t \<Rightarrow>
         if t = '''' then 0
         else (case stoull 10 t of Inl _ \<Rightarrow> 0 | Inr v \<Rightarrow> ucast v))"

definition from_message :: "message \<Rightarrow> lin_exn + frame" where
  "from_message m =
    (case parse_lin_id (m_id m) of
       Inl e \<Rightarrow> Inl e
     | Inr i \<Rightarrow>
         (case parse_checksum_type (m_meta m) of
            Inl e \<Rightarrow> Inl e
          | Inr ct \<Rightarrow>
              Inr \<lparr>f_id = i, f_data = m_payload m, f_checksum = parse_checksum (m_meta m),
                   f_checksum_type = ct\<rparr>))"

lemma decimal_int_u8: "decimal_int (uint (b :: u8)) = decimal (unat b)"
  by (simp add: decimal_int_def not_less)

lemma stoull_decimal_u8: "stoull 10 (decimal (unat (b :: u8))) = Inr (ucast b)"
  using u8_unat_less [of b] by (simp add: stoull_decimal)

lemma u8_of_u64 [simp]: "ucast (ucast (b :: u8) :: u64) = b"
  by (rule bit_word_eqI) (simp add: bit_simps)

lemma u64_le_63: "(ucast (b :: u8) :: u64) \<le> 0x3F \<longleftrightarrow> b \<le> 0x3F"
  using u8_unat_less [of b] by (simp add: word_le_nat_alt unsigned_ucast_eq take_bit_nat_def)

lemma parse_lin_id_decimal:
  "parse_lin_id (decimal (unat i)) =
    (if i \<le> 0x3F then Inr i else Inl (ErrInvalidFrame (''invalid LIN ID: '' @ decimal (unat i))))"
  using u64_le_63 [of i]
  by (simp add: parse_lin_id_def stoull_decimal_u8 kLINMaxID_def linorder_not_less [symmetric])

lemma parse_lin_id_le: "parse_lin_id s = Inr i \<Longrightarrow> i \<le> 0x3F"
proof -
  assume "parse_lin_id s = Inr i"
  then obtain v :: u64 where "v \<le> 0x3F" and i: "i = ucast v"
    by (auto simp: parse_lin_id_def kLINMaxID_def not_less split: sum.splits if_splits)
  then have "unat v \<le> 63" by (simp add: word_le_nat_alt)
  then show ?thesis by (simp add: i word_le_nat_alt unat_to_u8)
qed

lemma parse_lin_id_trailing:
  assumes "n \<le> 63" and "digit_val 10 c = None"
  shows "parse_lin_id (decimal n @ c # r) = Inr (of_nat n)"
proof -
  have "strto 10 (decimal n @ c # r) = Some (False, n, c # r)"
    using assms(2) by (intro strto_decimal) simp
  then have v: "stoull 10 (decimal n @ c # r) = Inr (of_nat n)"
    using assms(1) by (simp add: stoull_def ull_of_def)
  have "(of_nat n :: u64) \<le> 0x3F"
    using assms(1) by (simp add: word_le_nat_alt unat_of_nat)
  moreover have "(ucast (of_nat n :: u64) :: u8) = of_nat n"
    using assms(1) by (intro unat_eqI) (simp add: unat_to_u8 unat_of_nat)
  ultimately show ?thesis by (simp add: parse_lin_id_def v kLINMaxID_def)
qed

lemma parse_to_message_meta:
  "parse_checksum_type (m_meta (to_message f)) = Inr (f_checksum_type f)"
  "parse_checksum (m_meta (to_message f)) = f_checksum f"
  by (cases "f_checksum_type f";
      simp add: to_message_def parse_checksum_type_def parse_checksum_def meta_set_lookup
        decimal_int_u8 stoull_decimal_u8)+

subsection \<open>Properties\<close>

text \<open>C28: the parity of the protected identifier is the one of the LIN specification: bit 6 is the
  even parity of the identifier bits 0, 1, 2 and 4, bit 7 the inverted parity of the bits 1, 3, 4
  and 5, and the low six bits are the identifier. \<open>verify_pid\<close> accepts a byte exactly when its own
  bits satisfy these two equations, and then returns its low six bits; every other byte makes it
  throw. So protecting and verifying are inverse to each other on the 64 identifiers.\<close>

theorem verify_pid_exact:
  "verify_pid pid =
    (if bit pid 6 = odd (length (filter (bit pid) [0, 1, 2, 4])) \<and>
        bit pid 7 = even (length (filter (bit pid) [1, 3, 4, 5]))
     then Inr (pid AND 0x3F)
     else Inl (ErrInvalidFrame (''PID 0x'' @ hex2 pid @ '' parity mismatch'')))
   \<and> bit (protect_id i) 6 = odd (length (filter (bit i) [0, 1, 2, 4]))
   \<and> bit (protect_id i) 7 = even (length (filter (bit i) [1, 3, 4, 5]))
   \<and> protect_id i AND 0x3F = i AND 0x3F
   \<and> (verify_pid pid = Inr i \<longleftrightarrow> i \<le> 0x3F \<and> pid = protect_id i)"
  by (intro conjI verify_pid_by_bits protect_id_parity protect_id_low verify_pid_iff)

text \<open>The two parity bits detect every single-bit error: flipping any one of the eight bits of a
  protected identifier makes \<open>verify_pid\<close> throw.\<close>

theorem verify_pid_detects_bit_flip:
  assumes "k < 8"
  shows "\<exists>reason. verify_pid (protect_id i XOR push_bit k 1) = Inl (ErrInvalidFrame reason)"
proof -
  let ?p = "protect_id i XOR push_bit k 1"
  have "k = 0 \<or> k = 1 \<or> k = 2 \<or> k = 3 \<or> k = 4 \<or> k = 5 \<or> k = 6 \<or> k = 7"
    using assms by arith
  then have "bit (protect_id ?p) 6 \<noteq> bit ?p 6 \<or> bit (protect_id ?p) 7 \<noteq> bit ?p 7"
    by (elim disjE; simp add: protect_id_bits bit_simps; blast?)
  then have "protect_id (?p AND 0x3F) \<noteq> ?p" by (auto simp: protect_id_mask)
  then show ?thesis by (simp add: verify_pid_def kLINMaxID_def)
qed

theorem verify_pid_detects_bit_flip_witness:
  "(3::nat) < 8 \<and> (\<exists>reason. verify_pid (protect_id 0x10 XOR push_bit 3 1) = Inl (ErrInvalidFrame reason))"
  using verify_pid_detects_bit_flip [of 3 "0x10"] by simp

text \<open>C29: the summing loop with its carry fold computes the inverted ones' complement sum of the
  covered bytes (the data, and the protected identifier for the enhanced checksum): 0xFF minus the
  sum reduced modulo 255, where a non-zero multiple of 255 counts as 255.\<close>

theorem calc_checksum_ones_complement:
  "unat (calc_checksum pid data ct) =
     255 - (let n = (if ct = Enhanced then unat pid else 0) + sum_list (map unat data)
            in if n = 0 then 0 else (n - 1) mod 255 + 1)
   \<and> calc_checksum pid data Classic = calc_checksum pid' data Classic"
proof -
  have "calc_checksum pid data Classic = calc_checksum pid' data Classic"
    by (simp add: calc_checksum_def)
  then show ?thesis
    by (simp only: calc_checksum_nat Let_def covered_sum_def ones_sum_def)
qed

text \<open>Corrupting one data byte is detected by \<open>verify_checksum\<close> unless the corruption swaps 0x00
  and 0xFF while some other covered byte is non-zero; exactly those corruptions pass.\<close>

theorem checksum_single_byte:
  assumes "i < length data" and "b \<noteq> data ! i"
  shows "verify_checksum pid (data[i := b]) (calc_checksum pid data ct) ct \<longleftrightarrow>
     {data ! i, b} = {0x00, 0xFF} \<and> covered_sum pid (data[i := 0]) ct \<noteq> 0"
proof -
  define r where "r = covered_sum pid (data[i := 0]) ct"
  have upd: "covered_sum pid (data[i := c]) ct = r + unat c" for c
    using sum_list_map_update [OF assms(1), of unat c] sum_list_map_update [OF assms(1), of unat 0]
    by (simp add: covered_sum_def r_def)
  have old: "covered_sum pid data ct = r + unat (data ! i)"
    using upd [of "data ! i"] by simp
  have ne: "unat b \<noteq> unat (data ! i)" using assms(2) unat_eqI by blast
  have lt: "unat b < 256" "unat (data ! i) < 256" by (rule u8_unat_less)+
  have "verify_checksum pid (data[i := b]) (calc_checksum pid data ct) ct \<longleftrightarrow>
      (r + unat b) mod 255 = (r + unat (data ! i)) mod 255 \<and>
      (r + unat b = 0 \<longleftrightarrow> r + unat (data ! i) = 0)"
    by (simp only: verify_checksum_def same_checksum_iff upd old)
  also have "(r + unat b) mod 255 = (r + unat (data ! i)) mod 255 \<longleftrightarrow>
      {unat (data ! i), unat b} = {0, 255}"
    by (rule mod_255_shift) (use ne lt in simp_all)
  also have "{unat (data ! i), unat b} = {0, 255} \<longleftrightarrow> {data ! i, b} = {0x00, 0xFF}"
    by (simp add: doubleton_eq_iff word_unat_eq_iff)
  finally show ?thesis
    by (simp only: r_def [symmetric] doubleton_eq_iff) (auto simp: word_unat_eq_iff)
qed

theorem checksum_single_byte_witness:
  "verify_checksum 0x50 [0x00, 0x01] (calc_checksum 0x50 [0xFF, 0x01] Classic) Classic \<longleftrightarrow>
     {0xFF, 0x00 :: u8} = {0x00, 0xFF} \<and> covered_sum 0x50 [0, 0x01] Classic \<noteq> 0"
  using checksum_single_byte [of 0 "[0xFF, 0x01]" "0x00" "0x50" Classic] by simp

lemma from_to_message: "f_id f \<le> 0x3F \<Longrightarrow> from_message (to_message f) = Inr f"
  using parse_to_message_meta [of f]
  by (simp add: from_message_def parse_lin_id_decimal decimal_int_u8)
     (simp add: to_message_def parse_lin_id_decimal decimal_int_u8)

lemma from_message_id: "from_message m = Inr f \<Longrightarrow> f_id f \<le> 0x3F \<and> f_data f = m_payload m"
  by (auto simp: from_message_def split: sum.splits dest: parse_lin_id_le)

text \<open>C30: a frame survives the trip through a RELAY message: \<open>from_message\<close> of \<open>to_message\<close> gives
  back the identifier, the payload, the checksum and the checksum type, for every frame whose
  identifier is in range, and throws \<open>ErrInvalidFrame\<close> for every other frame.\<close>

theorem message_roundtrip:
  "from_message (to_message f) =
    (if f_id f \<le> 0x3F then Inr f
     else Inl (ErrInvalidFrame (''invalid LIN ID: '' @ decimal (unat (f_id f)))))"
  using parse_to_message_meta [of f]
  by (simp add: from_message_def parse_lin_id_decimal decimal_int_u8)
     (simp add: to_message_def parse_lin_id_decimal decimal_int_u8)

text \<open>Whatever \<open>from_message\<close> accepts is a frame with an identifier of at most 0x3F that carries
  the message's payload unchanged, and a message with no checksum type gets the classic one.\<close>

theorem from_message_sound:
  assumes "from_message m = Inr f"
  shows "f_id f \<le> 0x3F \<and> f_data f = m_payload m \<and>
    (map_of (m_meta m) ''lin.checksum_type'' = None \<longrightarrow> f_checksum_type f = Classic) \<and>
    (f_checksum_type f = Enhanced \<longleftrightarrow> map_of (m_meta m) ''lin.checksum_type'' = Some ''enhanced'')"
  using assms parse_lin_id_le [of "m_id m" "f_id f"]
  by (auto simp: from_message_def parse_checksum_type_def
      split: sum.splits option.splits if_splits)

theorem from_message_sound_witness:
  "f_id \<lparr>f_id = 5, f_data = [1], f_checksum = 0, f_checksum_type = Classic\<rparr> \<le> 0x3F"
  using from_message_sound [of "empty_message\<lparr>m_id := ''5'', m_payload := [1]\<rparr>"
      "\<lparr>f_id = 5, f_data = [1], f_checksum = 0, f_checksum_type = Classic\<rparr>"]
    parse_lin_id_decimal [of 5]
  by (simp add: from_message_def empty_message_def parse_checksum_type_def parse_checksum_def
      decimal.simps digit_char_def)

text \<open>An identifier string need not be a decimal number: any characters after the digits are
  ignored, so \<open>from_message\<close> accepts them as the number before them.\<close>

theorem from_message_ignores_trailing:
  assumes "n \<le> 63" and "digit_val 10 c = None"
  shows "from_message (m\<lparr>m_id := decimal n @ c # r\<rparr>) = from_message (m\<lparr>m_id := decimal n\<rparr>)"
proof -
  have "parse_lin_id (decimal n) = Inr (of_nat n)"
    using parse_lin_id_decimal [of "of_nat n"] assms(1)
    by (simp add: unat_of_nat word_le_nat_alt)
  then show ?thesis
    using assms
    by (cases "parse_checksum_type (m_meta m)") (simp_all add: from_message_def parse_lin_id_trailing)
qed

theorem from_message_ignores_trailing_witness:
  "(5 :: nat) \<le> 63 \<and> digit_val 10 CHR ''x'' = None \<and>
   from_message (empty_message\<lparr>m_id := decimal 5 @ ''xyz''\<rparr>) = from_message (empty_message\<lparr>m_id := decimal 5\<rparr>)"
proof -
  have d: "digit_val 10 CHR ''x'' = None" by (simp add: digit_val_def char_nat_def)
  show ?thesis
    using d from_message_ignores_trailing [OF _ d, where n = 5 and m = empty_message and r = "''yz''"]
    by simp
qed

text \<open>A \<open>no_response\<close> code matches the condition of relay's timeout, as no other LIN code does, but
  it is a different code: comparing it with \<open>ErrTimeout()\<close> itself gives false.\<close>

theorem no_response_matches_timeout_condition:
  "(lin_code_matches (lin_make_error_code e) (default_error_condition ErrTimeout) \<longleftrightarrow> e = no_response)
   \<and> lin_make_error_code e \<noteq> ErrTimeout \<and> is_error (lin_make_error_code e)"
  by (cases e) (simp_all add: lin_code_matches_def lin_equivalent_def default_error_condition_def
      lin_make_error_code_def error_defs)

end
