(* ===== verification/Interfaces.thy ===== *)
theory Interfaces
  imports Lin
begin

text \<open>
  The contracts of \<open>IBus\<close> and \<open>IMasterBus\<close> (\<open>include/lin/lin.hpp\<close>): what a slave node, a master node
  and the RELAY adapter may rely on, whichever bus they are given.

  A bus is seen through the responses registered on it, whether it is open, and its own invariant.
\<close>

subsection \<open>Vocabulary\<close>

text \<open>What publishing registers: nothing for empty data, and the classic checksum on diagnostic identifiers.\<close>

definition registered :: "u8 \<Rightarrow> bytes \<Rightarrow> checksum_type \<Rightarrow> (bytes \<times> checksum_type) option" where
  "registered i d ct = (if d = [] then None else Some (d, if is_diag i then Classic else ct))"

text \<open>The frame a registered response makes.\<close>

definition answer_frame :: "u8 \<Rightarrow> bytes \<Rightarrow> checksum_type \<Rightarrow> frame" where
  "answer_frame i d ct =
    \<lparr>f_id = i, f_data = d, f_checksum = calc_checksum (protect_id i) d ct, f_checksum_type = ct\<rparr>"

subsection \<open>Publishing\<close>

locale ibus =
  fixes pub :: "u8 \<Rightarrow> bytes \<Rightarrow> 'b \<Rightarrow> error_code \<times> 'b"
    and pub_classic :: "u8 \<Rightarrow> bytes \<Rightarrow> 'b \<Rightarrow> error_code \<times> 'b"
    and responses :: "'b \<Rightarrow> u8 \<rightharpoonup> bytes \<times> checksum_type"
    and open_bus :: "'b \<Rightarrow> bool"
    and inv :: "'b \<Rightarrow> bool"
  assumes pub_inv: "inv b \<Longrightarrow> inv (snd (pub i d b))"
    and pub_classic_inv: "inv b \<Longrightarrow> inv (snd (pub_classic i d b))"
    and pub_ok: "inv b \<Longrightarrow> fst (pub i d b) = ok_code \<longleftrightarrow> i \<le> kLINMaxID \<and> open_bus b"
    and pub_classic_ok: "inv b \<Longrightarrow> fst (pub_classic i d b) = ok_code \<longleftrightarrow> i \<le> kLINMaxID \<and> open_bus b"
    and pub_error: "fst (pub i d b) \<noteq> ok_code \<Longrightarrow> is_error (fst (pub i d b))"
    and pub_open: "open_bus (snd (pub i d b)) = open_bus b"
    and pub_classic_open: "open_bus (snd (pub_classic i d b)) = open_bus b"
    and pub_responses: "inv b \<Longrightarrow> responses (snd (pub i d b)) =
      (if fst (pub i d b) = ok_code then (responses b)(i := registered i d Enhanced) else responses b)"
    and pub_classic_responses: "inv b \<Longrightarrow> responses (snd (pub_classic i d b)) =
      (if fst (pub_classic i d b) = ok_code then (responses b)(i := registered i d Classic) else responses b)"
begin

lemma pub_lookup:
  assumes "inv b" "open_bus b" "i \<le> kLINMaxID"
  shows "responses (snd (pub i d b)) j = (if j = i then registered i d Enhanced else responses b j)"
  using assms by (simp add: pub_responses pub_ok)

lemma pub_classic_lookup:
  assumes "inv b" "open_bus b" "i \<le> kLINMaxID"
  shows "responses (snd (pub_classic i d b)) j = (if j = i then registered i d Classic else responses b j)"
  using assms by (simp add: pub_classic_responses pub_classic_ok)

end

subsection \<open>Driving headers\<close>

locale imaster_bus = ibus pub pub_classic responses open_bus inv
  for pub :: "u8 \<Rightarrow> bytes \<Rightarrow> 'b \<Rightarrow> error_code \<times> 'b" and pub_classic :: "u8 \<Rightarrow> bytes \<Rightarrow> 'b \<Rightarrow> error_code \<times> 'b"
    and responses :: "'b \<Rightarrow> u8 \<rightharpoonup> bytes \<times> checksum_type" and open_bus :: "'b \<Rightarrow> bool" and inv :: "'b \<Rightarrow> bool" +
  fixes header :: "u8 \<Rightarrow> 'b \<Rightarrow> ((frame \<times> error_code) \<times> 'b) outcome"
  assumes header_defined: "inv b \<Longrightarrow> header i b \<noteq> UB"
    and header_keeps: "inv b \<Longrightarrow> header i b = Ret (r, b') \<Longrightarrow>
      inv b' \<and> open_bus b' = open_bus b \<and> responses b' = responses b"
    and header_fails: "inv b \<Longrightarrow> header i b = Ret ((f, e), b') \<Longrightarrow>
      is_error e \<longleftrightarrow> \<not> open_bus b \<or> responses b i = None"
    and header_answers: "inv b \<Longrightarrow> header i b = Ret ((f, e), b') \<Longrightarrow> \<not> is_error e \<Longrightarrow>
      responses b i = Some (d, ct) \<Longrightarrow> f = answer_frame i d ct"
begin

lemma header_answer:
  assumes "inv b" "open_bus b" "responses b i = Some (d, ct)" "header i b = Ret ((f, e), b')"
  shows "\<not> is_error e \<and> f = answer_frame i d ct"
  using header_fails [OF assms(1,4)] header_answers [OF assms(1,4)] assms(2,3) by simp

lemma pub_header:
  assumes "inv b" "open_bus b" "i \<le> kLINMaxID" "d \<noteq> []"
    and "header i (snd (pub i d b)) = Ret ((f, e), b')"
  shows "\<not> is_error e \<and> f = answer_frame i d (if is_diag i then Classic else Enhanced)"
  using assms
  by (intro header_answer [OF pub_inv, of b i d]) (simp_all add: pub_lookup pub_open registered_def)

lemma pub_classic_header:
  assumes "inv b" "open_bus b" "i \<le> kLINMaxID" "d \<noteq> []"
    and "header i (snd (pub_classic i d b)) = Ret ((f, e), b')"
  shows "\<not> is_error e \<and> f = answer_frame i d Classic"
  using assms
  by (intro header_answer [OF pub_classic_inv, of b i d])
     (simp_all add: pub_classic_lookup pub_classic_open registered_def)

end

end
