(* ===== verification/VirtualBus.thy ===== *)
theory VirtualBus
  imports Interfaces Channel
begin

text \<open>
  The in-process bus \<open>lin::virt::Bus\<close> of \<open>include/lin/virtual/bus.hpp\<close> and
  \<open>src/virtual/bus.cpp\<close>: its state, one definition per member function, the invariant every call
  keeps, and what the calls do.

  A \<open>shared_ptr<Chan<Frame>>\<close> is the index of a channel in \<open>b_chans\<close>, so the bus and the
  subscriber that holds the pointer see the same channel.
\<close>

subsection \<open>State\<close>

record response_entry =
  re_data :: bytes
  re_checksum_type :: checksum_type

record subscription =
  sb_filters :: "filter_rule list"
  sb_ch :: nat
  sb_policy :: back_pressure_policy

record bus =
  b_responses :: "u8 \<rightharpoonup> response_entry"
  b_schedule :: "schedule_entry list"
  b_subs :: "subscription list"
  b_closed :: bool
  b_counters :: metrics
  b_chans :: "frame chan list"

definition kDefaultChanDepth :: int where "kDefaultChanDepth = 64"

definition no_metrics :: metrics where
  "no_metrics = \<lparr>write_count = 0, deliver_count = 0, drop_count = 0, bytes_written = 0,
     bytes_delivered = 0, error_count = 0\<rparr>"

definition new_bus :: bus where
  "new_bus = \<lparr>b_responses = Map.empty, b_schedule = [], b_subs = [], b_closed = False,
     b_counters = no_metrics, b_chans = []\<rparr>"

subsection \<open>Operations\<close>

definition matches_any :: "filter_rule list \<Rightarrow> frame \<Rightarrow> bool" where
  "matches_any fs f \<longleftrightarrow> fs = [] \<or> list_ex (\<lambda>fl. filter_matches fl f) fs"

definition count_error :: "bus \<Rightarrow> bus" where
  "count_error b = b\<lparr>b_counters := (b_counters b)\<lparr>error_count := error_count (b_counters b) + 1\<rparr>\<rparr>"

definition count_written :: "frame \<Rightarrow> bus \<Rightarrow> bus" where
  "count_written f b = b\<lparr>b_counters := (b_counters b)
     \<lparr>write_count := write_count (b_counters b) + 1,
      bytes_written := bytes_written (b_counters b) + of_nat (length (f_data f))\<rparr>\<rparr>"

definition count_delivered :: "frame \<Rightarrow> bus \<Rightarrow> bus" where
  "count_delivered f b = b\<lparr>b_counters := (b_counters b)
     \<lparr>deliver_count := deliver_count (b_counters b) + 1,
      bytes_delivered := bytes_delivered (b_counters b) + of_nat (length (f_data f))\<rparr>\<rparr>"

definition count_dropped :: "bus \<Rightarrow> bus" where
  "count_dropped b = b\<lparr>b_counters := (b_counters b)\<lparr>drop_count := drop_count (b_counters b) + 1\<rparr>\<rparr>"

definition set_chan :: "nat \<Rightarrow> frame chan \<Rightarrow> bus \<Rightarrow> bus" where
  "set_chan i c b = b\<lparr>b_chans := (b_chans b)[i := c]\<rparr>"

definition do_publish :: "u8 \<Rightarrow> bytes \<Rightarrow> checksum_type \<Rightarrow> bus \<Rightarrow> error_code \<times> bus" where
  "do_publish i data ct b =
    (if i > kLINMaxID then (lin_make_error_code invalid_frame, count_error b)
     else if b_closed b then (ErrClosed, count_error b)
     else if data = [] then (ok_code, b\<lparr>b_responses := (b_responses b)(i := None)\<rparr>)
     else
       let ct = (if i = kLINDiagRequestID \<or> i = kLINDiagResponseID then Classic else ct)
       in (ok_code, b\<lparr>b_responses := (b_responses b)(i \<mapsto> \<lparr>re_data = data, re_checksum_type = ct\<rparr>)\<rparr>))"

definition publish :: "u8 \<Rightarrow> bytes \<Rightarrow> bus \<Rightarrow> error_code \<times> bus" where
  "publish i data b = do_publish i data Enhanced b"

definition publish_classic :: "u8 \<Rightarrow> bytes \<Rightarrow> bus \<Rightarrow> error_code \<times> bus" where
  "publish_classic i data b = do_publish i data Classic b"

text \<open>One round of the delivery loop of \<open>send_header\<close>, and the loop.\<close>

definition deliver :: "frame \<Rightarrow> subscription \<Rightarrow> bus \<Rightarrow> bus outcome" where
  "deliver f s b =
    (let i = sb_ch s; c = b_chans b ! i
     in if \<not> matches_any (sb_filters s) f then Ret b
        else case sb_policy s of
          DropNewest \<Rightarrow>
            (let (r, c') = try_send f c; b = set_chan i c' b
             in Ret (if r = Ok then count_delivered f b
                     else if r = Full then count_dropped b else b))
        | DropOldest \<Rightarrow>
            obind (send_drop_oldest f c) (\<lambda>(r, c').
              let b = set_chan i c' b
              in Ret (if r = Evicted then count_dropped b
                      else if r = Ok then count_delivered f b else b))
        | Block \<Rightarrow>
            obind (chan_send f c) (\<lambda>(_, c'). Ret (count_delivered f (set_chan i c' b))))"

primrec broadcast :: "frame \<Rightarrow> subscription list \<Rightarrow> bus \<Rightarrow> bus outcome" where
  "broadcast f [] b = Ret b"
| "broadcast f (s # ss) b = obind (deliver f s b) (broadcast f ss)"

definition send_header :: "u8 \<Rightarrow> bus \<Rightarrow> ((frame \<times> error_code) \<times> bus) outcome" where
  "send_header i b =
    (if i > kLINMaxID then Ret ((default_frame, lin_make_error_code invalid_frame), count_error b)
     else if b_closed b then Ret ((default_frame, ErrClosed), count_error b)
     else case b_responses b i of
       None \<Rightarrow> Ret ((default_frame, lin_make_error_code no_response), count_error b)
     | Some e \<Rightarrow>
         let pid = protect_id i;
             data = re_data e;
             ct = re_checksum_type e;
             cs = calc_checksum pid data ct;
             f = \<lparr>f_id = i, f_data = data, f_checksum = cs, f_checksum_type = ct\<rparr>
         in obind (broadcast f (b_subs b) (count_written f b)) (\<lambda>b'. Ret ((f, ok_code), b')))"

definition subscribe ::
  "filter_rule list \<Rightarrow> subscriber_option list \<Rightarrow> bus \<Rightarrow> (nat option \<times> error_code) \<times> bus" where
  "subscribe filters opts b =
    (let cfg = apply_options opts;
         depth = effective_depth cfg kDefaultChanDepth
     in if b_closed b then ((None, ErrClosed), count_error b)
        else
          let ch = length (b_chans b);
              s = \<lparr>sb_filters = filters, sb_ch = ch, sb_policy = back_pressure cfg\<rparr>
          in ((Some ch, ok_code),
              b\<lparr>b_chans := b_chans b @ [new_chan (nat depth)], b_subs := b_subs b @ [s]\<rparr>))"

definition set_schedule :: "schedule_entry list \<Rightarrow> bus \<Rightarrow> error_code \<times> bus" where
  "set_schedule entries b =
    (if b_closed b then (ErrClosed, b) else (ok_code, b\<lparr>b_schedule := entries\<rparr>))"

definition close_subs :: "subscription list \<Rightarrow> bus \<Rightarrow> bus" where
  "close_subs ss b = fold (\<lambda>s b. set_chan (sb_ch s) (chan_close (b_chans b ! sb_ch s)) b) ss b"

definition bus_close :: "bus \<Rightarrow> error_code \<times> bus" where
  "bus_close b =
    (if b_closed b then (ok_code, b)
     else
       let b = b\<lparr>b_closed := True\<rparr>;
           b = close_subs (b_subs b) b
       in (ok_code, b\<lparr>b_subs := []\<rparr>))"

definition bus_health :: "bus \<Rightarrow> health" where
  "bus_health b =
    (if b_closed b then \<lparr>h_status = Down, h_details = ''bus closed''\<rparr>
     else \<lparr>h_status = Health_OK, h_details = ''''\<rparr>)"

definition bus_metrics :: "bus \<Rightarrow> metrics" where
  "bus_metrics b = b_counters b"

text \<open>What a holder of a channel pointer does to the channel.\<close>

definition client_chan :: "nat \<Rightarrow> frame chan_op \<Rightarrow> bus \<Rightarrow> bus" where
  "client_chan i x b = set_chan i (chan_step x (b_chans b ! i)) b"

lemmas count_defs = count_error_def count_written_def count_delivered_def count_dropped_def set_chan_def

lemma count_simps [simp]:
  "b_responses (count_error b) = b_responses b" "b_schedule (count_error b) = b_schedule b"
  "b_subs (count_error b) = b_subs b" "b_closed (count_error b) = b_closed b" "b_chans (count_error b) = b_chans b"
  "b_responses (count_written f b) = b_responses b" "b_schedule (count_written f b) = b_schedule b"
  "b_subs (count_written f b) = b_subs b" "b_closed (count_written f b) = b_closed b"
  "b_chans (count_written f b) = b_chans b"
  "b_responses (count_delivered f b) = b_responses b" "b_schedule (count_delivered f b) = b_schedule b"
  "b_subs (count_delivered f b) = b_subs b" "b_closed (count_delivered f b) = b_closed b"
  "b_chans (count_delivered f b) = b_chans b"
  "b_responses (count_dropped b) = b_responses b" "b_schedule (count_dropped b) = b_schedule b"
  "b_subs (count_dropped b) = b_subs b" "b_closed (count_dropped b) = b_closed b"
  "b_chans (count_dropped b) = b_chans b"
  by (simp_all add: count_defs)

lemma set_chan_simps [simp]:
  "b_responses (set_chan i c b) = b_responses b" "b_schedule (set_chan i c b) = b_schedule b"
  "b_subs (set_chan i c b) = b_subs b" "b_closed (set_chan i c b) = b_closed b"
  "b_chans (set_chan i c b) = (b_chans b)[i := c]" "b_counters (set_chan i c b) = b_counters b"
  by (simp_all add: set_chan_def)

subsection \<open>One delivery, in closed form\<close>

text \<open>The channel and the counters after a frame is offered to a matching subscriber.\<close>

definition offered :: "back_pressure_policy \<Rightarrow> frame \<Rightarrow> frame chan \<Rightarrow> frame chan" where
  "offered p f c =
    (if ch_closed c then c
     else if chan_size c < ch_capacity c then chan_push f c
     else if p = DropOldest then chan_push f (c\<lparr>ch_buf := tl (ch_buf c)\<rparr>)
     else c)"

definition chan_after :: "frame \<Rightarrow> subscription \<Rightarrow> frame chan \<Rightarrow> frame chan" where
  "chan_after f s c = (if matches_any (sb_filters s) f then offered (sb_policy s) f c else c)"

definition counters_after :: "frame \<Rightarrow> subscription \<Rightarrow> frame chan \<Rightarrow> metrics \<Rightarrow> metrics" where
  "counters_after f s c m =
    (if \<not> matches_any (sb_filters s) f then m
     else if sb_policy s = Block \<or> (\<not> ch_closed c \<and> chan_size c < ch_capacity c) then
       m\<lparr>deliver_count := deliver_count m + 1,
         bytes_delivered := bytes_delivered m + of_nat (length (f_data f))\<rparr>
     else if ch_closed c then m
     else m\<lparr>drop_count := drop_count m + 1\<rparr>)"

definition must_wait :: "frame \<Rightarrow> subscription \<Rightarrow> frame chan \<Rightarrow> bool" where
  "must_wait f s c \<longleftrightarrow> matches_any (sb_filters s) f \<and> sb_policy s = Block \<and>
     \<not> ch_closed c \<and> ch_capacity c \<le> chan_size c"

definition delivered :: "frame \<Rightarrow> subscription \<Rightarrow> bus \<Rightarrow> bus" where
  "delivered f s b = b
    \<lparr>b_chans := (b_chans b)[sb_ch s := chan_after f s (b_chans b ! sb_ch s)],
     b_counters := counters_after f s (b_chans b ! sb_ch s) (b_counters b)\<rparr>"

lemma chan_ok_offered: "chan_ok c \<Longrightarrow> chan_ok (offered p f c)"
  by (auto simp: offered_def chan_ok_def chan_push_def chan_size_def)

lemma chan_ok_after [bus_inv]: "chan_ok c \<Longrightarrow> chan_ok (chan_after f s c)"
  by (simp add: chan_after_def chan_ok_offered)

lemma chan_after_closed [simp]: "ch_closed (chan_after f s c) = ch_closed c"
  by (simp add: chan_after_def offered_def chan_push_def)

lemma deliver_closed_form:
  assumes "chan_ok (b_chans b ! sb_ch s)"
  shows "deliver f s b = (if must_wait f s (b_chans b ! sb_ch s) then Blocks else Ret (delivered f s b))"
proof (cases "sb_policy s")
  case DropNewest
  then show ?thesis
    by (auto simp: deliver_def must_wait_def delivered_def chan_after_def counters_after_def offered_def
        try_send_def count_defs Let_def)
next
  case DropOldest
  define c where "c = b_chans b ! sb_ch s"
  have same: "(b_chans b)[sb_ch s := c] = b_chans b" by (simp add: c_def)
  show ?thesis
  proof (cases "ch_buf c")
    case Nil
    then have "chan_size c < ch_capacity c" using assms by (auto simp: chan_ok_def chan_size_def c_def)
    then show ?thesis
      using DropOldest
      by (auto simp: deliver_def must_wait_def delivered_def chan_after_def counters_after_def offered_def
          send_drop_oldest_def count_defs Let_def same simp flip: c_def)
  next
    case (Cons v rest)
    then show ?thesis
      using DropOldest
      by (auto simp: deliver_def must_wait_def delivered_def chan_after_def counters_after_def offered_def
          send_drop_oldest_def count_defs Let_def same simp flip: c_def)
  qed
next
  case Block
  then show ?thesis
    by (auto simp: deliver_def must_wait_def delivered_def chan_after_def counters_after_def offered_def
        chan_send_def send_ready_def count_defs Let_def)
qed

lemma delivered_simps [simp]:
  "b_responses (delivered f s b) = b_responses b" "b_schedule (delivered f s b) = b_schedule b"
  "b_subs (delivered f s b) = b_subs b" "b_closed (delivered f s b) = b_closed b"
  "b_chans (delivered f s b) = (b_chans b)[sb_ch s := chan_after f s (b_chans b ! sb_ch s)]"
  "b_counters (delivered f s b) = counters_after f s (b_chans b ! sb_ch s) (b_counters b)"
  by (simp_all add: delivered_def)

subsection \<open>The whole loop, in closed form\<close>

text \<open>
  Subscribers have channels of their own, so what the loop does to one is independent of the others.
\<close>

definition subs_ok :: "subscription list \<Rightarrow> frame chan list \<Rightarrow> bool" where
  "subs_ok ss chs \<longleftrightarrow> distinct (map sb_ch ss) \<and> (\<forall>s\<in>set ss. sb_ch s < length chs \<and> chan_ok (chs ! sb_ch s))"

lemma subs_ok_Cons:
  "subs_ok (s # ss) (b_chans b) \<Longrightarrow> subs_ok ss (b_chans (delivered f s b)) \<and>
    (\<forall>t\<in>set ss. b_chans (delivered f s b) ! sb_ch t = b_chans b ! sb_ch t)"
  by (auto simp: subs_ok_def nth_list_update)

lemma broadcast_closed_form:
  assumes "subs_ok ss (b_chans b)"
  shows "broadcast f ss b =
    (if \<exists>s\<in>set ss. must_wait f s (b_chans b ! sb_ch s) then Blocks else Ret (fold (delivered f) ss b))"
  using assms
proof (induction ss arbitrary: b)
  case (Cons s ss)
  have ok: "chan_ok (b_chans b ! sb_ch s)" using Cons.prems by (simp add: subs_ok_def)
  show ?case
    using Cons.IH [of "delivered f s b"] subs_ok_Cons [OF Cons.prems, of f]
    by (auto simp: deliver_closed_form [OF ok])
qed simp

lemma fold_delivered_simps [simp]:
  "b_responses (fold (delivered f) ss b) = b_responses b" "b_schedule (fold (delivered f) ss b) = b_schedule b"
  "b_subs (fold (delivered f) ss b) = b_subs b" "b_closed (fold (delivered f) ss b) = b_closed b"
  "length (b_chans (fold (delivered f) ss b)) = length (b_chans b)"
  by (induction ss arbitrary: b) simp_all

lemma fold_delivered_other:
  "i \<notin> sb_ch ` set ss \<Longrightarrow> b_chans (fold (delivered f) ss b) ! i = b_chans b ! i"
  by (induction ss arbitrary: b) auto

lemma fold_delivered_chan:
  "subs_ok ss (b_chans b) \<Longrightarrow> s \<in> set ss \<Longrightarrow>
   b_chans (fold (delivered f) ss b) ! sb_ch s = chan_after f s (b_chans b ! sb_ch s)"
proof (induction ss arbitrary: b)
  case (Cons t ss)
  show ?case
  proof (cases "s = t")
    case True
    then have "sb_ch s \<notin> sb_ch ` set ss" using Cons.prems(1) by (auto simp: subs_ok_def)
    then show ?thesis
      using True Cons.prems(1) by (simp add: fold_delivered_other subs_ok_def)
  next
    case False
    then show ?thesis
      using Cons.IH [of "delivered f t b"] Cons.prems subs_ok_Cons [OF Cons.prems(1), of f] by auto
  qed
qed simp

lemma fold_delivered_counters:
  "subs_ok ss (b_chans b) \<Longrightarrow>
   b_counters (fold (delivered f) ss b) =
     fold (\<lambda>s. counters_after f s (b_chans b ! sb_ch s)) ss (b_counters b)"
proof (induction ss arbitrary: b)
  case (Cons s ss)
  have "fold (\<lambda>t. counters_after f t (b_chans (delivered f s b) ! sb_ch t)) ss m =
      fold (\<lambda>t. counters_after f t (b_chans b ! sb_ch t)) ss m" for m
    using subs_ok_Cons [OF Cons.prems, of f] by (intro fold_cong) auto
  then show ?case
    using Cons.IH [of "delivered f s b"] subs_ok_Cons [OF Cons.prems, of f] by simp
qed simp

lemma close_subs_simps [simp]:
  "b_responses (close_subs ss b) = b_responses b" "b_schedule (close_subs ss b) = b_schedule b"
  "b_subs (close_subs ss b) = b_subs b" "b_closed (close_subs ss b) = b_closed b"
  "b_counters (close_subs ss b) = b_counters b" "length (b_chans (close_subs ss b)) = length (b_chans b)"
  unfolding close_subs_def by (induction ss arbitrary: b) simp_all

lemma chan_close_idem [simp]: "chan_close (chan_close c) = chan_close c"
  by (simp add: chan_close_def)

lemma close_subs_chan:
  "i < length (b_chans b) \<Longrightarrow> b_chans (close_subs ss b) ! i =
    (if i \<in> sb_ch ` set ss then chan_close (b_chans b ! i) else b_chans b ! i)"
  unfolding close_subs_def by (induction ss arbitrary: b) (auto simp: nth_list_update_other)

subsection \<open>The invariant\<close>

definition responses_ok :: "(u8 \<rightharpoonup> response_entry) \<Rightarrow> bool" where
  "responses_ok rs \<longleftrightarrow> (\<forall>i e. rs i = Some e \<longrightarrow>
     i \<le> kLINMaxID \<and> re_data e \<noteq> [] \<and> (is_diag i \<longrightarrow> re_checksum_type e = Classic))"

definition bus_ok :: "bus \<Rightarrow> bool" where
  "bus_ok b \<longleftrightarrow> responses_ok (b_responses b) \<and> (\<forall>c\<in>set (b_chans b). chan_ok c) \<and>
     (if b_closed b then b_subs b = [] \<and> (\<forall>c\<in>set (b_chans b). ch_closed c)
      else map sb_ch (b_subs b) = [0..<length (b_chans b)])"

lemma bus_ok_subs: "bus_ok b \<Longrightarrow> subs_ok (b_subs b) (b_chans b)"
proof (cases "b_closed b")
  case False
  assume ok: "bus_ok b"
  then have m: "map sb_ch (b_subs b) = [0..<length (b_chans b)]"
    using False by (simp add: bus_ok_def)
  then have "sb_ch ` set (b_subs b) = {0..<length (b_chans b)}"
    by (metis list.set_map set_upt)
  then have bound: "sb_ch s < length (b_chans b)" if "s \<in> set (b_subs b)" for s
    using that by auto
  then have "chan_ok (b_chans b ! sb_ch s)" if "s \<in> set (b_subs b)" for s
    using ok that unfolding bus_ok_def by simp
  with bound show "subs_ok (b_subs b) (b_chans b)"
    using m by (simp add: subs_ok_def)
qed (simp add: bus_ok_def subs_ok_def)

lemma bus_ok_new [bus_inv]: "bus_ok new_bus"
  by (simp add: bus_ok_def new_bus_def responses_ok_def)

lemma bus_ok_count [simp]:
  "bus_ok (count_error b) = bus_ok b" "bus_ok (count_written f b) = bus_ok b"
  by (simp_all add: bus_ok_def)

lemma do_publish_ok [bus_inv]: "bus_ok b \<Longrightarrow> bus_ok (snd (do_publish i data ct b))"
  by (auto simp: do_publish_def Let_def bus_ok_def responses_ok_def is_diag_def not_less)

lemma publish_ok [bus_inv]:
  "bus_ok b \<Longrightarrow> bus_ok (snd (publish i data b))" "bus_ok b \<Longrightarrow> bus_ok (snd (publish_classic i data b))"
  by (simp_all add: publish_def publish_classic_def bus_inv)

lemma set_chan_ok:
  "bus_ok b \<Longrightarrow> chan_ok c \<Longrightarrow> (i < length (b_chans b) \<Longrightarrow> ch_closed (b_chans b ! i) \<Longrightarrow> ch_closed c) \<Longrightarrow>
   bus_ok (set_chan i c b)"
proof (cases "i < length (b_chans b)")
  case True
  assume "bus_ok b" "chan_ok c" and "i < length (b_chans b) \<Longrightarrow> ch_closed (b_chans b ! i) \<Longrightarrow> ch_closed c"
  then show ?thesis
    using True set_update_subset_insert [of "b_chans b" i c] by (auto simp: bus_ok_def)
qed (simp add: bus_ok_def list_update_beyond split: if_splits)

lemma delivered_ok:
  assumes "bus_ok b" "sb_ch s < length (b_chans b)"
  shows "bus_ok (delivered f s b)"
proof -
  let ?c = "chan_after f s (b_chans b ! sb_ch s)"
  have "bus_ok (set_chan (sb_ch s) ?c b)"
    using assms by (intro set_chan_ok) (auto simp: bus_ok_def bus_inv)
  then show ?thesis by (simp add: bus_ok_def split: if_splits)
qed

lemma fold_delivered_ok:
  "bus_ok b \<Longrightarrow> \<forall>s\<in>set ss. sb_ch s < length (b_chans b) \<Longrightarrow> bus_ok (fold (delivered f) ss b)"
  by (induction ss arbitrary: b) (simp_all add: delivered_ok)

text \<open>\<open>send_header\<close> on a bus that keeps the invariant: what it returns, and when it waits.\<close>

definition response_frame :: "u8 \<Rightarrow> response_entry \<Rightarrow> frame" where
  "response_frame i e =
    \<lparr>f_id = i, f_data = re_data e,
     f_checksum = calc_checksum (protect_id i) (re_data e) (re_checksum_type e),
     f_checksum_type = re_checksum_type e\<rparr>"

lemma send_header_closed_form:
  assumes "bus_ok b"
  shows "send_header i b =
    (if i > kLINMaxID then Ret ((default_frame, lin_make_error_code invalid_frame), count_error b)
     else if b_closed b then Ret ((default_frame, ErrClosed), count_error b)
     else case b_responses b i of
       None \<Rightarrow> Ret ((default_frame, lin_make_error_code no_response), count_error b)
     | Some e \<Rightarrow>
         let f = response_frame i e
         in if \<exists>s\<in>set (b_subs b). must_wait f s (b_chans b ! sb_ch s) then Blocks
            else Ret ((f, ok_code), fold (delivered f) (b_subs b) (count_written f b)))"
proof -
  have "subs_ok (b_subs b) (b_chans (count_written f b))" for f
    using bus_ok_subs [OF assms] by simp
  then show ?thesis
    by (simp add: send_header_def broadcast_closed_form response_frame_def Let_def split: option.split)
qed

lemma send_header_ok [bus_inv]:
  assumes "bus_ok b" "send_header i b = Ret (r, b')"
  shows "bus_ok b'"
proof -
  have "bus_ok (fold (delivered f) (b_subs b) (count_written f b))" for f
    using bus_ok_subs [OF assms(1)] assms(1) by (intro fold_delivered_ok) (auto simp: subs_ok_def)
  then show ?thesis
    using assms by (auto simp: send_header_closed_form Let_def split: if_splits option.splits)
qed

lemma subscribe_ok [bus_inv]:
  assumes "bus_ok b"
  shows "bus_ok (snd (subscribe fs opts b))"
proof -
  have "0 < effective_depth (apply_options opts) kDefaultChanDepth"
    by (intro effective_depth_pos) (simp add: kDefaultChanDepth_def)
  then show ?thesis
    using assms by (auto simp: subscribe_def Let_def bus_ok_def)
qed

lemma set_schedule_ok [bus_inv]: "bus_ok b \<Longrightarrow> bus_ok (snd (set_schedule es b))"
  by (simp add: set_schedule_def bus_ok_def)

lemma bus_close_chans:
  assumes "bus_ok b"
  shows "b_chans (snd (bus_close b)) = map chan_close (b_chans b)"
proof (cases "b_closed b")
  case True
  have "chan_close c = c" if "c \<in> set (b_chans b)" for c
    using assms True that by (simp add: bus_ok_def chan_close_def)
  with True show ?thesis by (simp add: bus_close_def map_idI)
next
  case False
  then have "map sb_ch (b_subs b) = [0..<length (b_chans b)]"
    using assms by (simp add: bus_ok_def)
  then have "sb_ch ` set (b_subs b) = {0..<length (b_chans b)}"
    by (metis list.set_map set_upt)
  then show ?thesis
    using False by (auto simp: bus_close_def Let_def close_subs_chan intro: nth_equalityI)
qed

lemma bus_close_simps [simp]:
  "b_closed (snd (bus_close b))" "fst (bus_close b) = ok_code"
  "b_responses (snd (bus_close b)) = b_responses b" "b_counters (snd (bus_close b)) = b_counters b"
  by (simp_all add: bus_close_def Let_def)

lemma bus_close_ok [bus_inv]:
  assumes "bus_ok b"
  shows "bus_ok (snd (bus_close b))"
proof -
  have "b_subs (snd (bus_close b)) = []" using assms by (simp add: bus_close_def bus_ok_def)
  then show ?thesis
    using assms bus_close_chans [OF assms] chan_ok_close
    by (auto simp: bus_ok_def) (auto simp: chan_close_def)
qed

lemma chan_step_ok: "chan_ok c \<Longrightarrow> chan_ok (chan_step x c)"
  using bchan.bound_step [of x c] bchan.bounded [of c x] by (simp add: chan_ok_def)

lemma client_chan_ok [bus_inv]:
  assumes "bus_ok b"
  shows "bus_ok (client_chan i x b)"
proof (cases "i < length (b_chans b)")
  case True
  then show ?thesis
    using assms unfolding client_chan_def
    by (intro set_chan_ok) (auto simp: bus_ok_def chan_step_ok chan_step_closed)
next
  case False
  then have "client_chan i x b = b" by (simp add: client_chan_def set_chan_def list_update_beyond)
  with assms show ?thesis by simp
qed

subsection \<open>Runs of the bus\<close>

text \<open>A call of the bus, or of a channel by the one who holds its pointer.\<close>

datatype bus_op =
    Publish u8 bytes
  | PublishClassic u8 bytes
  | SendHeader u8
  | Subscribe "filter_rule list" "subscriber_option list"
  | SetSchedule "schedule_entry list"
  | CloseBus
  | Client nat "frame chan_op"

fun bus_step :: "bus_op \<Rightarrow> bus \<Rightarrow> bus outcome" where
  "bus_step (Publish i d) b = Ret (snd (publish i d b))"
| "bus_step (PublishClassic i d) b = Ret (snd (publish_classic i d b))"
| "bus_step (SendHeader i) b = obind (send_header i b) (\<lambda>(_, b'). Ret b')"
| "bus_step (Subscribe fs opts) b = Ret (snd (subscribe fs opts b))"
| "bus_step (SetSchedule es) b = Ret (snd (set_schedule es b))"
| "bus_step CloseBus b = Ret (snd (bus_close b))"
| "bus_step (Client i x) b = Ret (client_chan i x b)"

primrec bus_run :: "bus_op list \<Rightarrow> bus \<Rightarrow> bus outcome" where
  "bus_run [] b = Ret b"
| "bus_run (x # xs) b = obind (bus_step x b) (bus_run xs)"

lemma send_header_no_UB: "bus_ok b \<Longrightarrow> send_header i b \<noteq> UB"
  by (simp add: send_header_closed_form Let_def split: option.split)

lemma bus_step_ok: "bus_ok b \<Longrightarrow> bus_step x b = Ret b' \<Longrightarrow> bus_ok b'"
  by (cases x) (auto simp: obind_eqs intro: bus_inv)

lemma bus_step_no_UB: "bus_ok b \<Longrightarrow> bus_step x b \<noteq> UB"
  by (cases x) (auto simp: obind_eqs send_header_no_UB)

interpretation bus_calls: safe_machine bus_step bus_run bus_ok
  by unfold_locales (simp_all add: bus_step_ok)

lemmas bus_run_ok = bus_calls.run_good

lemma bus_run_no_UB: "bus_ok b \<Longrightarrow> bus_run xs b \<noteq> UB"
  by (induction xs arbitrary: b) (auto simp: obind_eqs bus_step_no_UB dest: bus_step_ok)

subsection \<open>What calls leave alone\<close>

definition touches :: "u8 \<Rightarrow> bus_op \<Rightarrow> bool" where
  "touches i x = (case x of Publish j _ \<Rightarrow> j = i | PublishClassic j _ \<Rightarrow> j = i | CloseBus \<Rightarrow> True | _ \<Rightarrow> False)"

lemma client_chan_simps [simp]:
  "b_responses (client_chan i x b) = b_responses b" "b_subs (client_chan i x b) = b_subs b"
  "b_closed (client_chan i x b) = b_closed b"
  by (simp_all add: client_chan_def)

lemma call_simps [simp]:
  "b_closed (snd (publish i d b)) = b_closed b" "b_closed (snd (publish_classic i d b)) = b_closed b"
  "b_closed (snd (subscribe fs opts b)) = b_closed b" "b_closed (snd (set_schedule es b)) = b_closed b"
  "b_responses (snd (subscribe fs opts b)) = b_responses b" "b_responses (snd (set_schedule es b)) = b_responses b"
  "b_subs (snd (publish i d b)) = b_subs b" "b_subs (snd (publish_classic i d b)) = b_subs b"
  "b_subs (snd (set_schedule es b)) = b_subs b"
  by (simp_all add: publish_def publish_classic_def do_publish_def subscribe_def set_schedule_def Let_def)

lemma publish_other [simp]:
  "j \<noteq> i \<Longrightarrow> b_responses (snd (publish j d b)) i = b_responses b i"
  "j \<noteq> i \<Longrightarrow> b_responses (snd (publish_classic j d b)) i = b_responses b i"
  by (simp_all add: publish_def publish_classic_def do_publish_def Let_def)

lemma send_header_responses:
  "bus_ok b \<Longrightarrow> send_header i b = Ret (r, b') \<Longrightarrow>
    b_responses b' = b_responses b \<and> b_closed b' = b_closed b \<and> b_subs b' = b_subs b"
  by (auto simp: send_header_closed_form Let_def split: if_splits option.splits)

lemma bus_step_untouched:
  assumes "bus_ok b" "bus_step x b = Ret b'" "\<not> touches i x"
  shows "b_responses b' i = b_responses b i \<and> b_closed b' = b_closed b"
  using assms by (cases x) (auto simp: touches_def obind_eqs send_header_responses)

lemma bus_run_untouched:
  "bus_ok b \<Longrightarrow> bus_run xs b = Ret b' \<Longrightarrow> \<forall>x\<in>set xs. \<not> touches i x \<Longrightarrow>
    b_responses b' i = b_responses b i \<and> b_closed b' = b_closed b"
proof (induction xs arbitrary: b)
  case (Cons x xs)
  then obtain b1 where b1: "bus_step x b = Ret b1" "bus_run xs b1 = Ret b'" by (auto simp: obind_eqs)
  have "\<not> touches i x" "\<forall>x\<in>set xs. \<not> touches i x" using Cons.prems(3) by simp_all
  then show ?case
    using Cons.IH [OF bus_step_ok [OF Cons.prems(1) b1(1)] b1(2)] bus_step_untouched [OF Cons.prems(1) b1(1)]
    by simp
qed simp

lemma publish_answers:
  "\<not> b_closed b \<Longrightarrow> i \<le> kLINMaxID \<Longrightarrow> data \<noteq> [] \<Longrightarrow>
    b_responses (snd (publish i data b)) i =
      Some \<lparr>re_data = data, re_checksum_type = (if is_diag i then Classic else Enhanced)\<rparr> \<and>
    \<not> b_closed (snd (publish i data b))"
  by (simp add: publish_def do_publish_def Let_def is_diag_def not_less [symmetric])

text \<open>Calls that cannot wait.\<close>

definition may_wait :: "bus_op \<Rightarrow> bool" where
  "may_wait x = (case x of Subscribe fs opts \<Rightarrow> back_pressure (apply_options opts) = Block | _ \<Rightarrow> False)"

definition no_block_subs :: "bus \<Rightarrow> bool" where
  "no_block_subs b \<longleftrightarrow> (\<forall>s\<in>set (b_subs b). sb_policy s \<noteq> Block)"

lemma send_header_returns:
  assumes "bus_ok b" "no_block_subs b"
  obtains r b' where "send_header i b = Ret (r, b')" "no_block_subs b'"
proof -
  have "send_header i b \<noteq> Blocks"
    using assms
    by (auto simp: send_header_closed_form must_wait_def no_block_subs_def Let_def split: option.split)
  moreover have "no_block_subs b'" if "send_header i b = Ret (r, b')" for r b'
    using send_header_responses [OF assms(1) that] assms(2) by (simp add: no_block_subs_def)
  ultimately show thesis
    using that send_header_no_UB [OF assms(1), of i] by (cases "send_header i b") auto
qed

lemma bus_step_returns:
  assumes "bus_ok b" "no_block_subs b" "\<not> may_wait x"
  shows "\<exists>b'. bus_step x b = Ret b' \<and> bus_ok b' \<and> no_block_subs b'"
proof -
  have "\<exists>b'. bus_step x b = Ret b' \<and> no_block_subs b'"
  proof (cases x)
    case (SendHeader i)
    obtain r b' where "send_header i b = Ret (r, b')" "no_block_subs b'"
      by (rule send_header_returns [OF assms(1,2), of i])
    with SendHeader show ?thesis by auto
  next
    case CloseBus
    then show ?thesis using assms(2) by (simp add: bus_close_def no_block_subs_def)
  next
    case (Subscribe fs opts)
    then show ?thesis
      using assms(2,3) by (auto simp: subscribe_def may_wait_def no_block_subs_def Let_def)
  qed (use assms(2) in \<open>simp_all add: no_block_subs_def\<close>)
  with assms(1) show ?thesis by (blast intro: bus_step_ok)
qed

lemma bus_run_returns:
  "bus_ok b \<Longrightarrow> no_block_subs b \<Longrightarrow> \<forall>x\<in>set xs. \<not> may_wait x \<Longrightarrow> \<exists>b'. bus_run xs b = Ret b'"
proof (induction xs arbitrary: b)
  case (Cons x xs)
  then obtain b1 where "bus_step x b = Ret b1" "bus_ok b1" "no_block_subs b1"
    using bus_step_returns [of b x] by auto
  with Cons show ?case by auto
qed simp

lemma bus_closed_step:
  assumes "bus_ok b" "b_closed b"
  shows "\<exists>b'. bus_step x b = Ret b' \<and> bus_ok b' \<and> b_closed b'"
proof -
  have "no_block_subs b" using assms by (simp add: bus_ok_def no_block_subs_def)
  then have *: "\<exists>b'. bus_step x b = Ret b'" if "\<not> may_wait x"
    using bus_step_returns [OF assms(1) _ that] by blast
  have "\<exists>b'. bus_step x b = Ret b'"
    using * by (cases x) (simp_all add: may_wait_def)
  then obtain b' where b': "bus_step x b = Ret b'" by blast
  then have "b_closed b'"
    using assms by (cases x) (auto simp: obind_eqs send_header_responses)
  with b' show ?thesis using bus_step_ok [OF assms(1)] by blast
qed

lemma bus_closed_run:
  "bus_ok b \<Longrightarrow> b_closed b \<Longrightarrow> \<exists>b'. bus_run xs b = Ret b' \<and> bus_ok b' \<and> b_closed b'"
proof (induction xs arbitrary: b)
  case (Cons x xs)
  then obtain b1 where "bus_step x b = Ret b1" "bus_ok b1" "b_closed b1"
    using bus_closed_step [of b x] by blast
  with Cons show ?case by auto
qed simp

subsection \<open>The bus as a provider of the interfaces\<close>

definition bus_responses :: "bus \<Rightarrow> u8 \<rightharpoonup> bytes \<times> checksum_type" where
  "bus_responses b = (\<lambda>i. map_option (\<lambda>e. (re_data e, re_checksum_type e)) (b_responses b i))"

definition bus_open :: "bus \<Rightarrow> bool" where
  "bus_open b \<longleftrightarrow> \<not> b_closed b"

lemma do_publish_contract:
  "fst (do_publish i d ct b) = ok_code \<longleftrightarrow> i \<le> kLINMaxID \<and> bus_open b"
  "fst (do_publish i d ct b) \<noteq> ok_code \<Longrightarrow> is_error (fst (do_publish i d ct b))"
  "bus_open (snd (do_publish i d ct b)) = bus_open b"
  "bus_responses (snd (do_publish i d ct b)) =
    (if fst (do_publish i d ct b) = ok_code then (bus_responses b)(i := registered i d ct)
     else bus_responses b)"
  by (cases "kLINMaxID < i"; cases "b_closed b"; force simp: do_publish_def Let_def bus_open_def
      bus_responses_def registered_def is_diag_def not_le [symmetric])+



interpretation vbus: imaster_bus publish publish_classic bus_responses bus_open bus_ok send_header
proof unfold_locales
  fix b b' :: bus and i :: u8 and f e d ct r
  assume ok: "bus_ok b"
  show "send_header i b \<noteq> UB" using ok by (rule send_header_no_UB)
  show "bus_ok b' \<and> bus_open b' = bus_open b \<and> bus_responses b' = bus_responses b"
    if "send_header i b = Ret (r, b')"
    using send_header_responses [OF ok that] send_header_ok [OF ok that]
    by (simp add: bus_open_def bus_responses_def)
  assume h: "send_header i b = Ret ((f, e), b')"
  have "b_responses b i = None" if "kLINMaxID < i"
    using ok that by (cases "b_responses b i") (auto simp: bus_ok_def responses_ok_def dest: leD)
  then show "is_error e \<longleftrightarrow> \<not> bus_open b \<or> bus_responses b i = None"
    using h by (auto simp: send_header_closed_form [OF ok] bus_open_def bus_responses_def Let_def
        split: if_splits option.splits)
  assume "\<not> is_error e" "bus_responses b i = Some (d, ct)"
  then show "f = answer_frame i d ct"
    using h by (auto simp: send_header_closed_form [OF ok] bus_responses_def Let_def response_frame_def
        answer_frame_def split: if_splits option.splits)
qed (simp_all add: publish_def publish_classic_def do_publish_contract bus_inv)

end
