(* ===== verification/BusProperties.thy ===== *)
theory BusProperties
  imports VirtualBus
begin

text \<open>
  What the in-process bus promises, over the definitions of \<open>VirtualBus\<close>: safety of every run, the
  answers to headers, delivery to each subscriber, the counters, and closing.
\<close>

subsection \<open>Safety of runs\<close>

text \<open>No run of the bus goes wrong. Whatever calls are made on a new bus and on the channels it hands
  out, none is undefined; the responses always have identifiers of six bits, non-empty data, and
  the classic checksum on the diagnostic identifiers; every channel stays within its capacity;
  and a closed bus has no subscribers and no open channel.\<close>

theorem bus_runs_safe:
  "bus_run ops new_bus \<noteq> UB \<and>
   (bus_run ops new_bus = Ret b \<longrightarrow>
      (\<forall>i e. b_responses b i = Some e \<longrightarrow>
         i \<le> 0x3F \<and> re_data e \<noteq> [] \<and> (i = 0x3C \<or> i = 0x3D \<longrightarrow> re_checksum_type e = Classic)) \<and>
      (\<forall>c\<in>set (b_chans b). length (ch_buf c) \<le> ch_capacity c \<and> 0 < ch_capacity c) \<and>
      (b_closed b \<longrightarrow> b_subs b = [] \<and> (\<forall>c\<in>set (b_chans b). ch_closed c)))"
proof (intro conjI impI)
  show "bus_run ops new_bus \<noteq> UB" by (rule bus_run_no_UB [OF bus_ok_new])
  assume "bus_run ops new_bus = Ret b"
  then have ok: "bus_ok b" by (rule bus_run_ok [OF bus_ok_new])
  then show "\<forall>i e. b_responses b i = Some e \<longrightarrow>
      i \<le> 0x3F \<and> re_data e \<noteq> [] \<and> (i = 0x3C \<or> i = 0x3D \<longrightarrow> re_checksum_type e = Classic)"
    by (simp add: bus_ok_def responses_ok_def is_diag_def lin_consts)
  show "\<forall>c\<in>set (b_chans b). length (ch_buf c) \<le> ch_capacity c \<and> 0 < ch_capacity c"
    using ok by (simp add: bus_ok_def chan_ok_def)
  assume "b_closed b"
  with ok show "b_subs b = []" "\<forall>c\<in>set (b_chans b). ch_closed c"
    by (simp_all add: bus_ok_def)
qed

theorem bus_runs_safe_witness:
  "\<exists>b. bus_run [Publish 0x3C [1, 2], CloseBus] new_bus = Ret b \<and> b_closed b \<and> b_subs b = []"
proof -
  obtain b where b: "bus_run [Publish 0x3C [1, 2], CloseBus] new_bus = Ret b" by simp
  then have "b_closed b" by auto
  then show ?thesis
    using b bus_runs_safe [of "[Publish 0x3C [1, 2], CloseBus]" b] by blast
qed

text \<open>Without blocking subscribers the bus never waits. Any run on a new bus in which no subscription
  asks for the \<open>Block\<close> policy returns, however full the channels get.\<close>

theorem bus_runs_return:
  assumes "\<forall>x\<in>set ops. \<forall>fs opts. x = Subscribe fs opts \<longrightarrow> back_pressure (apply_options opts) \<noteq> Block"
  shows "\<exists>b. bus_run ops new_bus = Ret b"
proof (rule bus_run_returns [OF bus_ok_new])
  show "no_block_subs new_bus" by (simp add: no_block_subs_def new_bus_def)
  show "\<forall>x\<in>set ops. \<not> may_wait x" using assms by (auto simp: may_wait_def split: bus_op.splits)
qed

theorem bus_runs_return_witness:
  "\<exists>b. bus_run [Publish 5 [1], Subscribe [] [with_channel_depth 1], SendHeader 5, SendHeader 5] new_bus = Ret b"
  by (rule bus_runs_return)
     (simp add: apply_options_def with_channel_depth_def default_config_def)

subsection \<open>Answers to headers\<close>

text \<open>C1: a published response is what a header gets. After \<open>publish\<close> on an open bus, and any calls that
  neither publish the same identifier nor close the bus, a header that returns gets that data under
  that identifier, with the enhanced checksum (classic on the diagnostic identifiers) that
  verifies against the protected identifier; and the frame is valid exactly when at most eight
  bytes were published, since \<open>publish\<close> does not limit them.\<close>

theorem published_is_answered:
  assumes "bus_ok b" and "\<not> b_closed b" and "i \<le> kLINMaxID" and "data \<noteq> []"
    and "bus_run ops (snd (publish i data b)) = Ret b'" and "\<forall>x\<in>set ops. \<not> touches i x"
    and "send_header i b' = Ret ((f, e), b'')"
  shows "e = ok_code \<and> f_id f = i \<and> f_data f = data \<and>
    f_checksum_type f = (if i = 0x3C \<or> i = 0x3D then Classic else Enhanced) \<and>
    verify_checksum (protect_id i) data (f_checksum f) (f_checksum_type f) \<and>
    (validate_frame f = Inr () \<longleftrightarrow> length data \<le> 8)"
proof -
  define re where "re = \<lparr>re_data = data, re_checksum_type = (if is_diag i then Classic else Enhanced)\<rparr>"
  let ?b = "snd (publish i data b)"
  have p: "b_responses ?b i = Some re" "\<not> b_closed ?b"
    using publish_answers [OF assms(2-4)] by (simp_all add: re_def)
  have ok: "bus_ok ?b" "bus_ok b'"
    using publish_ok(1) [OF assms(1)] bus_run_ok [OF _ assms(5)] by simp_all
  have "b_responses b' i = Some re" "\<not> b_closed b'"
    using bus_run_untouched [OF ok(1) assms(5,6)] p by simp_all
  then have "e = ok_code \<and> f = response_frame i re"
    using assms(3,7) by (auto simp: send_header_closed_form [OF ok(2)] Let_def split: if_splits)
  moreover have "validate_frame (response_frame i re) = Inr () \<longleftrightarrow> length data \<le> 8"
    using assms(3,4) by (auto simp: validate_frame_ok valid_frame_def response_frame_def re_def kLINMaxDataLen_def Suc_le_eq)
  ultimately show ?thesis
    by (simp add: response_frame_def re_def verify_checksum_def is_diag_def lin_consts)
qed

theorem published_is_answered_witness:
  "\<exists>f b''. send_header 5 (snd (publish 5 [1, 2] new_bus)) = Ret ((f, ok_code), b'') \<and>
     f_data f = [1, 2] \<and> validate_frame f = Inr ()"
proof -
  let ?b = "snd (publish 5 [1, 2] new_bus)"
  have nb: "\<not> b_closed new_bus" by (simp add: new_bus_def)
  have id: "5 \<le> kLINMaxID" by (simp add: kLINMaxID_def)
  have "bus_ok ?b" "no_block_subs ?b"
    by (simp_all add: bus_inv) (simp add: no_block_subs_def new_bus_def)
  then obtain r b'' where h: "send_header 5 ?b = Ret (r, b'')"
    by (rule send_header_returns)
  obtain f e where r: "r = (f, e)" by (cases r)
  have "bus_run [] ?b = Ret ?b" by simp
  from published_is_answered [OF bus_ok_new nb id _ this, of f e b''] h
  show ?thesis by (simp add: r)
qed

text \<open>The errors of a header. A header fails exactly when the identifier exceeds 0x3F, the bus is
  closed, or no response is registered, tested in that order; a failed header returns the
  default frame, counts one error and changes nothing else, in particular no subscriber's channel.\<close>

theorem send_header_errors:
  assumes "bus_ok b" and "send_header i b = Ret ((f, e), b')"
  shows "(e = lin_make_error_code invalid_frame \<longleftrightarrow> i > 0x3F) \<and>
    (e = ErrClosed \<longleftrightarrow> i \<le> 0x3F \<and> b_closed b) \<and>
    (e = lin_make_error_code no_response \<longleftrightarrow> i \<le> 0x3F \<and> \<not> b_closed b \<and> b_responses b i = None) \<and>
    (e = ok_code \<longleftrightarrow> i \<le> 0x3F \<and> \<not> b_closed b \<and> b_responses b i \<noteq> None) \<and>
    (e \<noteq> ok_code \<longrightarrow> f = default_frame \<and> b' = count_error b)"
  using assms
  by (cases "i > kLINMaxID"; cases "b_closed b"; cases "b_responses b i")
    (auto simp: send_header_closed_form Let_def kLINMaxID_def not_le not_less lin_make_error_code_inj
      dest: leD split: if_splits)

theorem send_header_errors_witness:
  "send_header 0x40 new_bus = Ret ((default_frame, lin_make_error_code invalid_frame), count_error new_bus)"
proof -
  have "no_block_subs new_bus" by (simp add: no_block_subs_def new_bus_def)
  with bus_ok_new obtain r b' where h: "send_header 0x40 new_bus = Ret (r, b')"
    by (rule send_header_returns)
  obtain f e where r: "r = (f, e)" by (cases r)
  show ?thesis using send_header_errors [OF bus_ok_new h [unfolded r]] h by (simp add: r)
qed

subsection \<open>Delivery\<close>

lemma send_header_success:
  assumes "bus_ok b" "send_header i b = Ret ((f, ok_code), b')"
  shows "b' = fold (delivered f) (b_subs b) (count_written f b)"
    and "\<forall>s\<in>set (b_subs b). \<not> must_wait f s (b_chans b ! sb_ch s)"
  using assms by (auto simp: send_header_closed_form Let_def split: if_splits option.splits)

text \<open>What a frame does to each subscriber, whatever the others are and do. A subscriber whose filters
  do not match, or whose channel is closed, sees nothing; one with room gets the frame at the
  back of its channel; a full channel keeps what it has under \<open>DropNewest\<close>, and loses its oldest
  frame for the new one under \<open>DropOldest\<close>. Capacity and closed flag never change.\<close>

theorem delivery_per_subscriber:
  assumes "bus_ok b" and "send_header i b = Ret ((f, ok_code), b')" and "s \<in> set (b_subs b)"
    and "c = b_chans b ! sb_ch s"
  shows "b_chans b' ! sb_ch s =
    (if (sb_filters s \<noteq> [] \<and> (\<forall>fl\<in>set (sb_filters s). \<not> fl_all fl \<and> fl_id fl \<noteq> i)) \<or> ch_closed c then c
     else if length (ch_buf c) < ch_capacity c then c\<lparr>ch_buf := ch_buf c @ [f]\<rparr>
     else if sb_policy s = DropOldest then c\<lparr>ch_buf := tl (ch_buf c) @ [f]\<rparr>
     else c)
    \<and> (sb_policy s = Block \<longrightarrow> length (ch_buf c) < ch_capacity c \<or> ch_closed c
         \<or> \<not> matches_any (sb_filters s) f)"
proof -
  have subs: "subs_ok (b_subs b) (b_chans (count_written f b))"
    using bus_ok_subs [OF assms(1)] by simp
  have i: "f_id f = i"
    using assms(1,2) by (auto simp: send_header_closed_form response_frame_def Let_def split: if_splits option.splits)
  have "b_chans b' ! sb_ch s = chan_after f s c"
    using fold_delivered_chan [OF subs assms(3)] send_header_success(1) [OF assms(1,2)] assms(4) by simp
  moreover have "matches_any (sb_filters s) f \<longleftrightarrow>
      \<not> (sb_filters s \<noteq> [] \<and> (\<forall>fl\<in>set (sb_filters s). \<not> fl_all fl \<and> fl_id fl \<noteq> i))"
    by (auto simp: matches_any_def filter_matches_def list_ex_iff i)
  moreover have "\<not> must_wait f s c" using send_header_success(2) [OF assms(1,2)] assms(3,4) by blast
  ultimately show ?thesis
    by (auto simp: chan_after_def offered_def chan_push_def chan_size_def must_wait_def)
qed

definition demo_bus :: bus where
  "demo_bus = snd (publish 5 [7] (snd (subscribe [] [] new_bus)))"

lemma demo_bus_facts:
  "bus_ok demo_bus" "no_block_subs demo_bus" "b_subs demo_bus = [\<lparr>sb_filters = [], sb_ch = 0, sb_policy = DropNewest\<rparr>]"
  "b_chans demo_bus = [new_chan 64]" "\<not> b_closed demo_bus" "b_responses demo_bus 5 \<noteq> None"
proof -
  show "bus_ok demo_bus" by (simp add: demo_bus_def bus_inv)
  show s: "b_subs demo_bus = [\<lparr>sb_filters = [], sb_ch = 0, sb_policy = DropNewest\<rparr>]"
    by (simp add: demo_bus_def subscribe_def new_bus_def Let_def apply_options_def default_config_def)
  then show "no_block_subs demo_bus" by (simp add: no_block_subs_def)
  show "b_chans demo_bus = [new_chan 64]" "\<not> b_closed demo_bus" "b_responses demo_bus 5 \<noteq> None"
    by (simp_all add: demo_bus_def subscribe_def publish_def do_publish_def new_bus_def Let_def
        apply_options_def default_config_def effective_depth_def kDefaultChanDepth_def kLINMaxID_def
        kLINDiagRequestID_def kLINDiagResponseID_def)
qed

lemma demo_header:
  obtains f b' where "send_header 5 demo_bus = Ret ((f, ok_code), b')"
  using demo_bus_facts
  by (auto simp: send_header_closed_form kLINMaxID_def must_wait_def Let_def)

theorem delivery_per_subscriber_witness:
  "\<exists>f b'. send_header 5 demo_bus = Ret ((f, ok_code), b') \<and> ch_buf (b_chans b' ! 0) = [f]"
proof -
  obtain f b' where h: "send_header 5 demo_bus = Ret ((f, ok_code), b')" by (rule demo_header)
  show ?thesis
    using h delivery_per_subscriber [OF demo_bus_facts(1) h, of "\<lparr>sb_filters = [], sb_ch = 0, sb_policy = DropNewest\<rparr>"]
    by (simp add: demo_bus_facts new_chan_def)
qed

subsection \<open>Counters\<close>

definition takes_frame :: "frame \<Rightarrow> bus \<Rightarrow> subscription \<Rightarrow> bool" where
  "takes_frame f b s \<longleftrightarrow> (let c = b_chans b ! sb_ch s
     in matches_any (sb_filters s) f \<and>
        (sb_policy s = Block \<or> \<not> ch_closed c \<and> chan_size c < ch_capacity c))"

definition loses_frame :: "frame \<Rightarrow> bus \<Rightarrow> subscription \<Rightarrow> bool" where
  "loses_frame f b s \<longleftrightarrow> (let c = b_chans b ! sb_ch s
     in matches_any (sb_filters s) f \<and> sb_policy s \<noteq> Block \<and> \<not> ch_closed c \<and> ch_capacity c \<le> chan_size c)"

lemma counters_after_cases:
  "counters_after f s (b_chans b ! sb_ch s) m =
    (if takes_frame f b s then
       m\<lparr>deliver_count := deliver_count m + 1,
         bytes_delivered := bytes_delivered m + of_nat (length (f_data f))\<rparr>
     else if loses_frame f b s then m\<lparr>drop_count := drop_count m + 1\<rparr>
     else m)"
  by (auto simp: counters_after_def takes_frame_def loses_frame_def Let_def)

lemma takes_not_loses: "takes_frame f b s \<Longrightarrow> \<not> loses_frame f b s"
  by (auto simp: takes_frame_def loses_frame_def Let_def)

lemma fold_counters:
  "fold (\<lambda>s. counters_after f s (b_chans b ! sb_ch s)) ss m = m
    \<lparr>deliver_count := deliver_count m + of_nat (length (filter (takes_frame f b) ss)),
     bytes_delivered := bytes_delivered m + of_nat (length (filter (takes_frame f b) ss)) * of_nat (length (f_data f)),
     drop_count := drop_count m + of_nat (length (filter (loses_frame f b) ss))\<rparr>"
proof (induction ss arbitrary: m)
  case (Cons s ss)
  show ?case
    unfolding fold_Cons comp_apply Cons.IH
    using takes_not_loses [of f b s] by (simp add: counters_after_cases distrib_right)
qed simp

lemma takes_or_loses:
  "\<not> ch_closed (b_chans b ! sb_ch s) \<Longrightarrow> takes_frame f b s \<or> loses_frame f b s \<longleftrightarrow> matches_any (sb_filters s) f"
  by (auto simp: takes_frame_def loses_frame_def Let_def)

lemma length_filter_partition:
  "(\<And>x. x \<in> set xs \<Longrightarrow> P x \<longleftrightarrow> \<not> Q x \<and> R x) \<Longrightarrow> (\<And>x. x \<in> set xs \<Longrightarrow> Q x \<Longrightarrow> R x) \<Longrightarrow>
   length (filter P xs) + length (filter Q xs) = length (filter R xs)"
  by (induction xs) auto

text \<open>C31: the books of a header. When all channels are open, every subscriber whose filters match is counted
  exactly once, as a delivery or as a drop, and the bytes delivered are the deliveries times the
  frame's length; one write with the frame's bytes is counted, and no error. All counters wrap at
  $2^{64}$.\<close>

theorem header_accounting:
  assumes "bus_ok b" and "send_header i b = Ret ((f, ok_code), b')"
    and "\<forall>c\<in>set (b_chans b). \<not> ch_closed c"
  shows "(let m = bus_metrics b; m' = bus_metrics b';
              sent = deliver_count m' - deliver_count m; lost = drop_count m' - drop_count m
          in sent + lost = of_nat (length (filter (\<lambda>s. matches_any (sb_filters s) f) (b_subs b))) \<and>
             bytes_delivered m' = bytes_delivered m + sent * of_nat (length (f_data f)) \<and>
             lost = of_nat (length (filter (loses_frame f b) (b_subs b))) \<and>
             write_count m' = write_count m + 1 \<and>
             bytes_written m' = bytes_written m + of_nat (length (f_data f)) \<and>
             error_count m' = error_count m)"
proof -
  have subs: "subs_ok (b_subs b) (b_chans b)" by (rule bus_ok_subs [OF assms(1)])
  have "length (filter (takes_frame f b) (b_subs b)) + length (filter (loses_frame f b) (b_subs b)) =
      length (filter (\<lambda>s. matches_any (sb_filters s) f) (b_subs b))"
    using assms(3) subs takes_or_loses takes_not_loses
    by (intro length_filter_partition) (fastforce simp: subs_ok_def)+
  then have sum: "of_nat (length (filter (takes_frame f b) (b_subs b))) +
      of_nat (length (filter (loses_frame f b) (b_subs b))) =
      (of_nat (length (filter (\<lambda>s. matches_any (sb_filters s) f) (b_subs b))) :: u64)"
    by (metis of_nat_add)
  have "b_counters b' = fold (\<lambda>s. counters_after f s (b_chans b ! sb_ch s)) (b_subs b) (b_counters (count_written f b))"
    using send_header_success(1) [OF assms(1,2)] fold_delivered_counters [of "b_subs b" "count_written f b" f] subs
    by simp
  then show ?thesis
    using sum by (simp add: fold_counters bus_metrics_def count_written_def Let_def)
qed

theorem header_accounting_witness:
  "\<exists>f b'. send_header 5 demo_bus = Ret ((f, ok_code), b') \<and>
     (deliver_count (bus_metrics b') - deliver_count (bus_metrics demo_bus)) +
     (drop_count (bus_metrics b') - drop_count (bus_metrics demo_bus)) = 1"
proof -
  obtain f b' where h: "send_header 5 demo_bus = Ret ((f, ok_code), b')" by (rule demo_header)
  have o: "\<forall>c\<in>set (b_chans demo_bus). \<not> ch_closed c" by (simp add: demo_bus_facts new_chan_def)
  have "(deliver_count (bus_metrics b') - deliver_count (bus_metrics demo_bus)) +
      (drop_count (bus_metrics b') - drop_count (bus_metrics demo_bus)) =
      of_nat (length (filter (\<lambda>s. matches_any (sb_filters s) f) (b_subs demo_bus)))"
    using header_accounting [OF demo_bus_facts(1) h o] unfolding Let_def by (rule conjunct1)
  then show ?thesis
    using h by (auto simp: demo_bus_facts(3) matches_any_def)
qed

subsection \<open>Closing\<close>

text \<open>Closing is final and idempotent. \<open>close\<close> always reports success and closes every channel ever
  handed out without touching its frames; and after any further calls on the bus or the channels
  (all of which return) the bus is still closed, publishing and headers with six-bit identifiers
  and subscribing fail with \<open>ErrClosed\<close> and count one error, \<open>set_schedule\<close> fails without
  counting one, and closing again changes nothing.\<close>

theorem bus_close_final:
  assumes "bus_ok b"
  shows "fst (bus_close b) = ok_code \<and>
    b_chans (snd (bus_close b)) = map (\<lambda>c. c\<lparr>ch_closed := True\<rparr>) (b_chans b) \<and>
    (\<exists>b'. bus_run ops (snd (bus_close b)) = Ret b' \<and>
       bus_close b' = (ok_code, b') \<and>
       bus_health b' = \<lparr>h_status = Down, h_details = ''bus closed''\<rparr> \<and>
       publish (i AND 0x3F) data b' = (ErrClosed, count_error b') \<and>
       send_header (i AND 0x3F) b' = Ret ((default_frame, ErrClosed), count_error b') \<and>
       subscribe fs opts b' = ((None, ErrClosed), count_error b') \<and>
       set_schedule es b' = (ErrClosed, b'))"
proof -
  have "bus_ok (snd (bus_close b))" using assms by (rule bus_inv)
  then obtain b' where b': "bus_run ops (snd (bus_close b)) = Ret b'" "bus_ok b'" "b_closed b'"
    using bus_closed_run [of "snd (bus_close b)" ops] by auto
  have "i AND 0x3F \<le> kLINMaxID" by (simp add: kLINMaxID_def u8_and_63_le)
  then have i: "\<not> kLINMaxID < i AND 0x3F" by (simp add: not_less)
  have "bus_close b' = (ok_code, b')"
    "bus_health b' = \<lparr>h_status = Down, h_details = ''bus closed''\<rparr>"
    "publish (i AND 0x3F) data b' = (ErrClosed, count_error b')"
    "send_header (i AND 0x3F) b' = Ret ((default_frame, ErrClosed), count_error b')"
    "subscribe fs opts b' = ((None, ErrClosed), count_error b')"
    "set_schedule es b' = (ErrClosed, b')"
    using b'(3) i
    by (simp_all add: bus_close_def bus_health_def publish_def do_publish_def send_header_def
        subscribe_def set_schedule_def Let_def)
  then show ?thesis
    using b'(1) bus_close_chans [OF assms] by (simp add: chan_close_def)
qed

theorem bus_close_final_witness:
  "\<exists>b'. bus_run [SendHeader 5, CloseBus, Client 0 Recv] (snd (bus_close demo_bus)) = Ret b' \<and>
     bus_close b' = (ok_code, b')"
  using bus_close_final [OF demo_bus_facts(1), of "[SendHeader 5, CloseBus, Client 0 Recv]"] by blast

end
