(* ===== verification/SlaveNode.thy ===== *)
theory SlaveNode
  imports BusProperties
begin

text \<open>
  The slave node \<open>lin::slave::Node\<close> of \<open>include/lin/slave/node.hpp\<close> and \<open>src/slave/node.cpp\<close>. The
  bus it stands on is reached through the functions it calls; the lemmas rest on the contract
  \<open>ibus\<close>, the properties on the in-process bus.
\<close>

subsection \<open>State and operations\<close>

record slave = sl_ids :: "u8 list"

definition new_slave :: slave where "new_slave = \<lparr>sl_ids = []\<rparr>"

text \<open>
  \<open>set_response\<close> calls \<open>publish\<close>, which has the bus's lock for itself, and then updates the list
  under the node's own lock; \<open>note_response\<close> is that second critical section.
\<close>

definition note_response :: "u8 \<Rightarrow> bytes \<Rightarrow> slave \<Rightarrow> slave" where
  "note_response i data s =
    (if data = [] then (if i \<in> set (sl_ids s) then s\<lparr>sl_ids := remove1 i (sl_ids s)\<rparr> else s)
     else (if i \<notin> set (sl_ids s) then s\<lparr>sl_ids := sl_ids s @ [i]\<rparr> else s))"

definition set_response ::
  "(u8 \<Rightarrow> bytes \<Rightarrow> 'b \<Rightarrow> error_code \<times> 'b) \<Rightarrow> u8 \<Rightarrow> bytes \<Rightarrow> 'b \<times> slave \<Rightarrow> error_code \<times> 'b \<times> slave" where
  "set_response pub i data bs =
    (let (b, s) = bs
     in if i > kLINMaxID then (lin_make_error_code invalid_frame, b, s)
        else
          let (err, b') = pub i data b
          in if is_error err then (err, b', s)
             else (ok_code, b', note_response i data s))"

definition slave_subscribe ::
  "(filter_rule list \<Rightarrow> subscriber_option list \<Rightarrow> 'b \<Rightarrow> (nat option \<times> error_code) \<times> 'b) \<Rightarrow>
   filter_rule list \<Rightarrow> subscriber_option list \<Rightarrow> 'b \<Rightarrow> (nat option \<times> error_code) \<times> 'b" where
  "slave_subscribe sub filters opts b = sub filters opts b"

definition registered_ids :: "slave \<Rightarrow> u8 list" where
  "registered_ids s = sl_ids s"

subsection \<open>On any bus that keeps the contract\<close>

lemma note_response_ids:
  "distinct (sl_ids s) \<Longrightarrow> distinct (sl_ids (note_response i d s)) \<and>
    set (sl_ids (note_response i d s)) = (if d = [] then set (sl_ids s) - {i} else insert i (set (sl_ids s)))"
  by (auto simp: note_response_def)

definition slave_agrees :: "(u8 \<rightharpoonup> 'x) \<Rightarrow> slave \<Rightarrow> bool" where
  "slave_agrees rs s \<longleftrightarrow> distinct (sl_ids s) \<and> set (sl_ids s) = dom rs"

context ibus begin

lemma set_response_result:
  assumes "inv b" "set_response pub i d (b, s) = (e, b', s')"
  shows "inv b'" "open_bus b' = open_bus b" "e = ok_code \<longleftrightarrow> i \<le> kLINMaxID \<and> open_bus b"
    "e \<noteq> ok_code \<Longrightarrow> s' = s \<and> responses b' = responses b"
    "e = ok_code \<Longrightarrow> s' = note_response i d s \<and> responses b' = (responses b)(i := registered i d Enhanced)"
proof -
  have "inv b' \<and> open_bus b' = open_bus b \<and> (e = ok_code \<longleftrightarrow> i \<le> kLINMaxID \<and> open_bus b) \<and>
      (e \<noteq> ok_code \<longrightarrow> s' = s \<and> responses b' = responses b) \<and>
      (e = ok_code \<longrightarrow> s' = note_response i d s \<and> responses b' = (responses b)(i := registered i d Enhanced))"
  proof (cases "i > kLINMaxID")
    case True
    then show ?thesis using assms by (auto simp: set_response_def not_less dest: leD)
  next
    case False
    obtain e1 b1 where p: "pub i d b = (e1, b1)" by (cases "pub i d b")
    then have "is_error e1 \<longleftrightarrow> e1 \<noteq> ok_code" using pub_error [of i d b] by auto
    then show ?thesis
      using assms False p pub_inv [OF assms(1), of i d] pub_open [of i d b] pub_ok [OF assms(1), of i d]
        pub_responses [OF assms(1), of i d]
      by (auto simp: set_response_def not_less split: if_splits)
  qed
  then show "inv b'" "open_bus b' = open_bus b" "e = ok_code \<longleftrightarrow> i \<le> kLINMaxID \<and> open_bus b"
    "e \<noteq> ok_code \<Longrightarrow> s' = s \<and> responses b' = responses b"
    "e = ok_code \<Longrightarrow> s' = note_response i d s \<and> responses b' = (responses b)(i := registered i d Enhanced)"
    by blast+
qed

lemma set_response_agrees:
  assumes "inv b" "slave_agrees (responses b) s" "set_response pub i d (b, s) = (e, b', s')"
  shows "inv b' \<and> slave_agrees (responses b') s'"
proof (cases "e = ok_code")
  case True
  then show ?thesis
    using set_response_result [OF assms(1,3)] assms(2) note_response_ids [of s i d]
    by (auto simp: slave_agrees_def registered_def)
next
  case False
  then show ?thesis using set_response_result [OF assms(1,3)] assms(2) by simp
qed

text \<open>Two calls for one identifier whose critical sections interleave.\<close>

lemma interleaved_calls:
  assumes "inv b" "open_bus b" "i \<le> kLINMaxID" "d \<noteq> []"
  shows "responses (snd (pub i [] (snd (pub i d b)))) i = None"
    and "i \<in> set (sl_ids (note_response i d (note_response i [] s)))"
  using assms by (simp_all add: pub_lookup pub_inv pub_open registered_def note_response_def)

end

subsection \<open>A node on the in-process bus\<close>

text \<open>Calls of one slave node, among calls that others make on its bus.\<close>

datatype slave_op = SetResponse u8 bytes | OnBus bus_op

fun slave_step :: "slave_op \<Rightarrow> bus \<times> slave \<Rightarrow> (bus \<times> slave) outcome" where
  "slave_step (SetResponse i d) (b, s) = Ret (snd (set_response publish i d (b, s)))"
| "slave_step (OnBus x) (b, s) = obind (bus_step x b) (\<lambda>b'. Ret (b', s))"

primrec slave_run :: "slave_op list \<Rightarrow> bus \<times> slave \<Rightarrow> (bus \<times> slave) outcome" where
  "slave_run [] bs = Ret bs"
| "slave_run (x # xs) bs = obind (slave_step x bs) (slave_run xs)"

fun publishes :: "slave_op \<Rightarrow> bool" where
  "publishes (OnBus (Publish i d)) = True"
| "publishes (OnBus (PublishClassic i d)) = True"
| "publishes _ = False"

lemma bus_step_responses:
  "bus_ok b \<Longrightarrow> bus_step x b = Ret b' \<Longrightarrow> \<not> publishes (OnBus x) \<Longrightarrow> bus_responses b' = bus_responses b"
  by (cases x) (auto simp: bus_responses_def obind_eqs send_header_responses)

lemma slave_step_agrees:
  assumes "bus_ok b" "slave_agrees (bus_responses b) s" "\<not> publishes x" "slave_step x (b, s) = Ret (b', s')"
  shows "bus_ok b' \<and> slave_agrees (bus_responses b') s'"
proof (cases x)
  case (SetResponse i d)
  obtain e where "set_response publish i d (b, s) = (e, b', s')"
    using assms(4) SetResponse by (cases "set_response publish i d (b, s)") auto
  then show ?thesis by (rule vbus.set_response_agrees [OF assms(1,2)])
next
  case (OnBus y)
  then show ?thesis
    using assms bus_step_ok [OF assms(1), of y b'] bus_step_responses [OF assms(1), of y b']
    by (auto simp: obind_eqs)
qed

interpretation slave_calls: machine slave_step slave_run
  by unfold_locales simp_all

lemma slave_run_agrees:
  assumes "bus_ok b" "slave_agrees (bus_responses b) s" "\<forall>x\<in>set xs. \<not> publishes x"
    and "slave_run xs (b, s) = Ret (b', s')"
  shows "bus_ok b' \<and> slave_agrees (bus_responses b') s'"
proof -
  define agrees where "agrees = (\<lambda>(b, s). bus_ok b \<and> slave_agrees (bus_responses b) s)"
  have "agrees (b', s')"
    by (rule slave_calls.run_invariant [where P = agrees, OF _ assms(4)])
      (use assms(1-3) in \<open>auto simp: agrees_def dest: slave_step_agrees\<close>)
  then show ?thesis by (simp add: agrees_def)
qed

subsection \<open>Properties\<close>

text \<open>C25: the list of registered identifiers is right. When a slave node is the only publisher of a bus,
  then after any calls of its \<open>set_response\<close>, mixed with any headers, subscriptions, channel
  operations and a close, its \<open>registered_ids\<close> has no duplicate and holds exactly the identifiers
  the bus has a response for; on an open bus a header succeeds exactly for those.\<close>

theorem registered_ids_exact:
  assumes "\<forall>x\<in>set xs. \<not> publishes x" and "slave_run xs (new_bus, new_slave) = Ret (b, s)"
    and "send_header i b = Ret ((f, e), b')" and "\<not> b_closed b"
  shows "distinct (registered_ids s) \<and> set (registered_ids s) = dom (b_responses b)
    \<and> (e = ok_code \<longleftrightarrow> i \<in> set (registered_ids s))"
proof -
  have "slave_agrees (bus_responses new_bus) new_slave"
    by (simp add: slave_agrees_def new_slave_def new_bus_def bus_responses_def dom_def)
  then have ok: "bus_ok b" and ag: "slave_agrees (bus_responses b) s"
    using slave_run_agrees [OF bus_ok_new _ assms(1,2)] by simp_all
  have ids: "distinct (sl_ids s)" "set (sl_ids s) = dom (b_responses b)"
    using ag by (simp_all add: slave_agrees_def bus_responses_def dom_def)
  have "i \<le> kLINMaxID" if "b_responses b i \<noteq> None"
    using ok that by (auto simp: bus_ok_def responses_ok_def)
  then have "e = ok_code \<longleftrightarrow> b_responses b i \<noteq> None"
    using assms(3,4) by (auto simp: send_header_closed_form [OF ok] Let_def dest: leD split: if_splits option.splits)
  then show ?thesis using ids by (auto simp: registered_ids_def)
qed

theorem registered_ids_exact_witness:
  "\<exists>b s f e b'. slave_run [SetResponse 5 [1], SetResponse 7 [2], SetResponse 5 []] (new_bus, new_slave) = Ret (b, s) \<and>
     send_header 7 b = Ret ((f, e), b') \<and> e = ok_code \<and> registered_ids s = [7]"
proof -
  let ?xs = "[SetResponse 5 [1], SetResponse 7 [2], SetResponse 5 []]"
  define b where "b = new_bus\<lparr>b_responses := [7 \<mapsto> \<lparr>re_data = [2], re_checksum_type = Enhanced\<rparr>]\<rparr>"
  define s where "s = \<lparr>sl_ids = [7]\<rparr>"
  have run: "slave_run ?xs (new_bus, new_slave) = Ret (b, s)" "b_subs b = []" "\<not> b_closed b" "registered_ids s = [7]"
    by (simp_all add: set_response_def publish_def do_publish_def new_bus_def new_slave_def b_def s_def
        note_response_def kLINMaxID_def kLINDiagRequestID_def kLINDiagResponseID_def registered_ids_def)
  have "slave_agrees (bus_responses new_bus) new_slave"
    by (simp add: slave_agrees_def new_slave_def new_bus_def bus_responses_def dom_def)
  then have "bus_ok b" using slave_run_agrees [OF bus_ok_new _ _ run(1)] by simp
  then obtain r b' where h: "send_header 7 b = Ret (r, b')"
    by (rule send_header_returns) (simp add: no_block_subs_def run(2))
  obtain f e where r: "r = (f, e)" by (cases r)
  have "\<forall>x\<in>set ?xs. \<not> publishes x" by simp
  from registered_ids_exact [OF this run(1) h [unfolded r] run(3)]
  have "e = ok_code" using run(4) by simp
  with run h r show ?thesis by blast
qed

text \<open>The outcome of \<open>set_response\<close>. It succeeds exactly for a six-bit identifier on an open bus; a
  failed call changes neither the list nor the responses; a successful one with data adds the
  identifier, at the end when it is new, and one without data removes it, and the others keep
  their order and their responses.\<close>

theorem set_response_outcome:
  assumes "bus_ok b" and "set_response publish i data (b, s) = (e, b', s')"
  shows "(e = ok_code \<longleftrightarrow> i \<le> 0x3F \<and> \<not> b_closed b) \<and>
    (e \<noteq> ok_code \<longrightarrow> registered_ids s' = registered_ids s \<and> b_responses b' = b_responses b) \<and>
    (e = ok_code \<longrightarrow>
       registered_ids s' =
         (if data = [] then remove1 i (registered_ids s)
          else if i \<in> set (registered_ids s) then registered_ids s else registered_ids s @ [i]) \<and>
       (\<forall>j. j \<noteq> i \<longrightarrow> b_responses b' j = b_responses b j) \<and>
       (b_responses b' i = None \<longleftrightarrow> data = []))"
proof -
  note r = vbus.set_response_result [OF assms]
  have eq: "b_responses b1 j = b_responses b2 j" if "bus_responses b1 j = bus_responses b2 j" for b1 b2 j
    using that by (cases "b_responses b1 j"; cases "b_responses b2 j") (auto simp: bus_responses_def)
  have "b_responses b' = b_responses b" if "e \<noteq> ok_code"
    using r(4) [OF that] by (intro ext eq) simp
  moreover have "b_responses b' j = b_responses b j" if "e = ok_code" "j \<noteq> i" for j
    using r(5) [OF that(1)] that(2) by (intro eq) simp
  moreover have "b_responses b' i = None \<longleftrightarrow> data = []" if "e = ok_code"
  proof -
    have "bus_responses b' i = registered i data Enhanced" using r(5) [OF that] by simp
    then show ?thesis by (auto simp: bus_responses_def registered_def split: if_splits)
  qed
  ultimately show ?thesis
    using r(3-5) by (auto simp: registered_ids_def note_response_def bus_open_def kLINMaxID_def remove1_idem)
qed

theorem set_response_outcome_witness:
  "\<exists>b s. set_response publish 5 [1] (new_bus, new_slave) = (ok_code, b, s) \<and> registered_ids s = [5]"
proof -
  obtain e b s where h: "set_response publish 5 [1] (new_bus, new_slave) = (e, b, s)"
    by (cases "set_response publish 5 [1] (new_bus, new_slave)")
  show ?thesis
    using h set_response_outcome [OF bus_ok_new h]
    by (simp add: new_bus_def new_slave_def registered_ids_def)
qed

text \<open>Two threads calling \<open>set_response\<close> for one identifier, one with data and one without, can leave
  the list wrong for good: when the calls to \<open>publish\<close> run in that order and the updates of the
  list in the other, the identifier stays listed but has no response.\<close>

theorem set_response_race:
  assumes "bus_ok b" and "\<not> b_closed b" and "i \<le> 0x3F" and "data \<noteq> []"
  shows "i \<in> set (registered_ids (note_response i data (note_response i [] s))) \<and>
    send_header i (snd (publish i [] (snd (publish i data b)))) =
      Ret ((default_frame, lin_make_error_code no_response),
           count_error (snd (publish i [] (snd (publish i data b)))))"
proof -
  let ?b = "snd (publish i [] (snd (publish i data b)))"
  have o: "bus_open b" "i \<le> kLINMaxID" using assms(2,3) by (simp_all add: bus_open_def kLINMaxID_def)
  have "bus_responses ?b i = None" using vbus.interleaved_calls(1) [OF assms(1) o assms(4)] .
  then have "b_responses ?b i = None" by (simp add: bus_responses_def)
  moreover have "i \<in> set (sl_ids (note_response i data (note_response i [] s)))"
    using vbus.interleaved_calls(2) [OF assms(1) o assms(4)] .
  ultimately show ?thesis
    using o assms(2) by (simp add: send_header_def registered_ids_def not_less [symmetric])
qed

theorem set_response_race_witness:
  "5 \<in> set (registered_ids (note_response 5 [1] (note_response 5 [] new_slave)))"
  using set_response_race [OF bus_ok_new, of 5 "[1]" new_slave] by (simp add: new_bus_def)

end
