(* ===== verification/MasterNode.thy ===== *)
theory MasterNode
  imports SlaveNode
begin

text \<open>
  The master node \<open>lin::master::Node\<close> of \<open>include/lin/master/node.hpp\<close> and
  \<open>src/master/node.cpp\<close>: its schedule and callbacks, single headers, and the loop of \<open>run\<close> as a
  machine with a program counter.

  Every turn of every loop of \<open>run\<close> begins with \<open>stop.load()\<close>, so a run is driven by a list of
  ticks, one per load: what other threads did to the bus since the last load, the value loaded,
  and the clock's reading that the code takes in that turn after the load, if it takes one.
\<close>

subsection \<open>State and operations\<close>

text \<open>The callbacks may act on the bus. An empty \<open>std::function\<close> is \<open>None\<close>.\<close>

record 'b master =
  ms_schedule :: "schedule_entry list"
  ms_on_frame :: "(frame \<Rightarrow> 'b \<Rightarrow> 'b) option"
  ms_on_error :: "(error_code \<Rightarrow> 'b \<Rightarrow> 'b) option"

definition new_master :: "'b master" where
  "new_master = \<lparr>ms_schedule = [], ms_on_frame = None, ms_on_error = None\<rparr>"

definition master_set_schedule :: "schedule_entry list \<Rightarrow> 'b master \<Rightarrow> error_code \<times> 'b master" where
  "master_set_schedule entries m =
    (if list_ex (\<lambda>e. se_id e > kLINMaxID) entries then (lin_make_error_code invalid_frame, m)
     else (ok_code, m\<lparr>ms_schedule := entries\<rparr>))"

definition on_frame :: "(frame \<Rightarrow> 'b \<Rightarrow> 'b) option \<Rightarrow> 'b master \<Rightarrow> 'b master" where
  "on_frame fn m = m\<lparr>ms_on_frame := fn\<rparr>"

definition on_error :: "(error_code \<Rightarrow> 'b \<Rightarrow> 'b) option \<Rightarrow> 'b master \<Rightarrow> 'b master" where
  "on_error fn m = m\<lparr>ms_on_error := fn\<rparr>"

definition master_send_header ::
  "(u8 \<Rightarrow> 'b \<Rightarrow> ((frame \<times> error_code) \<times> 'b) outcome) \<Rightarrow> u8 \<Rightarrow> 'b \<Rightarrow> ((frame \<times> error_code) \<times> 'b) outcome" where
  "master_send_header header i b = header i b"

subsection \<open>The loop of \<open>run\<close>\<close>

text \<open>
  Where \<open>run\<close> is, before its next \<open>stop.load()\<close>: at the outer \<open>while\<close>, at the test that begins a
  slot (with the slots of this round still to do), or in the waiting loop of a slot until a
  deadline (with the slots after it).
\<close>

datatype master_pc =
    AtWhile
  | AtSlot "schedule_entry list"
  | Waiting int "schedule_entry list"
  | Returned error_code

record 'b tick =
  tk_others :: "'b \<Rightarrow> 'b"
  tk_stop :: bool
  tk_now :: int

text \<open>One header the loop has sent: its slot, when, and what came back.\<close>

record exchange =
  ex_slot :: schedule_entry
  ex_time :: int
  ex_frame :: frame
  ex_error :: error_code

record 'b master_run =
  mr_pc :: master_pc
  mr_bus :: 'b
  mr_log :: "exchange list"

definition run_start :: "'b master \<Rightarrow> 'b \<Rightarrow> 'b master_run" where
  "run_start m b =
    \<lparr>mr_pc = (if ms_schedule m = [] then Returned ok_code else AtWhile), mr_bus = b, mr_log = []\<rparr>"

text \<open>Falling out of a slot: the next slot of the round, or the outer loop.\<close>

definition next_slot :: "schedule_entry list \<Rightarrow> master_pc" where
  "next_slot ss = (if ss = [] then AtWhile else AtSlot ss)"

definition callback :: "'b master \<Rightarrow> frame \<Rightarrow> error_code \<Rightarrow> 'b \<Rightarrow> 'b" where
  "callback m f err b =
    (if is_error err then (case ms_on_error m of None \<Rightarrow> b | Some fn \<Rightarrow> fn err b)
     else (case ms_on_frame m of None \<Rightarrow> b | Some fn \<Rightarrow> fn f b))"

definition run_step ::
  "(u8 \<Rightarrow> 'b \<Rightarrow> ((frame \<times> error_code) \<times> 'b) outcome) \<Rightarrow> 'b master \<Rightarrow> 'b tick \<Rightarrow> 'b master_run
   \<Rightarrow> 'b master_run outcome" where
  "run_step header m t r =
    (let b = tk_others t (mr_bus r)
     in case mr_pc r of
       Returned e \<Rightarrow> Ret (r\<lparr>mr_bus := b\<rparr>)
     | AtWhile \<Rightarrow>
         Ret (r\<lparr>mr_bus := b, mr_pc := (if tk_stop t then Returned ok_code else next_slot (ms_schedule m))\<rparr>)
     | AtSlot [] \<Rightarrow> Ret (r\<lparr>mr_bus := b, mr_pc := AtWhile\<rparr>)
     | AtSlot (slot # ss) \<Rightarrow>
         if tk_stop t then Ret (r\<lparr>mr_bus := b, mr_pc := Returned ok_code\<rparr>)
         else obind (header (se_id slot) b) (\<lambda>((f, err), b').
           let b'' = callback m f err b'
           in Ret (r\<lparr>mr_bus := b'',
                mr_log := mr_log r @ [\<lparr>ex_slot = slot, ex_time = tk_now t, ex_frame = f, ex_error = err\<rparr>],
                mr_pc := (if se_delay_ms slot > 0
                          then Waiting (tk_now t + int (unat (se_delay_ms slot)) * 1000000) ss
                          else next_slot ss)\<rparr>))
     | Waiting deadline ss \<Rightarrow>
         Ret (r\<lparr>mr_bus := b, mr_pc := (if \<not> tk_stop t \<and> tk_now t < deadline then Waiting deadline ss
                                    else next_slot ss)\<rparr>))"

primrec run_ticks ::
  "(u8 \<Rightarrow> 'b \<Rightarrow> ((frame \<times> error_code) \<times> 'b) outcome) \<Rightarrow> 'b master \<Rightarrow> 'b tick list \<Rightarrow> 'b master_run
   \<Rightarrow> 'b master_run outcome" where
  "run_ticks header m [] r = Ret r"
| "run_ticks header m (t # ts) r = obind (run_step header m t r) (run_ticks header m ts)"

definition run_slots :: "'b master_run \<Rightarrow> schedule_entry list" where
  "run_slots r = map ex_slot (mr_log r)"

interpretation ticks: machine "run_step header m" "run_ticks header m" for header m
  by unfold_locales simp_all

lemma run_step_cases:
  assumes "run_step header m t r = Ret r'"
  obtains (returned) e where "mr_pc r = Returned e" "r' = r\<lparr>mr_bus := tk_others t (mr_bus r)\<rparr>"
    | (stopped) "tk_stop t" "mr_pc r = AtWhile \<or> (\<exists>s ss. mr_pc r = AtSlot (s # ss))"
        "r' = r\<lparr>mr_bus := tk_others t (mr_bus r), mr_pc := Returned ok_code\<rparr>"
    | (round) "\<not> tk_stop t" "mr_pc r = AtWhile"
        "r' = r\<lparr>mr_bus := tk_others t (mr_bus r), mr_pc := next_slot (ms_schedule m)\<rparr>"
    | (empty) "mr_pc r = AtSlot []" "r' = r\<lparr>mr_bus := tk_others t (mr_bus r), mr_pc := AtWhile\<rparr>"
    | (slot) s ss f err b' where "\<not> tk_stop t" "mr_pc r = AtSlot (s # ss)"
        "header (se_id s) (tk_others t (mr_bus r)) = Ret ((f, err), b')"
        "r' = r\<lparr>mr_bus := callback m f err b',
           mr_log := mr_log r @ [\<lparr>ex_slot = s, ex_time = tk_now t, ex_frame = f, ex_error = err\<rparr>],
           mr_pc := (if se_delay_ms s > 0
                     then Waiting (tk_now t + int (unat (se_delay_ms s)) * 1000000) ss
                     else next_slot ss)\<rparr>"
    | (waiting) d ss where "\<not> tk_stop t" "tk_now t < d" "mr_pc r = Waiting d ss"
        "r' = r\<lparr>mr_bus := tk_others t (mr_bus r)\<rparr>"
    | (waited) d ss where "tk_stop t \<or> d \<le> tk_now t" "mr_pc r = Waiting d ss"
        "r' = r\<lparr>mr_bus := tk_others t (mr_bus r), mr_pc := next_slot ss\<rparr>"
proof (cases "mr_pc r")
  case AtWhile
  then show thesis using assms stopped round by (cases "tk_stop t") (auto simp: run_step_def Let_def)
next
  case (AtSlot ss)
  show thesis
  proof (cases ss)
    case Nil
    then show thesis using assms AtSlot empty by (auto simp: run_step_def Let_def)
  next
    case (Cons s ss')
    then show thesis
      using assms AtSlot stopped slot [of s ss']
      by (cases "tk_stop t") (auto simp: run_step_def Let_def obind_eqs)
  qed
next
  case (Waiting d ss)
  then show thesis
    using assms waiting [of d ss] waited [of d ss]
    by (cases "\<not> tk_stop t \<and> tk_now t < d") (auto simp: run_step_def Let_def not_less)
next
  case (Returned e)
  then show thesis using assms returned by (auto simp: run_step_def Let_def)
qed

subsection \<open>Order, spacing and stopping\<close>

text \<open>The slots sent, and those left of the round, are whole rounds of the schedule.\<close>

definition in_rounds :: "schedule_entry list \<Rightarrow> 'b master_run \<Rightarrow> bool" where
  "in_rounds sched r \<longleftrightarrow> (\<exists>n rest. run_slots r @ rest = concat (replicate n sched) \<and>
     (case mr_pc r of AtWhile \<Rightarrow> rest = [] | AtSlot ss \<Rightarrow> rest = ss | Waiting d ss \<Rightarrow> rest = ss
      | Returned e \<Rightarrow> True))"

lemma concat_replicate_snoc: "concat (replicate n xs) @ xs = concat (replicate (Suc n) xs)"
  by (induction n) simp_all

lemma in_rounds_step:
  assumes "in_rounds (ms_schedule m) r" "run_step header m t r = Ret r'"
  shows "in_rounds (ms_schedule m) r'"
proof -
  obtain n rest where n: "run_slots r @ rest = concat (replicate n (ms_schedule m))"
    and pc: "case mr_pc r of AtWhile \<Rightarrow> rest = [] | AtSlot ss \<Rightarrow> rest = ss | Waiting d ss \<Rightarrow> rest = ss
      | Returned e \<Rightarrow> True"
    using assms(1) by (auto simp: in_rounds_def)
  show ?thesis
    using assms(2)
  proof (cases rule: run_step_cases)
    case (returned e)
    then show ?thesis using n by (auto simp: in_rounds_def run_slots_def)
  next
    case stopped
    then show ?thesis using n by (auto simp: in_rounds_def run_slots_def)
  next
    case round
    then have "run_slots r' @ ms_schedule m = concat (replicate (Suc n) (ms_schedule m))"
      using n pc concat_replicate_snoc [of n "ms_schedule m"] by (simp add: run_slots_def)
    moreover have "mr_pc r' = next_slot (ms_schedule m)" using round by simp
    ultimately show ?thesis
      unfolding in_rounds_def by (intro exI conjI) (assumption, simp add: next_slot_def)
  next
    case empty
    then show ?thesis using n pc by (auto simp: in_rounds_def run_slots_def)
  next
    case (slot s ss f err b')
    then have "run_slots r' @ ss = concat (replicate n (ms_schedule m))"
      using n pc by (simp add: run_slots_def)
    moreover have "case mr_pc r' of AtWhile \<Rightarrow> ss = [] | AtSlot ss' \<Rightarrow> ss = ss' | Waiting d ss' \<Rightarrow> ss = ss'
      | Returned e \<Rightarrow> True"
      using slot by (simp add: next_slot_def)
    ultimately show ?thesis unfolding in_rounds_def by blast
  next
    case (waiting d ss)
    then show ?thesis using n pc by (auto simp: in_rounds_def run_slots_def)
  next
    case (waited d ss)
    then show ?thesis using n pc by (auto simp: in_rounds_def run_slots_def next_slot_def)
  qed
qed

lemma run_rounds:
  assumes "run_ticks header m ts (run_start m b) = Ret r"
  shows "\<exists>n rest. run_slots r @ rest = concat (replicate n (ms_schedule m))"
proof -
  have "in_rounds (ms_schedule m) (run_start m b)"
    unfolding in_rounds_def
    by (intro exI [of _ 0] exI [of _ "[]"]) (simp add: run_start_def run_slots_def)
  then have "in_rounds (ms_schedule m) r"
    using assms by (rule ticks.run_invariant) (rule in_rounds_step)
  then show ?thesis by (auto simp: in_rounds_def)
qed

text \<open>Each header follows the one before by the delay of that one's slot.\<close>

definition due :: "exchange \<Rightarrow> int" where
  "due x = ex_time x + int (unat (se_delay_ms (ex_slot x))) * 1000000"

abbreviation spaced :: "exchange list \<Rightarrow> bool" where
  "spaced \<equiv> successively (\<lambda>x y. due x \<le> ex_time y)"

definition waits_ok :: "int \<Rightarrow> bool \<Rightarrow> 'b master_run \<Rightarrow> bool" where
  "waits_ok now stop r \<longleftrightarrow> spaced (mr_log r) \<and>
     (case mr_pc r of Waiting d ss \<Rightarrow> mr_log r \<noteq> [] \<and> d = due (last (mr_log r))
      | Returned e \<Rightarrow> True
      | _ \<Rightarrow> stop \<or> mr_log r = [] \<or> due (last (mr_log r)) \<le> now)"

lemma due_no_delay: "\<not> 0 < se_delay_ms (ex_slot x) \<Longrightarrow> due x = ex_time x"
  by (simp add: due_def word_gt_0)

lemma waits_ok_step:
  assumes "waits_ok now stop r" "now \<le> tk_now t" "stop \<le> tk_stop t" "run_step header m t r = Ret r'"
  shows "waits_ok (tk_now t) (tk_stop t) r'"
  using assms(4)
proof (cases rule: run_step_cases)
  case (slot s ss f err b')
  define x where "x = \<lparr>ex_slot = s, ex_time = tk_now t, ex_frame = f, ex_error = err\<rparr>"
  have "spaced (mr_log r @ [x])"
    using assms(1-3) slot(1,2) by (auto simp: waits_ok_def successively_append_iff x_def)
  then show ?thesis
    using slot(4) due_no_delay [of x]
    by (auto simp: waits_ok_def next_slot_def due_def simp flip: x_def) (auto simp: x_def)
qed (use assms(1-3) in \<open>auto simp: waits_ok_def next_slot_def split: master_pc.splits if_splits\<close>)

lemma waits_ok_ticks:
  "waits_ok now stop r \<Longrightarrow> sorted (now # map tk_now ts) \<Longrightarrow> sorted (stop # map tk_stop ts) \<Longrightarrow>
   run_ticks header m ts r = Ret r' \<Longrightarrow> spaced (mr_log r')"
proof (induction ts arbitrary: now stop r)
  case Nil
  then show ?case by (simp add: waits_ok_def)
next
  case (Cons t ts)
  obtain r1 where r1: "run_step header m t r = Ret r1" "run_ticks header m ts r1 = Ret r'"
    using Cons.prems(4) by (auto simp: obind_eqs)
  have "waits_ok (tk_now t) (tk_stop t) r1"
    using waits_ok_step [OF Cons.prems(1) _ _ r1(1)] Cons.prems(2,3) by simp
  then show ?case
    using Cons.IH [OF _ _ _ r1(2)] Cons.prems(2,3) by simp
qed

lemma run_returned:
  assumes "run_step header m t r = Ret r'" "mr_pc r' = Returned e"
  shows "mr_pc r = Returned e \<or> (tk_stop t \<and> e = ok_code)"
  using assms by (cases rule: run_step_cases) (auto simp: next_slot_def split: if_splits)

lemma run_ticks_returned:
  "run_ticks header m ts r = Ret r' \<Longrightarrow> mr_pc r' = Returned e \<Longrightarrow>
    mr_pc r = Returned e \<or> (\<exists>t\<in>set ts. tk_stop t) \<and> e = ok_code"
proof (induction ts arbitrary: r)
  case (Cons t ts)
  obtain r1 where r1: "run_step header m t r = Ret r1" "run_ticks header m ts r1 = Ret r'"
    using Cons.prems(1) by (auto simp: obind_eqs)
  show ?case
    using Cons.IH [OF r1(2) Cons.prems(2)] run_returned [OF r1(1), of e] by auto
qed simp

text \<open>A tick that loads \<open>true\<close> leads nearer to the return.\<close>

fun stop_pc :: "master_pc \<Rightarrow> master_pc" where
  "stop_pc (Waiting d ss) = next_slot ss"
| "stop_pc (AtSlot []) = AtWhile"
| "stop_pc (Returned e) = Returned e"
| "stop_pc _ = Returned ok_code"

lemma stop_tick:
  assumes "tk_stop t"
  shows "run_step header m t r = Ret (r\<lparr>mr_bus := tk_others t (mr_bus r), mr_pc := stop_pc (mr_pc r)\<rparr>)"
  using assms
  by (cases "mr_pc r") (auto simp: run_step_def Let_def split: list.split intro!: master_run.equality)

lemma stop_pc_twice: "\<exists>e. stop_pc (stop_pc pc) = Returned e"
  by (cases pc rule: stop_pc.cases) (auto simp: next_slot_def neq_Nil_conv)

subsection \<open>On any master bus that keeps the contract\<close>

text \<open>What the others and the callbacks must leave alone for a response to stay as it is.\<close>

definition keeps_response ::
  "('b \<Rightarrow> bool) \<Rightarrow> ('b \<Rightarrow> bool) \<Rightarrow> ('b \<Rightarrow> u8 \<rightharpoonup> 'x) \<Rightarrow> u8 \<Rightarrow> ('b \<Rightarrow> 'b) \<Rightarrow> bool" where
  "keeps_response iv opn rsp i g \<longleftrightarrow>
    (\<forall>b. iv b \<longrightarrow> iv (g b) \<and> opn (g b) = opn b \<and> rsp (g b) i = rsp b i)"

definition callbacks_keep ::
  "('b \<Rightarrow> bool) \<Rightarrow> ('b \<Rightarrow> bool) \<Rightarrow> ('b \<Rightarrow> u8 \<rightharpoonup> 'x) \<Rightarrow> u8 \<Rightarrow> 'b master \<Rightarrow> bool" where
  "callbacks_keep iv opn rsp i m \<longleftrightarrow>
    (\<forall>fn f. ms_on_frame m = Some fn \<longrightarrow> keeps_response iv opn rsp i (fn f)) \<and>
    (\<forall>fn e. ms_on_error m = Some fn \<longrightarrow> keeps_response iv opn rsp i (fn e))"

lemma callback_keeps: "callbacks_keep iv opn rsp i m \<Longrightarrow> keeps_response iv opn rsp i (callback m f e)"
  by (auto simp: callbacks_keep_def callback_def keeps_response_def split: option.split)

context imaster_bus begin

lemma step_answers:
  assumes "inv (mr_bus r) \<and> open_bus (mr_bus r) \<and> responses (mr_bus r) i = Some (d, ct)"
    and "keeps_response inv open_bus responses i (tk_others t)"
    and "callbacks_keep inv open_bus responses i m"
    and "run_step header m t r = Ret r'"
  shows "(inv (mr_bus r') \<and> open_bus (mr_bus r') \<and> responses (mr_bus r') i = Some (d, ct)) \<and>
    (\<forall>x\<in>set (mr_log r'). x \<in> set (mr_log r) \<or>
       (se_id (ex_slot x) = i \<longrightarrow> \<not> is_error (ex_error x) \<and> ex_frame x = answer_frame i d ct))"
  using assms(4)
proof (cases rule: run_step_cases)
  case (slot s ss f err b')
  let ?b = "tk_others t (mr_bus r)"
  have b: "inv ?b" "open_bus ?b" "responses ?b i = Some (d, ct)"
    using assms(1,2) by (simp_all add: keeps_response_def)
  have "inv b' \<and> open_bus b' \<and> responses b' i = Some (d, ct)"
    using header_keeps [OF b(1) slot(3)] b by simp
  then have "inv (callback m f err b') \<and> open_bus (callback m f err b') \<and>
      responses (callback m f err b') i = Some (d, ct)"
    using callback_keeps [OF assms(3), of f err] by (simp add: keeps_response_def)
  moreover have "\<not> is_error err \<and> f = answer_frame i d ct" if "se_id s = i"
    using header_answer [OF b(1,2)] b(3) slot(3) that by blast
  ultimately show ?thesis using slot(4) by auto
qed (use assms(1,2) in \<open>auto simp: keeps_response_def\<close>)

lemma ticks_answer:
  assumes "inv (mr_bus r) \<and> open_bus (mr_bus r) \<and> responses (mr_bus r) i = Some (d, ct)"
    and "\<forall>t\<in>set ts. keeps_response inv open_bus responses i (tk_others t)"
    and "callbacks_keep inv open_bus responses i m"
    and "run_ticks header m ts r = Ret r'"
    and "x \<in> set (mr_log r')" "x \<notin> set (mr_log r)" "se_id (ex_slot x) = i"
  shows "\<not> is_error (ex_error x) \<and> ex_frame x = answer_frame i d ct"
  using assms
proof (induction ts arbitrary: r)
  case (Cons t ts)
  obtain r1 where r1: "run_step header m t r = Ret r1" "run_ticks header m ts r1 = Ret r'"
    using Cons.prems(4) by (auto simp: obind_eqs)
  have "keeps_response inv open_bus responses i (tk_others t)" using Cons.prems(2) by simp
  note st = step_answers [OF Cons.prems(1) this Cons.prems(3) r1(1)]
  show ?case
  proof (cases "x \<in> set (mr_log r1)")
    case True
    then show ?thesis using st Cons.prems(6,7) by blast
  next
    case False
    show ?thesis
      by (rule Cons.IH [OF st [THEN conjunct1] _ Cons.prems(3) r1(2) Cons.prems(5) False Cons.prems(7)])
         (use Cons.prems(2) in simp)
  qed
qed simp

end

subsection \<open>Properties\<close>

text \<open>A small run, for the examples: two slots, of which none is answered.\<close>

definition demo_master :: "bus master" where
  "demo_master = snd (master_set_schedule [\<lparr>se_id = 5, se_delay_ms = 1\<rparr>, \<lparr>se_id = 6, se_delay_ms = 0\<rparr>] new_master)"

definition demo_ticks :: "bus tick list" where
  "demo_ticks = map (\<lambda>(stop, now). \<lparr>tk_others = id, tk_stop = stop, tk_now = now\<rparr>)
     [(False, 0), (False, 10), (False, 500), (False, 1000020), (False, 1000030), (False, 1000040), (True, 1000050)]"

lemma demo_run:
  obtains r where "run_ticks send_header demo_master demo_ticks (run_start demo_master new_bus) = Ret r"
    "map (se_id \<circ> ex_slot) (mr_log r) = [5, 6]" "map ex_time (mr_log r) = [10, 1000030]"
    "mr_pc r = Returned ok_code" "ms_schedule demo_master \<noteq> []"
proof -
  have h: "send_header i b = Ret ((default_frame, lin_make_error_code no_response), count_error b)"
    if "i = 5 \<or> i = 6" "\<not> b_closed b" "b_responses b = Map.empty" for i b
    using that by (auto simp: send_header_def kLINMaxID_def)
  have c: "callback demo_master f e b = b" for f e b
    by (simp add: callback_def demo_master_def new_master_def master_set_schedule_def kLINMaxID_def)
  have s: "ms_schedule demo_master = [\<lparr>se_id = 5, se_delay_ms = 1\<rparr>, \<lparr>se_id = 6, se_delay_ms = 0\<rparr>]"
    by (simp add: demo_master_def new_master_def master_set_schedule_def kLINMaxID_def)
  have b: "\<not> b_closed new_bus" "b_responses new_bus = Map.empty" by (simp_all add: new_bus_def)
  show thesis
    by (rule that)
      (simp add: demo_ticks_def run_start_def run_step_def s next_slot_def h b c, simp_all add: s)
qed

text \<open>C5: the schedule is worked off in order, round after round. On any bus and under any behaviour of the
  other threads, the clock and the stop flag, the slots of the headers \<open>run\<close> has sent are a prefix
  of the schedule repeated; no slot is skipped, repeated or sent out of turn, errors included.\<close>

theorem run_sends_schedule_in_order:
  assumes "run_ticks header m ts (run_start m b) = Ret r"
  shows "\<exists>n rest. run_slots r @ rest = concat (replicate n (ms_schedule m))"
  using assms by (rule run_rounds)

theorem run_sends_schedule_in_order_witness:
  "\<exists>r n rest. run_ticks send_header demo_master demo_ticks (run_start demo_master new_bus) = Ret r \<and>
     map se_id (run_slots r) = [5, 6] \<and> run_slots r @ rest = concat (replicate n (ms_schedule demo_master))"
proof -
  obtain r where r: "run_ticks send_header demo_master demo_ticks (run_start demo_master new_bus) = Ret r"
    "map (se_id \<circ> ex_slot) (mr_log r) = [5, 6]"
    by (rule demo_run)
  then show ?thesis
    using run_sends_schedule_in_order [OF r(1)] by (auto simp: run_slots_def)
qed

text \<open>C35: pacing. When the clock never goes back and the stop flag, once seen set, is never seen cleared, each
  header is sent no earlier than the delay of the previous slot after the previous header.\<close>

theorem run_keeps_delays:
  assumes "run_ticks header m ts (run_start m b) = Ret r"
    and "sorted (map tk_now ts)" and "sorted (map tk_stop ts)" and "Suc k < length (mr_log r)"
  shows "ex_time (mr_log r ! k) + int (unat (se_delay_ms (ex_slot (mr_log r ! k)))) * 1000000
    \<le> ex_time (mr_log r ! Suc k)"
proof -
  have "spaced (mr_log r)"
  proof (cases ts)
    case Nil
    then show ?thesis using assms(1) by (auto simp: run_start_def)
  next
    case (Cons t us)
    show ?thesis
    proof (rule waits_ok_ticks [OF _ _ _ assms(1)])
      show "waits_ok (tk_now t) False (run_start m b)" by (simp add: waits_ok_def run_start_def)
      show "sorted (tk_now t # map tk_now ts)" using assms(2) Cons by auto
      show "sorted (False # map tk_stop ts)" using assms(3) by simp
    qed
  qed
  then show ?thesis using assms(4) by (simp add: successively_conv_nth due_def)
qed

theorem run_keeps_delays_witness:
  "\<exists>r. run_ticks send_header demo_master demo_ticks (run_start demo_master new_bus) = Ret r \<and>
     length (mr_log r) = 2 \<and>
     ex_time (mr_log r ! 0) + int (unat (se_delay_ms (ex_slot (mr_log r ! 0)))) * 1000000 \<le> ex_time (mr_log r ! 1)"
proof -
  obtain r where r: "run_ticks send_header demo_master demo_ticks (run_start demo_master new_bus) = Ret r"
    "map ex_time (mr_log r) = [10, 1000030]"
    by (rule demo_run)
  then have l: "length (mr_log r) = 2" by (metis length_map length_Cons list.size(3) numeral_2_eq_2)
  have "sorted (map tk_now demo_ticks)" "sorted (map tk_stop demo_ticks)"
    by (simp_all add: demo_ticks_def)
  from run_keeps_delays [OF r(1) this, of 0] show ?thesis using r(1) l by auto
qed

text \<open>\<open>run\<close> stops when told and only then. With a non-empty schedule it returns only after the stop flag
  was seen set, always with success, whatever errors the slots met; and from any point, two loads
  that see the flag set bring it to its return without another header.\<close>

theorem run_stops_on_request:
  "(run_ticks header m ts (run_start m b) = Ret r \<and> ms_schedule m \<noteq> [] \<and> mr_pc r = Returned e \<longrightarrow>
      (\<exists>t\<in>set ts. tk_stop t) \<and> e = ok_code) \<and>
   (tk_stop t1 \<and> tk_stop t2 \<longrightarrow>
      (\<exists>b' e'. run_ticks header m [t1, t2] q = Ret (q\<lparr>mr_bus := b', mr_pc := Returned e'\<rparr>)))"
proof (intro conjI impI)
  assume h: "run_ticks header m ts (run_start m b) = Ret r \<and> ms_schedule m \<noteq> [] \<and> mr_pc r = Returned e"
  then have "(\<exists>t\<in>set ts. tk_stop t) \<and> e = ok_code"
    using run_ticks_returned [of header m ts "run_start m b" r e] by (auto simp: run_start_def)
  then show "\<exists>t\<in>set ts. tk_stop t" "e = ok_code" by simp_all
next
  assume "tk_stop t1 \<and> tk_stop t2"
  moreover obtain e' where "stop_pc (stop_pc (mr_pc q)) = Returned e'" using stop_pc_twice by blast
  ultimately show "\<exists>b' e'. run_ticks header m [t1, t2] q = Ret (q\<lparr>mr_bus := b', mr_pc := Returned e'\<rparr>)"
    by (auto simp: stop_tick)
qed

theorem run_stops_on_request_witness:
  "\<exists>r. run_ticks send_header demo_master demo_ticks (run_start demo_master new_bus) = Ret r \<and>
     mr_pc r = Returned ok_code \<and> (\<exists>t\<in>set demo_ticks. tk_stop t)"
proof -
  obtain r where r: "run_ticks send_header demo_master demo_ticks (run_start demo_master new_bus) = Ret r"
    "mr_pc r = Returned ok_code" "ms_schedule demo_master \<noteq> []"
    by (rule demo_run)
  have "(\<exists>t\<in>set demo_ticks. tk_stop t)"
    by (rule run_stops_on_request [where ts = demo_ticks and header = send_header and m = demo_master
          and b = new_bus and r = r and e = ok_code, THEN conjunct1, rule_format, THEN conjunct1])
       (use r in simp)
  then show ?thesis using r by blast
qed

text \<open>An invalid schedule is refused whole and leaves the old one in force; a table without identifiers
  above 0x3F is installed as it is, and an empty one makes \<open>run\<close> return success at once, with no
  header sent.\<close>

theorem schedule_validated:
  "master_set_schedule entries m =
     (if \<forall>e\<in>set entries. se_id e \<le> 0x3F then (ok_code, m\<lparr>ms_schedule := entries\<rparr>)
      else (lin_make_error_code invalid_frame, m)) \<and>
   mr_pc (run_start (snd (master_set_schedule [] m)) b) = Returned ok_code"
  by (auto simp: master_set_schedule_def list_ex_iff kLINMaxID_def run_start_def dest: leD)

text \<open>C32: end to end. When a slave node on the in-process bus has set a response, and neither the other threads
  nor the callbacks unregister it or close the bus, then every header the master's \<open>run\<close> sends
  for that identifier, in any round, succeeds with exactly that data and a checksum that verifies.\<close>

theorem scheduled_response_arrives:
  assumes "bus_ok b" and "set_response publish i data (b, s) = (ok_code, b1, s1)" and "data \<noteq> []"
    and "\<forall>t\<in>set ts. keeps_response bus_ok bus_open bus_responses i (tk_others t)"
    and "callbacks_keep bus_ok bus_open bus_responses i m"
    and "run_ticks send_header m ts (run_start m b1) = Ret r"
    and "x \<in> set (mr_log r)" and "se_id (ex_slot x) = i"
  shows "\<not> is_error (ex_error x) \<and> f_id (ex_frame x) = i \<and> f_data (ex_frame x) = data \<and>
    verify_checksum (protect_id i) data (f_checksum (ex_frame x)) (f_checksum_type (ex_frame x))"
proof -
  define ct where "ct = (if is_diag i then Classic else Enhanced)"
  note sr = vbus.set_response_result [OF assms(1,2)]
  have o: "bus_open b1" using sr(2,3) by simp
  have resp: "bus_responses b1 i = Some (data, ct)"
    using sr(5) assms(3) by (simp add: registered_def ct_def)
  have "\<not> is_error (ex_error x) \<and> ex_frame x = answer_frame i data ct"
  proof (rule vbus.ticks_answer [OF _ assms(4,5,6,7) _ assms(8)])
    show "bus_ok (mr_bus (run_start m b1)) \<and> bus_open (mr_bus (run_start m b1)) \<and>
        bus_responses (mr_bus (run_start m b1)) i = Some (data, ct)"
      using sr(1) o resp by (simp add: run_start_def)
    show "x \<notin> set (mr_log (run_start m b1))" by (simp add: run_start_def)
  qed
  then show ?thesis by (simp add: answer_frame_def verify_checksum_def)
qed

theorem scheduled_response_arrives_witness:
  "\<exists>r x. run_ticks send_header demo_master demo_ticks
       (run_start demo_master (fst (snd (set_response publish 5 [7] (new_bus, new_slave))))) = Ret r \<and>
     mr_log r = [x, mr_log r ! 1] \<and> se_id (ex_slot x) = 5 \<and> f_data (ex_frame x) = [7]"
proof -
  define b1 where "b1 = snd (publish 5 [7] new_bus)"
  have ok: "bus_ok b1" and subs: "b_subs b1 = []" and res: "b_responses b1 = [5 \<mapsto> \<lparr>re_data = [7], re_checksum_type = Enhanced\<rparr>]"
    and op: "\<not> b_closed b1"
    by (simp add: b1_def bus_inv)
       (simp_all add: b1_def publish_def do_publish_def new_bus_def kLINMaxID_def kLINDiagRequestID_def kLINDiagResponseID_def)
  have set: "set_response publish 5 [7] (new_bus, new_slave) = (ok_code, b1, note_response 5 [7] new_slave)"
    by (simp add: set_response_def b1_def publish_def do_publish_def new_bus_def kLINMaxID_def
        kLINDiagRequestID_def kLINDiagResponseID_def)
  have h5: "send_header 5 b = Ret ((response_frame 5 \<lparr>re_data = [7], re_checksum_type = Enhanced\<rparr>, ok_code),
      count_written (response_frame 5 \<lparr>re_data = [7], re_checksum_type = Enhanced\<rparr>) b)"
    and h6: "send_header 6 b = Ret ((default_frame, lin_make_error_code no_response), count_error b)"
    if "b_subs b = []" "\<not> b_closed b" "b_responses b = b_responses b1" for b
    using that by (simp_all add: send_header_def kLINMaxID_def res response_frame_def Let_def)
  have c: "callback demo_master f e b = b" for f e b
    by (simp add: callback_def demo_master_def new_master_def master_set_schedule_def kLINMaxID_def)
  have s: "ms_schedule demo_master = [\<lparr>se_id = 5, se_delay_ms = 1\<rparr>, \<lparr>se_id = 6, se_delay_ms = 0\<rparr>]"
    by (simp add: demo_master_def new_master_def master_set_schedule_def kLINMaxID_def)
  obtain r x y where r: "run_ticks send_header demo_master demo_ticks (run_start demo_master b1) = Ret r"
    "mr_log r = [x, y]" "se_id (ex_slot x) = 5"
    by (atomize_elim) (simp add: demo_ticks_def run_start_def run_step_def s next_slot_def h5 h6 c subs op)
  have "f_data (ex_frame x) = [7]"
  proof -
    have "\<forall>t\<in>set demo_ticks. keeps_response bus_ok bus_open bus_responses 5 (tk_others t)"
      by (simp add: demo_ticks_def keeps_response_def)
    moreover have "callbacks_keep bus_ok bus_open bus_responses 5 demo_master"
      by (simp add: callbacks_keep_def demo_master_def new_master_def master_set_schedule_def kLINMaxID_def)
    ultimately show ?thesis
      using scheduled_response_arrives [OF bus_ok_new set _ _ _ r(1), of x] r by simp
  qed
  then show ?thesis using r set by auto
qed

end
