(* ===== verification/MasterReentry.thy ===== *)
theory MasterReentry
  imports MasterNode
begin

text \<open>
  Callbacks of the master that call \<open>set_schedule\<close> on the master itself, from inside \<open>run\<close>
  (\<open>src/master/node.cpp\<close>). \<open>run\<close> walks over the buffer of the vector \<open>schedule_\<close> by reference;
  a successful \<open>set_schedule\<close> moves another buffer in and frees the old one. Buffers have numbers
  here, so that a read through a reference into a freed one is seen: its outcome is \<open>UB\<close>.
\<close>

subsection \<open>The node with its buffer\<close>

text \<open>A callback acts on the bus, and makes calls of \<open>set_schedule\<close> on the node, in that order.\<close>

record 'b live_node =
  ln_schedule :: "schedule_entry list"
  ln_buffer :: nat
  ln_on_frame :: "(frame \<Rightarrow> 'b \<Rightarrow> 'b \<times> schedule_entry list list) option"
  ln_on_error :: "(error_code \<Rightarrow> 'b \<Rightarrow> 'b \<times> schedule_entry list list) option"

definition refused :: "schedule_entry list \<Rightarrow> bool" where
  "refused entries \<longleftrightarrow> list_ex (\<lambda>e. se_id e > kLINMaxID) entries"

definition node_set_schedule :: "schedule_entry list \<Rightarrow> 'b live_node \<Rightarrow> 'b live_node" where
  "node_set_schedule entries n =
    (if refused entries then n else n\<lparr>ln_schedule := entries, ln_buffer := Suc (ln_buffer n)\<rparr>)"

definition node_callback :: "frame \<Rightarrow> error_code \<Rightarrow> 'b live_node \<Rightarrow> 'b \<Rightarrow> 'b live_node \<times> 'b" where
  "node_callback f err n b =
    (let called = (if is_error err then (case ln_on_error n of None \<Rightarrow> (b, []) | Some fn \<Rightarrow> fn err b)
                   else (case ln_on_frame n of None \<Rightarrow> (b, []) | Some fn \<Rightarrow> fn f b))
     in (fold node_set_schedule (snd called) n, fst called))"

text \<open>The node as theory \<open>MasterNode\<close> has it, with callbacks that leave it alone.\<close>

definition plain_node :: "'b live_node \<Rightarrow> 'b master" where
  "plain_node n =
    \<lparr>ms_schedule = ln_schedule n,
     ms_on_frame = map_option (\<lambda>fn f b. fst (fn f b)) (ln_on_frame n),
     ms_on_error = map_option (\<lambda>fn e b. fst (fn e b)) (ln_on_error n)\<rparr>"

record 'b node_run =
  lr_node :: "'b live_node"
  lr_buffer :: nat
  lr_run :: "'b master_run"

text \<open>One turn; \<open>lr_buffer\<close> is the buffer the range-based \<open>for\<close> took its iterators from.\<close>

definition live_turn ::
  "(u8 \<Rightarrow> 'b \<Rightarrow> ((frame \<times> error_code) \<times> 'b) outcome) \<Rightarrow> 'b tick \<Rightarrow> 'b node_run \<Rightarrow> 'b node_run outcome" where
  "live_turn header t s =
    (let n = lr_node s; r = lr_run s; b = tk_others t (mr_bus r)
     in case mr_pc r of
       AtSlot (slot # ss) \<Rightarrow>
         if tk_stop t then Ret (s\<lparr>lr_run := r\<lparr>mr_bus := b, mr_pc := Returned ok_code\<rparr>\<rparr>)
         else if lr_buffer s \<noteq> ln_buffer n then UB
         else obind (header (se_id slot) b) (\<lambda>((f, err), b').
           let (n', b'') = node_callback f err n b'
           in if lr_buffer s \<noteq> ln_buffer n' then UB
              else Ret (s\<lparr>lr_node := n', lr_run := r\<lparr>mr_bus := b'',
                mr_log := mr_log r @ [\<lparr>ex_slot = slot, ex_time = tk_now t, ex_frame = f, ex_error = err\<rparr>],
                mr_pc := (if se_delay_ms slot > 0
                          then Waiting (tk_now t + int (unat (se_delay_ms slot)) * 1000000) ss
                          else next_slot ss)\<rparr>\<rparr>))
     | AtWhile \<Rightarrow>
         obind (run_step header (plain_node n) t r) (\<lambda>r'. Ret (s\<lparr>lr_buffer := ln_buffer n, lr_run := r'\<rparr>))
     | _ \<Rightarrow> obind (run_step header (plain_node n) t r) (\<lambda>r'. Ret (s\<lparr>lr_run := r'\<rparr>)))"

primrec live_turns ::
  "(u8 \<Rightarrow> 'b \<Rightarrow> ((frame \<times> error_code) \<times> 'b) outcome) \<Rightarrow> 'b tick list \<Rightarrow> 'b node_run \<Rightarrow> 'b node_run outcome" where
  "live_turns header [] s = Ret s"
| "live_turns header (t # ts) s = obind (live_turn header t s) (live_turns header ts)"

definition live_start :: "'b live_node \<Rightarrow> 'b \<Rightarrow> 'b node_run" where
  "live_start n b = \<lparr>lr_node = n, lr_buffer = ln_buffer n, lr_run = run_start (plain_node n) b\<rparr>"

subsection \<open>Calls that are refused are harmless\<close>

definition harmless :: "'b live_node \<Rightarrow> bool" where
  "harmless n \<longleftrightarrow>
    (\<forall>fn f b. ln_on_frame n = Some fn \<longrightarrow> list_all refused (snd (fn f b))) \<and>
    (\<forall>fn e b. ln_on_error n = Some fn \<longrightarrow> list_all refused (snd (fn e b)))"

lemma fold_refused: "list_all refused es \<Longrightarrow> fold node_set_schedule es n = n"
  by (induction es) (simp_all add: node_set_schedule_def)

lemma buffer_grows: "ln_buffer n \<le> ln_buffer (fold node_set_schedule es n)"
proof (induction es arbitrary: n)
  case (Cons e es)
  have "ln_buffer n \<le> ln_buffer (node_set_schedule e n)" by (simp add: node_set_schedule_def)
  then show ?case using Cons [of "node_set_schedule e n"] by simp
qed simp

lemma buffer_changes: "\<not> list_all refused es \<Longrightarrow> ln_buffer n < ln_buffer (fold node_set_schedule es n)"
proof (induction es arbitrary: n)
  case (Cons e es)
  show ?case
  proof (cases "refused e")
    case True
    then show ?thesis using Cons by (simp add: node_set_schedule_def)
  next
    case False
    then have "ln_buffer n < ln_buffer (node_set_schedule e n)" by (simp add: node_set_schedule_def)
    also have "\<dots> \<le> ln_buffer (fold node_set_schedule es (node_set_schedule e n))" by (rule buffer_grows)
    finally show ?thesis by simp
  qed
qed simp

lemma harmless_callback: "harmless n \<Longrightarrow> node_callback f err n b = (n, callback (plain_node n) f err b)"
  by (auto simp: node_callback_def callback_def plain_node_def harmless_def fold_refused Let_def split: option.split)

lemma live_turn_harmless:
  assumes "harmless (lr_node s)" "lr_buffer s = ln_buffer (lr_node s)"
  shows "live_turn header t s =
    obind (run_step header (plain_node (lr_node s)) t (lr_run s)) (\<lambda>r. Ret (s\<lparr>lr_run := r\<rparr>))"
proof (cases "mr_pc (lr_run s)")
  case AtWhile
  have "s\<lparr>lr_buffer := ln_buffer (lr_node s), lr_run := r\<rparr> = s\<lparr>lr_run := r\<rparr>" for r
    using assms(2) by (cases s) simp
  then show ?thesis using AtWhile by (simp add: live_turn_def Let_def)
next
  case (AtSlot ss)
  have same: "s\<lparr>lr_node := lr_node s, lr_run := r\<rparr> = s\<lparr>lr_run := r\<rparr>" for r by (cases s) simp
  show ?thesis
  proof (cases ss)
    case (Cons slot rest)
    show ?thesis
      using AtSlot Cons assms same
      by (cases "tk_stop t"; cases "header (se_id slot) (tk_others t (mr_bus (lr_run s)))")
         (auto simp: live_turn_def run_step_def Let_def harmless_callback split: prod.split)
  qed (simp add: live_turn_def Let_def AtSlot)
qed (simp_all add: live_turn_def Let_def)

lemma live_turns_harmless:
  "harmless (lr_node s) \<Longrightarrow> lr_buffer s = ln_buffer (lr_node s) \<Longrightarrow>
    live_turns header ts s =
      obind (run_ticks header (plain_node (lr_node s)) ts (lr_run s)) (\<lambda>r. Ret (s\<lparr>lr_run := r\<rparr>))"
proof (induction ts arbitrary: s)
  case Nil
  then show ?case by (cases s) simp
next
  case (Cons t ts)
  show ?case
  proof (cases "run_step header (plain_node (lr_node s)) t (lr_run s)")
    case (Ret r)
    then show ?thesis
      using Cons.IH [of "s\<lparr>lr_run := r\<rparr>"] Cons.prems by (simp add: live_turn_harmless)
  qed (use Cons.prems in \<open>simp_all add: live_turn_harmless\<close>)
qed

text \<open>A run whose callbacks only make calls that are refused is the run of theory \<open>MasterNode\<close>; the
  first call that is accepted is one after which the loop reads freed memory.\<close>

lemma callbacks_on_the_node:
  "harmless n \<Longrightarrow> live_turns header ts (live_start n b) =
     obind (run_ticks header (plain_node n) ts (run_start (plain_node n) b)) (\<lambda>r. Ret (live_start n b\<lparr>lr_run := r\<rparr>))"
  "mr_pc (lr_run s) = AtSlot (slot # ss) \<Longrightarrow> \<not> tk_stop t \<Longrightarrow>
     header (se_id slot) (tk_others t (mr_bus (lr_run s))) = Ret ((f, err), b') \<Longrightarrow>
     node_callback f err (lr_node s) b' = (fold node_set_schedule es (lr_node s), b'') \<Longrightarrow> \<not> list_all refused es \<Longrightarrow>
     live_turn header t s = UB"
proof -
  show "harmless n \<Longrightarrow> live_turns header ts (live_start n b) =
     obind (run_ticks header (plain_node n) ts (run_start (plain_node n) b)) (\<lambda>r. Ret (live_start n b\<lparr>lr_run := r\<rparr>))"
    using live_turns_harmless [of "live_start n b"] by (simp add: live_start_def)
  assume at: "mr_pc (lr_run s) = AtSlot (slot # ss)" "\<not> tk_stop t"
    "header (se_id slot) (tk_others t (mr_bus (lr_run s))) = Ret ((f, err), b')"
    and cb: "node_callback f err (lr_node s) b' = (fold node_set_schedule es (lr_node s), b'')"
    and "\<not> list_all refused es"
  then have "ln_buffer (lr_node s) < ln_buffer (fold node_set_schedule es (lr_node s))" by (intro buffer_changes)
  then show "live_turn header t s = UB" using at cb by (simp add: live_turn_def Let_def)
qed

end
