(* ===== verification/BusThreads.thy ===== *)
theory BusThreads
  imports VirtualBus "HOL-Library.Multiset" "HOL-Library.Sublist"
begin

text \<open>
  The virtual bus used by several threads (\<open>src/virtual/bus.cpp\<close>). \<open>send_header\<close> holds the bus's
  \<open>shared_mutex\<close> in shared mode, so the delivery loops of several calls run at the same time;
  \<open>publish\<close>, \<open>subscribe\<close>, \<open>set_schedule\<close> and \<open>close\<close> hold it exclusively. A call of
  \<open>send_header\<close> is split where another thread can come between: its lookup, each round of its loop
  (which may wait on a subscriber's channel), its return. The exclusive sections wait for nothing
  inside, so each is one step, possible while no reader holds the lock.
\<close>

subsection \<open>State and steps\<close>

record header_call =
  hc_frame :: frame
  hc_todo :: "subscription list"
  hc_returned :: bool

record shared_bus =
  lv_bus :: bus
  lv_calls :: "header_call list"

definition alone :: "bus \<Rightarrow> shared_bus" where
  "alone b = \<lparr>lv_bus = b, lv_calls = []\<rparr>"

text \<open>\<open>send_header\<close> before its loop: an error code, or the frame to deliver.\<close>

definition begin_header :: "u8 \<Rightarrow> bus \<Rightarrow> (error_code + frame) \<times> bus" where
  "begin_header i b =
    (if i > kLINMaxID then (Inl (lin_make_error_code invalid_frame), count_error b)
     else if b_closed b then (Inl ErrClosed, count_error b)
     else case b_responses b i of
       None \<Rightarrow> (Inl (lin_make_error_code no_response), count_error b)
     | Some e \<Rightarrow>
         let pid = protect_id i;
             data = re_data e;
             ct = re_checksum_type e;
             cs = calc_checksum pid data ct;
             f = \<lparr>f_id = i, f_data = data, f_checksum = cs, f_checksum_type = ct\<rparr>
         in (Inr f, count_written f b))"

text \<open>One round of the loop of the call \<open>k\<close>, or its return, which gives the shared lock back.\<close>

definition header_turn :: "nat \<Rightarrow> shared_bus \<Rightarrow> shared_bus outcome" where
  "header_turn k s =
    (if k < length (lv_calls s) \<and> \<not> hc_returned (lv_calls s ! k) then
       let c = lv_calls s ! k
       in case hc_todo c of
            [] \<Rightarrow> Ret (s\<lparr>lv_calls := (lv_calls s)[k := c\<lparr>hc_returned := True\<rparr>]\<rparr>)
          | t # ts \<Rightarrow>
              obind (deliver (hc_frame c) t (lv_bus s)) (\<lambda>b.
                Ret (s\<lparr>lv_bus := b, lv_calls := (lv_calls s)[k := c\<lparr>hc_todo := ts\<rparr>]\<rparr>))
     else Blocks)"

definition lock_shared :: "shared_bus \<Rightarrow> bool" where
  "lock_shared s \<longleftrightarrow> list_ex (\<lambda>c. \<not> hc_returned c) (lv_calls s)"

fun takes_lock :: "bus_op \<Rightarrow> bool" where
  "takes_lock (Publish i d) \<longleftrightarrow> \<not> i > kLINMaxID"
| "takes_lock (PublishClassic i d) \<longleftrightarrow> \<not> i > kLINMaxID"
| "takes_lock (Subscribe fs opts) \<longleftrightarrow> True"
| "takes_lock (SetSchedule es) \<longleftrightarrow> True"
| "takes_lock CloseBus \<longleftrightarrow> True"
| "takes_lock (SendHeader i) \<longleftrightarrow> False"
| "takes_lock (Client i x) \<longleftrightarrow> False"

definition live_call :: "bus_op \<Rightarrow> shared_bus \<Rightarrow> shared_bus outcome" where
  "live_call x s =
    (case x of
       SendHeader i \<Rightarrow>
         (case begin_header i (lv_bus s) of
            (Inl e, b) \<Rightarrow> Ret (s\<lparr>lv_bus := b\<rparr>)
          | (Inr f, b) \<Rightarrow>
              Ret (s\<lparr>lv_bus := b,
                     lv_calls := lv_calls s @ [\<lparr>hc_frame = f, hc_todo = b_subs b, hc_returned = False\<rparr>]\<rparr>))
     | _ \<Rightarrow>
         if takes_lock x \<and> lock_shared s then Blocks
         else obind (bus_step x (lv_bus s)) (\<lambda>b. Ret (s\<lparr>lv_bus := b\<rparr>)))"

datatype bus_event = Call bus_op | Turn nat

fun live_step :: "bus_event \<Rightarrow> shared_bus \<Rightarrow> shared_bus outcome" where
  "live_step (Call x) s = live_call x s"
| "live_step (Turn k) s = header_turn k s"

primrec live_run :: "bus_event list \<Rightarrow> shared_bus \<Rightarrow> shared_bus outcome" where
  "live_run [] s = Ret s"
| "live_run (e # es) s = obind (live_step e s) (live_run es)"

inductive reachable :: "shared_bus \<Rightarrow> bool" where
  start: "reachable (alone new_bus)"
| step: "reachable s \<Longrightarrow> live_step e s = Ret s' \<Longrightarrow> reachable s'"

inductive_cases reachableE: "reachable s"

lemma alone_simps [simp]: "lv_bus (alone b) = b" "lv_calls (alone b) = []" "\<not> lock_shared (alone b)"
  by (simp_all add: alone_def lock_shared_def)

interpretation live: machine live_step live_run
  by unfold_locales simp_all

lemma live_run_reachable: "reachable s \<Longrightarrow> live_run es s = Ret s' \<Longrightarrow> reachable s'"
  by (rule live.run_invariant) (auto intro: reachable.step)

text \<open>The pieces put together are the whole call.\<close>

lemma send_header_pieces:
  "send_header i b =
    (case begin_header i b of
       (Inl e, b') \<Rightarrow> Ret ((default_frame, e), b')
     | (Inr f, b') \<Rightarrow> obind (broadcast f (b_subs b') b') (\<lambda>b''. Ret ((f, ok_code), b'')))"
  by (simp add: send_header_def begin_header_def Let_def split: option.split)

lemma begin_header_Inr:
  "begin_header i b = (Inr f, b') \<longleftrightarrow>
    i \<le> kLINMaxID \<and> \<not> b_closed b \<and> (\<exists>e. b_responses b i = Some e \<and> f = response_frame i e) \<and> b' = count_written f b"
  by (auto simp: begin_header_def response_frame_def Let_def split: option.splits)

lemma begin_header_Inl: "begin_header i b = (Inl e, b') \<Longrightarrow> b' = count_error b"
  by (auto simp: begin_header_def Let_def split: option.splits if_splits)

lemma client_call:
  "(case x of SendHeader i \<Rightarrow> A i | _ \<Rightarrow> B) = B" if "\<And>i. x \<noteq> SendHeader i"
  using that by (cases x) auto

lemma unlocked_call:
  assumes "\<not> takes_lock x" "\<And>i. x \<noteq> SendHeader i" "bus_step x b = Ret b'"
  obtains (error) "b' = count_error b" "\<And>i y. x \<noteq> Client i y" | (client) i y where "x = Client i y" "b' = client_chan i y b"
  using assms
  by (cases x) (auto simp: publish_def publish_classic_def do_publish_def)

text \<open>What a step is.\<close>

lemma live_step_cases:
  assumes "live_step e s = Ret s'"
  obtains
    (error) "lv_bus s' = count_error (lv_bus s)" "lv_calls s' = lv_calls s" "\<And>k. e \<noteq> Turn k" "\<And>i y. e \<noteq> Call (Client i y)"
  | (opened) i r where "e = Call (SendHeader i)" "\<not> b_closed (lv_bus s)" "i \<le> kLINMaxID"
      "b_responses (lv_bus s) i = Some r" "lv_bus s' = count_written (response_frame i r) (lv_bus s)"
      "lv_calls s' = lv_calls s @
         [\<lparr>hc_frame = response_frame i r, hc_todo = b_subs (lv_bus s), hc_returned = False\<rparr>]"
  | (locked) x where "e = Call x" "takes_lock x" "\<not> lock_shared s" "bus_step x (lv_bus s) = Ret (lv_bus s')"
      "lv_calls s' = lv_calls s"
  | (client) i y where "e = Call (Client i y)" "lv_bus s' = client_chan i y (lv_bus s)" "lv_calls s' = lv_calls s"
  | (returned) k where "e = Turn k" "k < length (lv_calls s)" "\<not> hc_returned (lv_calls s ! k)"
      "hc_todo (lv_calls s ! k) = []" "lv_bus s' = lv_bus s"
      "lv_calls s' = (lv_calls s)[k := (lv_calls s ! k)\<lparr>hc_returned := True\<rparr>]"
  | (offered) k t ts where "e = Turn k" "k < length (lv_calls s)" "\<not> hc_returned (lv_calls s ! k)"
      "hc_todo (lv_calls s ! k) = t # ts" "deliver (hc_frame (lv_calls s ! k)) t (lv_bus s) = Ret (lv_bus s')"
      "lv_calls s' = (lv_calls s)[k := (lv_calls s ! k)\<lparr>hc_todo := ts\<rparr>]"
proof (cases e)
  case (Turn k)
  then have k: "k < length (lv_calls s)" "\<not> hc_returned (lv_calls s ! k)"
    using assms by (auto simp: header_turn_def split: if_splits)
  show thesis
  proof (cases "hc_todo (lv_calls s ! k)")
    case Nil
    then show thesis using assms Turn k by (intro returned) (auto simp: header_turn_def Let_def)
  next
    case (Cons t ts)
    then show thesis using assms Turn k by (intro offered) (auto simp: header_turn_def Let_def obind_eqs)
  qed
next
  case (Call x)
  show thesis
  proof (cases "\<exists>i. x = SendHeader i")
    case True
    then obtain i where x: "x = SendHeader i" by blast
    obtain r b where h: "begin_header i (lv_bus s) = (r, b)" by fastforce
    show thesis
    proof (cases r)
      case (Inl c)
      then show thesis using assms Call x h by (intro error) (auto simp: live_call_def begin_header_Inl)
    next
      case (Inr f)
      then obtain en where en: "i \<le> kLINMaxID" "\<not> b_closed (lv_bus s)" "b_responses (lv_bus s) i = Some en"
        "f = response_frame i en" "b = count_written f (lv_bus s)"
        using h by (auto simp: begin_header_Inr)
      then show thesis using assms Call x h Inr by (intro opened [of i en]) (auto simp: live_call_def)
    qed
  next
    case False
    then have ret: "\<not> (takes_lock x \<and> lock_shared s)"
        "bus_step x (lv_bus s) = Ret (lv_bus s')" "lv_calls s' = lv_calls s"
      using assms Call by (auto simp: live_call_def client_call obind_eqs split: if_splits)
    show thesis
    proof (cases "takes_lock x")
      case True
      then show thesis using ret Call by (intro locked) auto
    next
      case nolock: False
      show thesis
      proof (rule unlocked_call [OF nolock _ ret(2)])
        show "x \<noteq> SendHeader i" for i using False by blast
        show thesis if "lv_bus s' = count_error (lv_bus s)" "\<And>i y. x \<noteq> Client i y"
          using that ret(3) Call by (intro error) simp_all
        show thesis if "x = Client i y" "lv_bus s' = client_chan i y (lv_bus s)" for i y
          using that ret(3) Call by (intro client) simp_all
      qed
    qed
  qed
qed

subsection \<open>What holds at every moment\<close>

definition call_ok :: "bus \<Rightarrow> header_call \<Rightarrow> bool" where
  "call_ok b c \<longleftrightarrow>
    (if hc_returned c then hc_todo c = []
     else \<not> b_closed b \<and> suffix (hc_todo c) (b_subs b) \<and>
       b_responses b (f_id (hc_frame c)) \<noteq> None \<and>
       hc_frame c = response_frame (f_id (hc_frame c)) (the (b_responses b (f_id (hc_frame c)))))"

definition live_ok :: "shared_bus \<Rightarrow> bool" where
  "live_ok s \<longleftrightarrow> bus_ok (lv_bus s) \<and> (\<forall>c\<in>set (lv_calls s). call_ok (lv_bus s) c)"

lemma call_ok_cong:
  "b_closed b' = b_closed b \<Longrightarrow> b_subs b' = b_subs b \<Longrightarrow> b_responses b' = b_responses b \<Longrightarrow>
    call_ok b' c = call_ok b c"
  by (simp add: call_ok_def)

text \<open>The invariant in the terms of the code.\<close>

lemma live_ok_bus:
  assumes "live_ok s"
  shows "b_responses (lv_bus s) i = Some r \<Longrightarrow>
      i \<le> 0x3F \<and> re_data r \<noteq> [] \<and> (i = 0x3C \<or> i = 0x3D \<longrightarrow> re_checksum_type r = Classic)"
    "c \<in> set (b_chans (lv_bus s)) \<Longrightarrow> length (ch_buf c) \<le> ch_capacity c \<and> 0 < ch_capacity c"
    "if b_closed (lv_bus s) then b_subs (lv_bus s) = [] \<and> (\<forall>c\<in>set (b_chans (lv_bus s)). ch_closed c)
     else map sb_ch (b_subs (lv_bus s)) = [0..<length (b_chans (lv_bus s))]"
  using assms
  by (auto simp: live_ok_def bus_ok_def responses_ok_def chan_ok_def is_diag_def kLINMaxID_def
      kLINDiagRequestID_def kLINDiagResponseID_def)

lemma live_ok_calls:
  assumes "live_ok s" "c \<in> set (lv_calls s)"
  shows "if hc_returned c then hc_todo c = []
       else \<not> b_closed (lv_bus s) \<and> suffix (hc_todo c) (b_subs (lv_bus s)) \<and>
         (\<exists>i r. b_responses (lv_bus s) i = Some r \<and> hc_frame c = response_frame i r)"
proof -
  have "call_ok (lv_bus s) c" using assms by (simp add: live_ok_def)
  then show ?thesis by (force simp: call_ok_def)
qed

lemma live_ok_alone [simp]: "live_ok (alone b) = bus_ok b"
  by (simp add: live_ok_def)

lemma live_ok_subs:
  assumes "live_ok s" "k < length (lv_calls s)" "\<not> hc_returned (lv_calls s ! k)"
  shows "suffix (hc_todo (lv_calls s ! k)) (b_subs (lv_bus s))" "\<not> b_closed (lv_bus s)"
proof -
  have "call_ok (lv_bus s) (lv_calls s ! k)" using assms(1,2) by (simp add: live_ok_def)
  then show "suffix (hc_todo (lv_calls s ! k)) (b_subs (lv_bus s))" "\<not> b_closed (lv_bus s)"
    using assms(3) by (simp_all add: call_ok_def)
qed

lemma live_ok_todo:
  assumes "live_ok s" "k < length (lv_calls s)" "\<not> hc_returned (lv_calls s ! k)" "hc_todo (lv_calls s ! k) = t # ts"
  shows "t \<in> set (b_subs (lv_bus s))" "sb_ch t < length (b_chans (lv_bus s))"
    "chan_ok (b_chans (lv_bus s) ! sb_ch t)" "sb_ch t \<notin> sb_ch ` set ts"
proof -
  obtain ps where ps: "b_subs (lv_bus s) = ps @ t # ts"
    using live_ok_subs [OF assms(1-3)] assms(4) by (auto simp: suffix_def)
  then show t: "t \<in> set (b_subs (lv_bus s))" by simp
  have ok: "subs_ok (b_subs (lv_bus s)) (b_chans (lv_bus s))"
    using assms(1) by (simp add: live_ok_def bus_ok_subs)
  then show "sb_ch t < length (b_chans (lv_bus s))" "chan_ok (b_chans (lv_bus s) ! sb_ch t)"
    using t by (simp_all add: subs_ok_def)
  show "sb_ch t \<notin> sb_ch ` set ts" using ok ps by (auto simp: subs_ok_def)
qed

lemma offered_delivered:
  assumes "live_ok s" "k < length (lv_calls s)" "\<not> hc_returned (lv_calls s ! k)" "hc_todo (lv_calls s ! k) = t # ts"
  shows "deliver (hc_frame (lv_calls s ! k)) t (lv_bus s) =
    (if must_wait (hc_frame (lv_calls s ! k)) t (b_chans (lv_bus s) ! sb_ch t) then Blocks
     else Ret (delivered (hc_frame (lv_calls s ! k)) t (lv_bus s)))"
  by (rule deliver_closed_form) (rule live_ok_todo(3) [OF assms])

lemma offered_bus:
  assumes "live_ok s" "k < length (lv_calls s)" "\<not> hc_returned (lv_calls s ! k)" "hc_todo (lv_calls s ! k) = t # ts"
    and "deliver (hc_frame (lv_calls s ! k)) t (lv_bus s) = Ret b'"
  shows "b' = delivered (hc_frame (lv_calls s ! k)) t (lv_bus s)"
    "\<not> must_wait (hc_frame (lv_calls s ! k)) t (b_chans (lv_bus s) ! sb_ch t)"
  using assms(5) offered_delivered [OF assms(1-4)] by (auto split: if_splits)

lemma live_step_ok:
  assumes ok: "live_ok s" and step: "live_step e s = Ret s'"
  shows "live_ok s'"
proof -
  have bus: "bus_ok (lv_bus s)" and calls: "\<forall>c\<in>set (lv_calls s). call_ok (lv_bus s) c"
    using ok by (simp_all add: live_ok_def)
  from step show ?thesis
  proof (cases rule: live_step_cases)
    case error
    then show ?thesis using bus calls by (simp add: live_ok_def call_ok_def)
  next
    case (opened i r)
    have "call_ok (lv_bus s') \<lparr>hc_frame = response_frame i r, hc_todo = b_subs (lv_bus s), hc_returned = False\<rparr>"
      using opened by (simp add: call_ok_def response_frame_def)
    then show ?thesis using opened bus calls by (auto simp: live_ok_def call_ok_def)
  next
    case (locked x)
    have "hc_returned c" if "c \<in> set (lv_calls s)" for c
      using locked(3) that by (auto simp: lock_shared_def list_ex_iff)
    then have "call_ok (lv_bus s') c" if "c \<in> set (lv_calls s)" for c
      using calls that by (simp add: call_ok_def)
    then show ?thesis using locked bus_step_ok [OF bus locked(4)] by (simp add: live_ok_def)
  next
    case (client i y)
    then show ?thesis
      using client_chan_ok [OF bus, of i y] calls by (simp add: live_ok_def call_ok_def)
  next
    case (returned k)
    have "call_ok (lv_bus s) ((lv_calls s ! k)\<lparr>hc_returned := True\<rparr>)"
      using returned by (simp add: call_ok_def)
    then show ?thesis
      using returned bus calls by (auto simp: live_ok_def dest: set_update_subset_insert [THEN subsetD])
  next
    case (offered k t ts)
    note todo = live_ok_todo [OF ok offered(2-4)]
    have b': "lv_bus s' = delivered (hc_frame (lv_calls s ! k)) t (lv_bus s)"
      by (rule offered_bus [OF ok offered(2-5)])
    have "call_ok (lv_bus s) (lv_calls s ! k)" using calls offered(2) by simp
    then have "call_ok (lv_bus s') ((lv_calls s ! k)\<lparr>hc_todo := ts\<rparr>)"
      using offered(3,4) b' by (auto simp: call_ok_def dest: suffix_ConsD)
    moreover have "call_ok (lv_bus s') c = call_ok (lv_bus s) c" for c
      by (rule call_ok_cong) (simp_all add: b')
    moreover have "bus_ok (lv_bus s')"
      using delivered_ok [OF bus todo(2)] by (simp add: b')
    ultimately show ?thesis
      using offered(6) calls by (auto simp: live_ok_def dest: set_update_subset_insert [THEN subsetD])
  qed
qed

lemma live_step_no_UB:
  assumes "live_ok s"
  shows "live_step e s \<noteq> UB"
proof (cases e)
  case (Call x)
  have "bus_ok (lv_bus s)" using assms by (simp add: live_ok_def)
  then have "bus_step x (lv_bus s) \<noteq> UB" by (rule bus_step_no_UB)
  then show ?thesis
    using Call by (cases x) (auto simp: live_call_def obind_eqs split: sum.splits prod.splits)
next
  case (Turn k)
  then show ?thesis
    using offered_delivered [OF assms, of k]
    by (auto simp: header_turn_def Let_def obind_eqs split: list.splits if_splits)
qed

interpretation live_safe: safe_machine live_step live_run live_ok
  by unfold_locales (rule live_step_ok)

lemmas live_run_ok = live_safe.run_good

lemma live_step_closed:
  assumes "live_ok s" "live_step e s = Ret s'" "b_closed (lv_bus s)"
  shows "b_closed (lv_bus s')"
  using assms(2)
proof (cases rule: live_step_cases)
  case (locked x)
  then show ?thesis using assms(1,3) bus_closed_step [of "lv_bus s" x] by (auto simp: live_ok_def)
next
  case (offered k t ts)
  then show ?thesis using assms(3) live_ok_subs(2) [OF assms(1)] by blast
qed (use assms(3) in simp_all)

lemma reachable_ok: "reachable s \<Longrightarrow> live_ok s"
  by (induction rule: reachable.induct) (auto simp: bus_ok_new dest: live_step_ok)

subsection \<open>What a subscription is offered\<close>

text \<open>The frame a step offers to the channel \<open>i\<close>, the frames a run offers it, and those on their way to it.\<close>

fun offered_by :: "nat \<Rightarrow> bus_event \<Rightarrow> shared_bus \<Rightarrow> frame list" where
  "offered_by i (Call x) s = []"
| "offered_by i (Turn k) s =
    (case hc_todo (lv_calls s ! k) of
       [] \<Rightarrow> []
     | t # ts \<Rightarrow> if sb_ch t = i then [hc_frame (lv_calls s ! k)] else [])"

primrec offers :: "nat \<Rightarrow> bus_event list \<Rightarrow> shared_bus \<Rightarrow> frame list" where
  "offers i [] s = []"
| "offers i (e # es) s =
    (case live_step e s of Ret s' \<Rightarrow> offered_by i e s @ offers i es s' | _ \<Rightarrow> [])"

definition on_the_way :: "nat \<Rightarrow> shared_bus \<Rightarrow> frame multiset" where
  "on_the_way i s = image_mset hc_frame (filter_mset (\<lambda>c. i \<in> sb_ch ` set (hc_todo c)) (mset (lv_calls s)))"

definition begun :: "shared_bus \<Rightarrow> frame multiset" where
  "begun s = image_mset hc_frame (mset (lv_calls s))"

lemma mset_one_changed:
  "k < length xs \<Longrightarrow> \<exists>M. mset xs = add_mset (xs ! k) M \<and> mset (xs[k := y]) = add_mset y M"
  by (rule exI [of _ "mset xs - {#xs ! k#}"]) (simp add: mset_update insert_DiffM)

lemma known_channel:
  assumes "bus_ok b" "\<not> b_closed b" "i < length (b_chans b)"
  shows "i \<in> sb_ch ` set (b_subs b)"
proof -
  have "map sb_ch (b_subs b) = [0..<length (b_chans b)]" using assms(1,2) by (simp add: bus_ok_def)
  then have "sb_ch ` set (b_subs b) = {0..<length (b_chans b)}" by (metis list.set_map set_upt)
  then show ?thesis using assms(3) by simp
qed

lemma bus_step_chans_grow:
  "bus_ok b \<Longrightarrow> bus_step x b = Ret b' \<Longrightarrow> length (b_chans b) \<le> length (b_chans b')"
  by (cases x)
     (auto simp: obind_eqs publish_def publish_classic_def do_publish_def subscribe_def set_schedule_def
       bus_close_chans client_chan_def send_header_closed_form Let_def split: if_splits option.splits)

lemma live_step_chans_grow:
  assumes "live_ok s" "live_step e s = Ret s'"
  shows "length (b_chans (lv_bus s)) \<le> length (b_chans (lv_bus s'))"
  using assms(2)
proof (cases rule: live_step_cases)
  case (locked x)
  then show ?thesis using assms(1) bus_step_chans_grow by (auto simp: live_ok_def)
next
  case (offered k t ts)
  then show ?thesis by (simp add: offered_bus(1) [OF assms(1) offered(2-5)])
qed (simp_all add: client_chan_def)

lemma offers_step:
  assumes ok: "live_ok s" and step: "live_step e s = Ret s'" and i: "i < length (b_chans (lv_bus s))"
  shows "mset (offered_by i e s) + on_the_way i s' + begun s = on_the_way i s + begun s'"
  using step
proof (cases rule: live_step_cases)
  case error
  then have "offered_by i e s = []" by (cases e) auto
  with error show ?thesis by (simp add: on_the_way_def begun_def)
next
  case (opened j r)
  have "i \<in> sb_ch ` set (b_subs (lv_bus s))"
    using known_channel [OF _ opened(2) i] ok by (simp add: live_ok_def)
  then show ?thesis using opened by (simp add: on_the_way_def begun_def)
next
  case (returned k)
  obtain M where "mset (lv_calls s) = add_mset (lv_calls s ! k) M"
    "mset (lv_calls s') = add_mset ((lv_calls s ! k)\<lparr>hc_returned := True\<rparr>) M"
    using mset_one_changed [OF returned(2)] returned(6) by metis
  then show ?thesis using returned by (simp add: on_the_way_def begun_def)
next
  case (offered k t ts)
  obtain M where "mset (lv_calls s) = add_mset (lv_calls s ! k) M"
    "mset (lv_calls s') = add_mset ((lv_calls s ! k)\<lparr>hc_todo := ts\<rparr>) M"
    using mset_one_changed [OF offered(2)] offered(6) by metis
  then show ?thesis
    using offered live_ok_todo(4) [OF ok offered(2-4)] by (auto simp: on_the_way_def begun_def)
qed (simp_all add: on_the_way_def begun_def)

lemma offers_run:
  "live_ok s \<Longrightarrow> live_run es s = Ret s' \<Longrightarrow> i < length (b_chans (lv_bus s)) \<Longrightarrow>
    mset (offers i es s) + on_the_way i s' + begun s = on_the_way i s + begun s'"
proof (induction es arbitrary: s)
  case (Cons e es)
  then obtain s1 where s1: "live_step e s = Ret s1" "live_run es s1 = Ret s'" by (auto simp: obind_eqs)
  have "i < length (b_chans (lv_bus s1))"
    using live_step_chans_grow [OF Cons.prems(1) s1(1)] Cons.prems(3) by simp
  then have "mset (offers i es s1) + on_the_way i s' + begun s1 = on_the_way i s1 + begun s'"
    by (rule Cons.IH [OF live_step_ok [OF Cons.prems(1) s1(1)] s1(2)])
  moreover have "mset (offered_by i e s) + on_the_way i s1 + begun s = on_the_way i s + begun s1"
    by (rule offers_step [OF Cons.prems(1) s1(1) Cons.prems(3)])
  ultimately have "mset (offered_by i e s) + mset (offers i es s1) + on_the_way i s' + begun s + (begun s1 + on_the_way i s1) =
      on_the_way i s + begun s' + (begun s1 + on_the_way i s1)"
    by (metis (no_types, lifting) add.assoc add.commute)
  then show ?case using s1(1) by simp
qed simp

lemma nothing_left_to_serve:
  assumes "live_ok s" "\<not> lock_shared s" "k < length (lv_calls s)"
  shows "hc_todo (lv_calls s ! k) = []"
proof -
  have "hc_returned (lv_calls s ! k)" using assms(2,3) by (auto simp: lock_shared_def list_ex_iff)
  moreover have "call_ok (lv_bus s) (lv_calls s ! k)" using assms(1,3) by (simp add: live_ok_def)
  ultimately show ?thesis by (simp add: call_ok_def)
qed

lemma nothing_on_the_way:
  assumes "live_ok s" "\<not> lock_shared s"
  shows "on_the_way i s = {#}"
  using nothing_left_to_serve [OF assms] by (auto simp: on_the_way_def in_set_conv_nth)

lemma offered_once:
  assumes "bus_ok b" "i < length (b_chans b)" "live_run es (alone b) = Ret s" "\<not> lock_shared s"
  shows "mset (offers i es (alone b)) = mset (map hc_frame (lv_calls s))"
proof -
  have ok: "live_ok (alone b)" using assms(1) by simp
  have "on_the_way i s = {#}"
    using live_run_ok [OF ok assms(3)] assms(4) by (rule nothing_on_the_way)
  moreover have "on_the_way i (alone b) = {#}" "begun (alone b) = {#}" by (simp_all add: on_the_way_def begun_def)
  ultimately have "mset (offers i es (alone b)) = begun s"
    using offers_run [OF ok assms(3), of i] assms(2) by simp
  then show ?thesis by (simp add: begun_def)
qed

subsection \<open>A header that waits\<close>

definition held_up :: "nat \<Rightarrow> subscription \<Rightarrow> shared_bus \<Rightarrow> bool" where
  "held_up k t s \<longleftrightarrow> k < length (lv_calls s) \<and> \<not> hc_returned (lv_calls s ! k) \<and>
     hc_todo (lv_calls s ! k) \<noteq> [] \<and> hd (hc_todo (lv_calls s ! k)) = t \<and>
     must_wait (hc_frame (lv_calls s ! k)) t (b_chans (lv_bus s) ! sb_ch t)"

text \<open>The steps that make room on a channel or close it, on behalf of the one who holds it.\<close>

fun relieves :: "nat \<Rightarrow> bus_event \<Rightarrow> bool" where
  "relieves i (Call (Client j x)) \<longleftrightarrow> j = i \<and> (x = Recv \<or> x = TryRecv \<or> x = CloseChan)"
| "relieves i _ \<longleftrightarrow> False"

lemma held_up_locks: "held_up k t s \<Longrightarrow> lock_shared s"
  unfolding held_up_def lock_shared_def list_ex_iff by (blast intro: nth_mem)

lemma locked_writers_wait: "takes_lock x \<Longrightarrow> lock_shared s \<Longrightarrow> live_step (Call x) s = Blocks"
  by (cases x) (auto simp: live_call_def)

lemma held_up_waits:
  assumes "live_ok s" "held_up k t s"
  shows "live_step (Turn k) s = Blocks"
proof -
  obtain ts where "hc_todo (lv_calls s ! k) = t # ts"
    using assms(2) by (cases "hc_todo (lv_calls s ! k)") (auto simp: held_up_def)
  then show ?thesis
    using assms offered_delivered [OF assms(1), of k t ts] by (simp add: held_up_def header_turn_def Let_def)
qed

text \<open>One frame received from that channel, and the header can go on.\<close>

lemma held_up_relieved:
  assumes "live_ok s" "held_up k t s"
  shows "\<exists>s1 s2. live_step (Call (Client (sb_ch t) Recv)) s = Ret s1 \<and> live_step (Turn k) s1 = Ret s2"
proof -
  define c where "c = b_chans (lv_bus s) ! sb_ch t"
  obtain ts where k: "k < length (lv_calls s)" "\<not> hc_returned (lv_calls s ! k)" "hc_todo (lv_calls s ! k) = t # ts"
    using assms(2) by (cases "hc_todo (lv_calls s ! k)") (auto simp: held_up_def)
  note t = live_ok_todo [OF assms(1) k]
  define s1 where "s1 = s\<lparr>lv_bus := client_chan (sb_ch t) Recv (lv_bus s)\<rparr>"
  have recv: "live_step (Call (Client (sb_ch t) Recv)) s = Ret s1"
    by (simp add: live_call_def s1_def)
  have after: "b_chans (lv_bus s1) ! sb_ch t = chan_step Recv c"
    using t(2) by (simp add: s1_def client_chan_def c_def)
  have "must_wait (hc_frame (lv_calls s ! k)) t c" using assms(2) by (simp add: held_up_def c_def)
  moreover have "chan_ok c" using t(3) by (simp add: c_def)
  ultimately have "\<not> must_wait (hc_frame (lv_calls s ! k)) t (chan_step Recv c)"
    by (cases "ch_buf c") (auto simp: must_wait_def chan_defs chan_ok_def)
  then have "\<exists>s2. live_step (Turn k) s1 = Ret s2"
    using k after offered_delivered [of s1 k t ts] live_step_ok [OF assms(1) recv]
    by (simp add: s1_def header_turn_def Let_def)
  with recv show ?thesis by blast
qed

lemma full_stays_full:
  "must_wait f t c \<Longrightarrow> x \<noteq> Recv \<Longrightarrow> x \<noteq> TryRecv \<Longrightarrow> x \<noteq> CloseChan \<Longrightarrow> must_wait f t (chan_step x c)"
  by (cases x) (auto simp: must_wait_def chan_defs split: list.splits)

lemma held_up_step:
  assumes ok: "live_ok s" and held: "held_up k t s" and step: "live_step e s = Ret s'"
    and "\<not> relieves (sb_ch t) e"
  shows "held_up k t s'"
  using step
proof (cases rule: live_step_cases)
  case (client i y)
  show ?thesis
  proof (cases "i = sb_ch t \<and> i < length (b_chans (lv_bus s))")
    case True
    then have "y \<noteq> Recv" "y \<noteq> TryRecv" "y \<noteq> CloseChan" using assms(4) client(1) by auto
    then show ?thesis using held client True by (simp add: held_up_def client_chan_def full_stays_full)
  next
    case False
    then have "b_chans (lv_bus s') ! sb_ch t = b_chans (lv_bus s) ! sb_ch t"
      using client by (cases "i = sb_ch t") (simp_all add: client_chan_def list_update_beyond)
    then show ?thesis using held client by (simp add: held_up_def)
  qed
next
  case (returned j)
  then have "j \<noteq> k" using held by (auto simp: held_up_def)
  then show ?thesis using held returned by (simp add: held_up_def)
next
  case (offered j u us)
  note j = offered_bus [OF ok offered(2-5)]
  have k: "k < length (lv_calls s)" "\<not> hc_returned (lv_calls s ! k)"
      "hc_todo (lv_calls s ! k) = t # tl (hc_todo (lv_calls s ! k))"
    and mw: "must_wait (hc_frame (lv_calls s ! k)) t (b_chans (lv_bus s) ! sb_ch t)"
    using held by (auto simp: held_up_def)
  have "j \<noteq> k" using mw j(2) offered(4) k(3) by auto
  note t = live_ok_todo [OF ok k] and u = live_ok_todo [OF ok offered(2-4)]
  have "b_chans (lv_bus s') ! sb_ch t = b_chans (lv_bus s) ! sb_ch t"
  proof (cases "sb_ch u = sb_ch t")
    case True
    have "distinct (map sb_ch (b_subs (lv_bus s)))"
      using ok bus_ok_subs by (auto simp: live_ok_def subs_ok_def)
    then have "u = t" using True t(1) u(1) by (auto simp: distinct_map dest: inj_onD)
    then have "\<not> matches_any (sb_filters t) (hc_frame (lv_calls s ! j))"
      using j(2) mw by (auto simp: must_wait_def)
    then show ?thesis
      using \<open>u = t\<close> j(1) t(2) by (simp add: chan_after_def)
  next
    case False
    then show ?thesis by (simp add: j(1))
  qed
  then show ?thesis using held offered \<open>j \<noteq> k\<close> by (simp add: held_up_def)
qed (use held held_up_locks in \<open>auto simp: held_up_def nth_append\<close>)

lemma held_up_run:
  assumes "live_ok s" "held_up k t s" "live_run es s = Ret s'" "\<forall>e\<in>set es. \<not> relieves (sb_ch t) e"
  shows "held_up k t s'"
  using live_safe.run_good_invariant [where P = "held_up k t", OF assms(1-3)] held_up_step assms(4) by blast

subsection \<open>Progress of one call\<close>

text \<open>The others never touch a call's place in its loop, nor what is left of it.\<close>

definition place :: "nat \<Rightarrow> shared_bus \<Rightarrow> nat" where
  "place k s = (if hc_returned (lv_calls s ! k) then 0 else Suc (length (hc_todo (lv_calls s ! k))))"

lemma live_step_place:
  assumes "live_step e s = Ret s'" "k < length (lv_calls s)"
  shows "k < length (lv_calls s')" "place k s' = (if e = Turn k then place k s - 1 else place k s)"
    "hc_frame (lv_calls s' ! k) = hc_frame (lv_calls s ! k)"
proof -
  have "k < length (lv_calls s') \<and> place k s' = (if e = Turn k then place k s - 1 else place k s) \<and>
      hc_frame (lv_calls s' ! k) = hc_frame (lv_calls s ! k)"
    using assms(1)
  proof (cases rule: live_step_cases)
    case (returned j)
    then show ?thesis using assms(2) by (cases "j = k") (auto simp: place_def)
  next
    case (offered j t ts)
    then show ?thesis using assms(2) by (cases "j = k") (auto simp: place_def)
  qed (use assms(2) in \<open>auto simp: place_def nth_append\<close>)
  then show "k < length (lv_calls s')" "place k s' = (if e = Turn k then place k s - 1 else place k s)"
    "hc_frame (lv_calls s' ! k) = hc_frame (lv_calls s ! k)"
    by simp_all
qed

lemma live_run_place:
  "live_run es s = Ret s' \<Longrightarrow> k < length (lv_calls s) \<Longrightarrow>
    k < length (lv_calls s') \<and> place k s' = place k s - count_list es (Turn k)"
proof (induction es arbitrary: s)
  case (Cons e es)
  then obtain s1 where s1: "live_step e s = Ret s1" "live_run es s1 = Ret s'" by (auto simp: obind_eqs)
  note step = live_step_place [OF s1(1) Cons.prems(2)]
  show ?case using Cons.IH [OF s1(2) step(1)] step(2) by auto
qed simp

text \<open>Under the dropping policies a call's own turn is never refused.\<close>

lemma turn_not_refused:
  assumes "live_ok s" "no_block_subs (lv_bus s)" "k < length (lv_calls s)" "0 < place k s"
  shows "\<exists>s'. live_step (Turn k) s = Ret s'"
proof (cases "hc_todo (lv_calls s ! k)")
  case Nil
  then show ?thesis using assms(3,4) by (simp add: place_def header_turn_def Let_def split: if_splits)
next
  case (Cons t ts)
  have k: "\<not> hc_returned (lv_calls s ! k)" using assms(4) by (simp add: place_def split: if_splits)
  have "sb_policy t \<noteq> Block"
    using live_ok_todo(1) [OF assms(1,3) k Cons] assms(2) by (simp add: no_block_subs_def)
  then show ?thesis
    using offered_delivered [OF assms(1,3) k Cons] assms(3) k Cons
    by (simp add: header_turn_def Let_def must_wait_def)
qed

subsection \<open>Calls that do not overlap\<close>

text \<open>A call whose rounds follow one another is the call of theory \<open>VirtualBus\<close>.\<close>

lemma turns_broadcast:
  assumes "broadcast f ss b = Ret b'" "k = length cs"
  shows "live_run (replicate (length ss) (Turn k) @ [Turn k])
      \<lparr>lv_bus = b, lv_calls = cs @ [\<lparr>hc_frame = f, hc_todo = ss, hc_returned = False\<rparr>]\<rparr> =
    Ret \<lparr>lv_bus = b', lv_calls = cs @ [\<lparr>hc_frame = f, hc_todo = [], hc_returned = True\<rparr>]\<rparr>"
  using assms
proof (induction ss arbitrary: b)
  case (Cons t ts)
  then obtain b1 where "deliver f t b = Ret b1" "broadcast f ts b1 = Ret b'" by (auto simp: obind_eqs)
  with Cons show ?case by (simp add: header_turn_def Let_def)
qed (simp add: header_turn_def Let_def)

lemma lock_shared_append [simp]: "lock_shared \<lparr>lv_bus = b, lv_calls = cs @ [c]\<rparr> \<longleftrightarrow> lock_shared \<lparr>lv_bus = b, lv_calls = cs\<rparr> \<or> \<not> hc_returned c"
  by (simp add: lock_shared_def)

lemma lock_shared_bus [simp]: "lock_shared (s\<lparr>lv_bus := b\<rparr>) = lock_shared s"
  by (simp add: lock_shared_def)

lemma whole_call:
  assumes "\<not> lock_shared s" "bus_step x (lv_bus s) = Ret b'"
  shows "\<exists>es cs. live_run (Call x # es) s = Ret \<lparr>lv_bus = b', lv_calls = lv_calls s @ cs\<rparr> \<and>
    \<not> lock_shared \<lparr>lv_bus = b', lv_calls = lv_calls s @ cs\<rparr>"
proof -
  obtain b cs where s: "s = \<lparr>lv_bus = b, lv_calls = cs\<rparr>" by (cases s)
  show ?thesis
  proof (cases "\<exists>i. x = SendHeader i")
    case False
    then have "live_call x s = Ret (s\<lparr>lv_bus := b'\<rparr>)"
      using assms by (simp add: live_call_def client_call)
    then have "live_run [Call x] s = Ret \<lparr>lv_bus = b', lv_calls = lv_calls s @ []\<rparr>" by (simp add: s)
    moreover have "\<not> lock_shared \<lparr>lv_bus = b', lv_calls = lv_calls s @ []\<rparr>"
      using assms(1) by (simp add: lock_shared_def)
    ultimately show ?thesis by blast
  next
    case True
    then obtain i where x: "x = SendHeader i" by blast
    obtain r b1 where h: "begin_header i b = (r, b1)" by fastforce
    show ?thesis
    proof (cases r)
      case (Inl e)
      then have "live_run [Call x] s = Ret \<lparr>lv_bus = b', lv_calls = lv_calls s @ []\<rparr>"
        using assms(2) x h s by (simp add: live_call_def send_header_pieces)
      moreover have "\<not> lock_shared \<lparr>lv_bus = b', lv_calls = lv_calls s @ []\<rparr>"
        using assms(1) by (simp add: lock_shared_def)
      ultimately show ?thesis by blast
    next
      case (Inr f)
      then have "broadcast f (b_subs b1) b1 = Ret b'"
        using assms(2) x h s by (auto simp: send_header_pieces obind_eqs)
      then have "live_run (Call x # replicate (length (b_subs b1)) (Turn (length cs)) @ [Turn (length cs)]) s =
          Ret \<lparr>lv_bus = b', lv_calls = lv_calls s @ [\<lparr>hc_frame = f, hc_todo = [], hc_returned = True\<rparr>]\<rparr>"
        using Inr x h s turns_broadcast [of f "b_subs b1" b1 b' "length cs" cs] by (simp add: live_call_def)
      moreover have "\<not> lock_shared \<lparr>lv_bus = b', lv_calls = lv_calls s @ [\<lparr>hc_frame = f, hc_todo = [], hc_returned = True\<rparr>]\<rparr>"
        using assms(1) by (simp add: lock_shared_def)
      ultimately show ?thesis by blast
    qed
  qed
qed

lemma whole_calls:
  "\<not> lock_shared s \<Longrightarrow> bus_run xs (lv_bus s) = Ret b' \<Longrightarrow>
    \<exists>es s'. live_run es s = Ret s' \<and> lv_bus s' = b' \<and> \<not> lock_shared s'"
proof (induction xs arbitrary: s)
  case Nil
  then have "live_run [] s = Ret s \<and> lv_bus s = b' \<and> \<not> lock_shared s" by simp
  then show ?case by blast
next
  case (Cons x xs)
  then obtain b1 where b1: "bus_step x (lv_bus s) = Ret b1" "bus_run xs b1 = Ret b'" by (auto simp: obind_eqs)
  obtain es s1 where s1: "live_run es s = Ret s1" "lv_bus s1 = b1" "\<not> lock_shared s1"
    using whole_call [OF Cons.prems(1) b1(1)] by (metis shared_bus.select_convs(1))
  obtain es' s' where "live_run es' s1 = Ret s'" "lv_bus s' = b'" "\<not> lock_shared s'"
    using Cons.IH [OF s1(3)] b1(2) s1(2) by auto
  then have "live_run (es @ es') s = Ret s'" using s1(1) by (simp add: live.run_append)
  with \<open>lv_bus s' = b'\<close> \<open>\<not> lock_shared s'\<close> show ?case by blast
qed

lemma deliver_subs: "deliver f t b = Ret b' \<Longrightarrow> b_subs b' = b_subs b"
  by (cases "sb_policy t") (auto simp: deliver_def Let_def obind_eqs split: if_splits prod.splits)

lemma locked_subs:
  assumes "live_step e s = Ret s'" "k < length (lv_calls s)" "0 < place k s"
  shows "b_subs (lv_bus s') = b_subs (lv_bus s)"
  using assms(1)
proof (cases rule: live_step_cases)
  case (locked x)
  have "\<not> hc_returned (lv_calls s ! k)" using assms(3) by (simp add: place_def split: if_splits)
  then have "lock_shared s" using assms(2) unfolding lock_shared_def list_ex_iff by (blast intro: nth_mem)
  then show ?thesis using locked(3) by simp
next
  case (offered j t ts)
  then show ?thesis by (blast dest: deliver_subs)
qed simp_all

lemma locked_subs_run:
  "live_run es s = Ret s' \<Longrightarrow> k < length (lv_calls s) \<Longrightarrow> 0 < place k s' \<Longrightarrow>
    b_subs (lv_bus s') = b_subs (lv_bus s)"
proof (induction es arbitrary: s)
  case (Cons e es)
  then obtain s1 where s1: "live_step e s = Ret s1" "live_run es s1 = Ret s'" by (auto simp: obind_eqs)
  note step = live_step_place [OF s1(1) Cons.prems(2)]
  have "0 < place k s1" using live_run_place [OF s1(2) step(1)] Cons.prems(3) by simp
  then have "0 < place k s" using step(2) by (simp split: if_splits)
  then show ?case
    using Cons.IH [OF s1(2) step(1) Cons.prems(3)] locked_subs [OF s1(1) Cons.prems(2)] by simp
qed simp

subsection \<open>Subscriptions alike\<close>

text \<open>
  Two subscriptions made alike, the first two of the bus, whose channels nobody has touched: calls
  that do not overlap keep their channels equal.
\<close>

definition alike :: "bus \<Rightarrow> bool" where
  "alike b \<longleftrightarrow> 2 \<le> length (b_chans b) \<and> b_chans b ! 0 = b_chans b ! 1 \<and>
     (b_closed b \<or> sb_filters (b_subs b ! 0) = sb_filters (b_subs b ! 1) \<and> sb_policy (b_subs b ! 0) = sb_policy (b_subs b ! 1))"

lemma open_subs_nth:
  assumes "bus_ok b" "\<not> b_closed b" "i < length (b_chans b)"
  shows "i < length (b_subs b) \<and> sb_ch (b_subs b ! i) = i"
proof -
  have m: "map sb_ch (b_subs b) = [0..<length (b_chans b)]" using assms(1,2) by (simp add: bus_ok_def)
  then have "length (b_subs b) = length (b_chans b)" by (metis length_map length_upt minus_nat.diff_0)
  moreover have "map sb_ch (b_subs b) ! i = i" using assms(3) m by simp
  ultimately show ?thesis using assms(3) by simp
qed

lemma send_header_alike:
  assumes ok: "bus_ok b" and al: "alike b" and h: "send_header i b = Ret (r, b')"
  shows "alike b'"
proof -
  have err: ?thesis if "b' = count_error b" using al that by (simp add: alike_def)
  have fin: ?thesis if op: "\<not> b_closed b" and b': "b' = fold (delivered f) (b_subs b) (count_written f b)" for f
  proof -
    have two: "0 < length (b_chans b)" "1 < length (b_chans b)" using al by (auto simp: alike_def)
    note s0 = open_subs_nth [OF ok op two(1)] and s1 = open_subs_nth [OF ok op two(2)]
    have subs: "subs_ok (b_subs b) (b_chans (count_written f b))" using bus_ok_subs [OF ok] by simp
    have "b_chans b' ! sb_ch (b_subs b ! j) = chan_after f (b_subs b ! j) (b_chans b ! sb_ch (b_subs b ! j))"
      if "j < length (b_subs b)" for j
      using fold_delivered_chan [OF subs, of "b_subs b ! j" f] that b' by simp
    from this [of 0] this [of 1] show ?thesis
      using s0 s1 al op b' by (simp add: alike_def chan_after_def)
  qed
  show ?thesis
    using h err fin by (auto simp: send_header_closed_form [OF ok] Let_def split: if_splits option.splits)
qed

lemma table_call_chans:
  "b_chans (snd (publish i d b)) = b_chans b" "b_chans (snd (publish_classic i d b)) = b_chans b"
  "b_chans (snd (set_schedule es b)) = b_chans b"
  by (simp_all add: publish_def publish_classic_def do_publish_def set_schedule_def Let_def)

lemma bus_step_alike:
  assumes ok: "bus_ok b" and al: "alike b" and step: "bus_step x b = Ret b'" and "\<And>i y. x \<noteq> Client i y"
  shows "alike b'"
proof (cases x)
  case (SendHeader i)
  then show ?thesis using step send_header_alike [OF ok al] by (auto simp: obind_eqs)
next
  case (Subscribe fs opts)
  show ?thesis
  proof (cases "b_closed b")
    case False
    have "2 \<le> length (b_chans b)" using al by (simp add: alike_def)
    then have "0 < length (b_subs b)" "1 < length (b_subs b)"
      using open_subs_nth [OF ok False, of 0] open_subs_nth [OF ok False, of 1] by auto
    then show ?thesis
      using step al Subscribe False by (auto simp: alike_def subscribe_def Let_def nth_append)
  qed (use step al Subscribe in \<open>auto simp: alike_def subscribe_def Let_def\<close>)
next
  case CloseBus
  have "0 < length (b_chans b)" "1 < length (b_chans b)" using al by (auto simp: alike_def)
  moreover have "b' = snd (bus_close b)" using CloseBus step by simp
  ultimately show ?thesis using al by (simp add: alike_def bus_close_chans [OF ok])
qed (use step al assms(4) in \<open>auto simp: alike_def table_call_chans\<close>)

lemma bus_run_alike:
  assumes "bus_ok b" "alike b" "bus_run xs b = Ret b'" "\<forall>x\<in>set xs. \<forall>i y. x \<noteq> Client i y"
  shows "alike b'"
  using bus_calls.run_good_invariant [where P = alike, OF assms(1-3)] bus_step_alike assms(4) by blast

subsection \<open>Runs to look at\<close>

definition two_listeners :: "bus_op list" where
  "two_listeners = [Subscribe [] [], Subscribe [] [], Publish 1 [0x11], Publish 2 [0x22]]"

definition crossing :: "bus_event list" where
  "crossing = map Call two_listeners @
     [Call (SendHeader 1), Call (SendHeader 2), Turn 1, Turn 0, Turn 0, Turn 1, Turn 0, Turn 1]"

definition ids_on :: "nat \<Rightarrow> bus \<Rightarrow> u8 list" where
  "ids_on i b = map f_id (ch_buf (b_chans b ! i))"

definition when_ret :: "'a outcome \<Rightarrow> ('a \<Rightarrow> bool) \<Rightarrow> bool" where
  "when_ret m P = (case m of Ret x \<Rightarrow> P x | _ \<Rightarrow> False)"

lemma when_ret_iff: "when_ret m P \<longleftrightarrow> (\<exists>x. m = Ret x \<and> P x)"
  by (cases m) (simp_all add: when_ret_def)

lemma crossing_runs:
  "\<exists>s. live_run crossing (alone new_bus) = Ret s \<and> \<not> lock_shared s \<and>
     ids_on 0 (lv_bus s) = [2, 1] \<and> ids_on 1 (lv_bus s) = [1, 2]"
proof -
  have "when_ret (live_run crossing (alone new_bus)) (\<lambda>s. \<not> lock_shared s \<and>
     ids_on 0 (lv_bus s) = [2, 1] \<and> ids_on 1 (lv_bus s) = [1, 2])"
    by code_simp
  then show ?thesis by (simp only: when_ret_iff)
qed

lemma two_listeners_run: "\<exists>b. bus_run two_listeners new_bus = Ret b \<and> bus_ok b \<and> alike b"
proof -
  have "when_ret (bus_run two_listeners new_bus) alike" by code_simp
  then show ?thesis using bus_run_ok [OF bus_ok_new] by (auto simp: when_ret_iff)
qed

text \<open>A subscriber with room for one frame under \<open>Block\<close>, and the same header twice.\<close>

definition jammed :: "bus_event list" where
  "jammed = map Call [Subscribe [] [with_channel_depth 1, with_back_pressure Block], Publish 1 [0x11], SendHeader 1]
     @ [Turn 0, Turn 0, Call (SendHeader 1)]"

definition shutdown_try :: "bus_event list" where
  "shutdown_try = [Call (SendHeader 2), Call (Client 0 (TrySend default_frame))]"

lemma jammed_runs:
  "\<exists>s t s'. live_run jammed (alone new_bus) = Ret s \<and> held_up 1 t s \<and> live_run shutdown_try s = Ret s'
     \<and> sb_ch t = 0"
proof -
  have "when_ret (live_run jammed (alone new_bus)) (\<lambda>s. held_up 1 (hd (hc_todo (lv_calls s ! 1))) s \<and>
      when_ret (live_run shutdown_try s) (\<lambda>s'. sb_ch (hd (hc_todo (lv_calls s ! 1))) = 0))"
    by code_simp
  then show ?thesis unfolding when_ret_iff by blast
qed

subsection \<open>The properties\<close>

text \<open>C6: whatever the threads do, in whatever order, at every moment: no step is undefined; the
  table holds only responses with an identifier of at most 0x3F and data, diagnostic ones under the
  classic checksum; no channel is above its capacity; an open bus has one subscription for each
  channel, in order, and a closed one has no subscription left, every channel closed and no header
  in its loop. A close that returns has closed the bus, and it stays closed. A header in its loop finds the bus open, delivers the response that is registered
  now under its identifier, and what it has left to serve is an end piece of the subscriptions.\<close>

theorem overlapping_headers_safe:
  assumes "reachable s"
  shows "live_step e s \<noteq> UB \<and>
    (\<forall>s'. live_step e s = Ret s' \<and> (e = Call CloseBus \<or> b_closed (lv_bus s)) \<longrightarrow> b_closed (lv_bus s')) \<and>
    (\<forall>i r. b_responses (lv_bus s) i = Some r \<longrightarrow>
       i \<le> 0x3F \<and> re_data r \<noteq> [] \<and> (i = 0x3C \<or> i = 0x3D \<longrightarrow> re_checksum_type r = Classic)) \<and>
    (\<forall>c\<in>set (b_chans (lv_bus s)). length (ch_buf c) \<le> ch_capacity c \<and> 0 < ch_capacity c) \<and>
    (if b_closed (lv_bus s)
     then b_subs (lv_bus s) = [] \<and> (\<forall>c\<in>set (b_chans (lv_bus s)). ch_closed c) \<and> (\<forall>c\<in>set (lv_calls s). hc_returned c)
     else map sb_ch (b_subs (lv_bus s)) = [0..<length (b_chans (lv_bus s))]) \<and>
    (\<forall>c\<in>set (lv_calls s).
       if hc_returned c then hc_todo c = []
       else \<not> b_closed (lv_bus s) \<and> suffix (hc_todo c) (b_subs (lv_bus s)) \<and>
         (\<exists>i r. b_responses (lv_bus s) i = Some r \<and> hc_frame c = response_frame i r))"
proof -
  have ok: "live_ok s" using assms by (rule reachable_ok)
  note bus = live_ok_bus [OF ok] and calls = live_ok_calls [OF ok]
  have closes: "b_closed (lv_bus s')"
    if "live_step e s = Ret s' \<and> (e = Call CloseBus \<or> b_closed (lv_bus s))" for s'
    using that live_step_closed [OF ok] by (auto simp: live_call_def obind_eqs split: if_splits)
  have "\<forall>c\<in>set (lv_calls s). hc_returned c" if "b_closed (lv_bus s)"
    using live_ok_calls [OF ok] that by (metis (full_types))
  with bus(3) have table: "if b_closed (lv_bus s)
     then b_subs (lv_bus s) = [] \<and> (\<forall>c\<in>set (b_chans (lv_bus s)). ch_closed c) \<and> (\<forall>c\<in>set (lv_calls s). hc_returned c)
     else map sb_ch (b_subs (lv_bus s)) = [0..<length (b_chans (lv_bus s))]" by simp
  show ?thesis
    by (intro conjI live_step_no_UB [OF ok] table allI ballI impI)
       (erule closes | erule bus(1) [THEN conjunct1] | erule bus(1) [THEN conjunct2, THEN conjunct1]
         | erule (1) bus(1) [THEN conjunct2, THEN conjunct2, THEN mp] | erule bus(2) [THEN conjunct1]
         | erule bus(2) [THEN conjunct2] | erule calls)+
qed

definition closing :: "bus_event list" where
  "closing = map Call [Subscribe [] [], Publish 1 [0x11], SendHeader 1] @ [Turn 0, Turn 0, Call CloseBus, Call (SendHeader 1)]"

theorem overlapping_headers_safe_witness:
  "\<exists>s s'. live_run jammed (alone new_bus) = Ret s \<and> lock_shared s \<and> live_step (Turn 1) s \<noteq> UB \<and>
     live_run closing (alone new_bus) = Ret s' \<and> b_closed (lv_bus s') \<and>
     b_subs (lv_bus s') = [] \<and> (\<forall>c\<in>set (b_chans (lv_bus s')). ch_closed c)"
proof -
  obtain s t where s: "live_run jammed (alone new_bus) = Ret s" "held_up 1 t s" using jammed_runs by blast
  have "when_ret (live_run closing (alone new_bus)) (\<lambda>s. b_closed (lv_bus s))" by code_simp
  then obtain s' where s': "live_run closing (alone new_bus) = Ret s'" "b_closed (lv_bus s')"
    unfolding when_ret_iff by blast
  note safe = overlapping_headers_safe [OF live_run_reachable [OF reachable.start]]
  show ?thesis
    using safe [OF s(1), of "Turn 1", THEN conjunct1] held_up_locks [OF s(2)] s(1) s' safe [OF s'(1)] by auto
qed

text \<open>C9: a header that waits on the full channel of a Block subscriber keeps waiting, and keeps
  every \<open>publish\<close>, \<open>subscribe\<close>, \<open>set_schedule\<close> and \<open>close\<close> of the bus out, whatever the other threads do,
  until the holder of that channel receives from it or closes it. One frame received is enough for
  it to go on.\<close>

theorem waiting_header_blocks_writers:
  assumes "reachable s" "held_up k t s" "live_run es s = Ret s'" "\<forall>e\<in>set es. \<not> relieves (sb_ch t) e"
    and "takes_lock x"
  shows "\<not> hc_returned (lv_calls s' ! k) \<and> live_step (Turn k) s' = Blocks \<and> live_step (Call x) s' = Blocks
    \<and> (\<exists>s1 s2. live_step (Call (Client (sb_ch t) Recv)) s' = Ret s1 \<and> live_step (Turn k) s1 = Ret s2)"
proof -
  have ok: "live_ok s" using assms(1) by (rule reachable_ok)
  have held: "held_up k t s'" using ok assms(2-4) by (rule held_up_run)
  have "live_ok s'" using ok assms(3) by (rule live_run_ok)
  then show ?thesis
    using held_up_waits [OF _ held] held_up_relieved [OF _ held] locked_writers_wait [OF assms(5) held_up_locks [OF held]] held
    by (simp add: held_up_def)
qed

theorem waiting_header_blocks_writers_witness:
  "\<exists>s s'. live_run jammed (alone new_bus) = Ret s \<and> live_run shutdown_try s = Ret s' \<and>
     live_step (Turn 1) s' = Blocks \<and> live_step (Call CloseBus) s' = Blocks"
proof -
  obtain s t s' where s: "live_run jammed (alone new_bus) = Ret s" "held_up 1 t s"
    and s': "live_run shutdown_try s = Ret s'" using jammed_runs by blast
  have "\<forall>e\<in>set shutdown_try. \<not> relieves (sb_ch t) e" by (simp add: shutdown_try_def)
  from waiting_header_blocks_writers [OF live_run_reachable [OF reachable.start s(1)] s(2) s' this, of CloseBus]
  show ?thesis using s(1) s' by auto
qed

text \<open>Two headers that overlap can reach two subscriptions made alike in opposite orders, which
  calls that do not overlap never do: the channels then stay equal whatever is called.\<close>

theorem overlapping_headers_not_serial:
  "(\<exists>s. live_run crossing (alone new_bus) = Ret s \<and> \<not> lock_shared s \<and>
      ids_on 0 (lv_bus s) = [2, 1] \<and> ids_on 1 (lv_bus s) = [1, 2]) \<and>
   (\<forall>xs b. (\<forall>x\<in>set xs. \<forall>i y. x \<noteq> Client i y) \<longrightarrow> bus_run (two_listeners @ xs) new_bus = Ret b \<longrightarrow>
      ids_on 0 b = ids_on 1 b)"
proof (intro conjI allI impI)
  fix xs b
  assume calls: "\<forall>x\<in>set xs. \<forall>i y. x \<noteq> Client i y" and run: "bus_run (two_listeners @ xs) new_bus = Ret b"
  obtain b0 where b0: "bus_run two_listeners new_bus = Ret b0" "bus_ok b0" "alike b0"
    using two_listeners_run by blast
  then have "bus_run xs b0 = Ret b" using run by (simp add: bus_calls.run_append)
  then have "alike b" using bus_run_alike [OF b0(2,3) _ calls] by blast
  then show "ids_on 0 b = ids_on 1 b" by (simp add: alike_def ids_on_def)
qed (rule crossing_runs)

theorem overlapping_headers_not_serial_witness:
  "\<exists>b. bus_run (two_listeners @ [SendHeader 2, SendHeader 1]) new_bus = Ret b \<and> ids_on 0 b = [2, 1] \<and> ids_on 0 b = ids_on 1 b"
proof -
  have "when_ret (bus_run (two_listeners @ [SendHeader 2, SendHeader 1]) new_bus) (\<lambda>b. ids_on 0 b = [2, 1])"
    by code_simp
  then obtain b where "bus_run (two_listeners @ [SendHeader 2, SendHeader 1]) new_bus = Ret b" "ids_on 0 b = [2, 1]"
    unfolding when_ret_iff by blast
  moreover have "\<forall>x\<in>set [SendHeader 2, SendHeader 1]. \<forall>i y. x \<noteq> Client i y" by simp
  ultimately show ?thesis
    using overlapping_headers_not_serial [THEN conjunct2, THEN spec, THEN spec, THEN mp, THEN mp] by blast
qed

text \<open>With no Block subscription a header returns after one turn for each subscription and one
  more, however the other threads' steps fall between: its turns are never refused, and nobody else
  moves it.\<close>

theorem dropping_header_returns:
  assumes "reachable s" "no_block_subs (lv_bus s)" "k < length (lv_calls s)" "live_run es s = Ret s'"
  shows "place k s \<le> Suc (length (b_subs (lv_bus s))) \<and>
    place k s' = place k s - count_list es (Turn k) \<and>
    (if place k s \<le> count_list es (Turn k) then hc_returned (lv_calls s' ! k)
     else \<exists>s''. live_step (Turn k) s' = Ret s'')"
proof -
  have ok: "live_ok s" using assms(1) by (rule reachable_ok)
  note p = live_run_place [OF assms(4,3)]
  have "suffix (hc_todo (lv_calls s ! k)) (b_subs (lv_bus s))" if "\<not> hc_returned (lv_calls s ! k)"
    using live_ok_subs(1) [OF ok assms(3) that] .
  then have "place k s \<le> Suc (length (b_subs (lv_bus s)))"
    by (auto simp: place_def dest: suffix_length_le)
  moreover have "\<exists>s''. live_step (Turn k) s' = Ret s''" if "\<not> place k s \<le> count_list es (Turn k)"
  proof (rule turn_not_refused)
    show "live_ok s'" using ok assms(4) by (rule live_run_ok)
    show "0 < place k s'" "k < length (lv_calls s')" using p that by simp_all
    then show "no_block_subs (lv_bus s')"
      using locked_subs_run [OF assms(4,3)] assms(2) by (simp add: no_block_subs_def)
  qed
  moreover have "hc_returned (lv_calls s' ! k)" if "place k s \<le> count_list es (Turn k)"
    using p that by (simp add: place_def split: if_splits)
  ultimately show ?thesis using p by simp
qed

theorem dropping_header_returns_witness:
  "\<exists>s s'. live_run (take 6 crossing) (alone new_bus) = Ret s \<and> live_run (drop 6 crossing) s = Ret s' \<and>
     hc_returned (lv_calls s' ! 0)"
proof -
  have "when_ret (live_run (take 6 crossing) (alone new_bus)) (\<lambda>s. no_block_subs (lv_bus s) \<and> 0 < length (lv_calls s) \<and>
      place 0 s \<le> 3 \<and> when_ret (live_run (drop 6 crossing) s) (\<lambda>s'. True))"
    by code_simp
  then obtain s s' where s: "live_run (take 6 crossing) (alone new_bus) = Ret s" "no_block_subs (lv_bus s)"
    "0 < length (lv_calls s)" "place 0 s \<le> 3" "live_run (drop 6 crossing) s = Ret s'"
    unfolding when_ret_iff by blast
  moreover have "count_list (drop 6 crossing) (Turn 0) = 3" by (simp add: crossing_def two_listeners_def)
  ultimately show ?thesis
    using dropping_header_returns [OF live_run_reachable [OF reachable.start s(1)] s(2,3,5)] by auto
qed

end
