(* ===== verification/Shutdown.thy ===== *)
theory Shutdown
  imports BusThreads MasterNode
begin

text \<open>
  The threads of an application together: the master's \<open>run\<close> on the bus of theory \<open>BusThreads\<close>, any
  other threads on that bus, and a thread that shuts down in the order of SAFETY_MANUAL.md section
  4.5: it stores the stop flag, joins the thread of \<open>run\<close>, then closes the bus. The loop of \<open>run\<close> is
  that of theory \<open>MasterNode\<close>, with each header split into its steps on the bus; its callbacks leave
  the bus alone here.
\<close>

subsection \<open>State\<close>

text \<open>
  Where \<open>run\<close> is: before a load of the flag, past the load and about to call \<open>send_header\<close> for a slot
  (with the slots after it), or in the delivery loop of that call, the \<open>k\<close>-th on the bus.
\<close>

datatype run_pc =
    Loop master_pc
  | Calling schedule_entry "schedule_entry list"
  | InHeader nat schedule_entry "schedule_entry list"

datatype shutdown_pc = NotAsked | StopStored | RunJoined | BusClosed

text \<open>The statements of the shutdown in their order, so that \<open>s \<le> t\<close> says it has not gone back.\<close>

fun statements_done :: "shutdown_pc \<Rightarrow> nat" where
  "statements_done NotAsked = 0"
| "statements_done StopStored = 1"
| "statements_done RunJoined = 2"
| "statements_done BusClosed = 3"

instantiation shutdown_pc :: linorder
begin

definition less_eq_shutdown_pc :: "shutdown_pc \<Rightarrow> shutdown_pc \<Rightarrow> bool" where
  "less_eq_shutdown_pc a b \<longleftrightarrow> statements_done a \<le> statements_done b"

definition less_shutdown_pc :: "shutdown_pc \<Rightarrow> shutdown_pc \<Rightarrow> bool" where
  "less_shutdown_pc a b \<longleftrightarrow> statements_done a < statements_done b"

instance
proof
  fix a b :: shutdown_pc
  show "a = b" if "a \<le> b" "b \<le> a"
    using that by (cases a; cases b) (simp_all add: less_eq_shutdown_pc_def)
qed (auto simp: less_eq_shutdown_pc_def less_shutdown_pc_def)

end

record live_system =
  sys_pc :: run_pc
  sys_shutdown :: shutdown_pc
  sys_bus :: shared_bus

definition stop_flag :: "live_system \<Rightarrow> bool" where
  "stop_flag s \<longleftrightarrow> sys_shutdown s \<noteq> NotAsked"

definition sys_start :: "schedule_entry list \<Rightarrow> live_system" where
  "sys_start sched =
    \<lparr>sys_pc = Loop (if sched = [] then Returned ok_code else AtWhile),
     sys_shutdown = NotAsked, sys_bus = alone new_bus\<rparr>"

subsection \<open>Steps\<close>

definition after_header :: "int \<Rightarrow> schedule_entry \<Rightarrow> schedule_entry list \<Rightarrow> master_pc" where
  "after_header now slot ss =
    (if se_delay_ms slot > 0 then Waiting (now + int (unat (se_delay_ms slot)) * 1000000) ss
     else next_slot ss)"

text \<open>
  A turn of the thread of \<open>run\<close>. A header is in its loop when its call has been added to those of the
  bus; an error is returned at once. After its return the thread has no turns.
\<close>

definition run_turn :: "schedule_entry list \<Rightarrow> int \<Rightarrow> live_system \<Rightarrow> live_system outcome" where
  "run_turn sched now s =
    (case sys_pc s of
       InHeader k slot ss \<Rightarrow>
         obind (header_turn k (sys_bus s)) (\<lambda>b.
           Ret (s\<lparr>sys_bus := b,
                  sys_pc := (if hc_returned (lv_calls b ! k) then Loop (after_header now slot ss)
                             else InHeader k slot ss)\<rparr>))
     | Calling slot ss \<Rightarrow>
         obind (live_call (SendHeader (se_id slot)) (sys_bus s)) (\<lambda>b.
           let k = length (lv_calls (sys_bus s))
           in Ret (s\<lparr>sys_bus := b,
                     sys_pc := (if k < length (lv_calls b) then InHeader k slot ss
                                else Loop (after_header now slot ss))\<rparr>))
     | Loop pc \<Rightarrow>
         (case pc of
            AtWhile \<Rightarrow> Ret (s\<lparr>sys_pc := Loop (if stop_flag s then Returned ok_code else next_slot sched)\<rparr>)
          | AtSlot [] \<Rightarrow> Ret (s\<lparr>sys_pc := Loop AtWhile\<rparr>)
          | AtSlot (slot # ss) \<Rightarrow>
              Ret (s\<lparr>sys_pc := (if stop_flag s then Loop (Returned ok_code) else Calling slot ss)\<rparr>)
          | Waiting deadline ss \<Rightarrow>
              Ret (s\<lparr>sys_pc := Loop (if \<not> stop_flag s \<and> now < deadline then Waiting deadline ss
                                   else next_slot ss)\<rparr>)
          | Returned e \<Rightarrow> Blocks))"

text \<open>The next statement of the thread that shuts down; \<open>join\<close> waits until \<open>run\<close> has returned.\<close>

definition shutdown_turn :: "live_system \<Rightarrow> live_system outcome" where
  "shutdown_turn s =
    (case sys_shutdown s of
       NotAsked \<Rightarrow> Ret (s\<lparr>sys_shutdown := StopStored\<rparr>)
     | StopStored \<Rightarrow>
         (case sys_pc s of
            Loop (Returned e) \<Rightarrow> Ret (s\<lparr>sys_shutdown := RunJoined\<rparr>)
          | _ \<Rightarrow> Blocks)
     | RunJoined \<Rightarrow>
         obind (live_call CloseBus (sys_bus s)) (\<lambda>b. Ret (s\<lparr>sys_bus := b, sys_shutdown := BusClosed\<rparr>))
     | BusClosed \<Rightarrow> Blocks)"

text \<open>The other threads do anything on the bus but go on in the master's own call.\<close>

fun masters_own :: "run_pc \<Rightarrow> bus_event \<Rightarrow> bool" where
  "masters_own (InHeader k slot ss) (Turn j) \<longleftrightarrow> j = k"
| "masters_own _ _ \<longleftrightarrow> False"

datatype sys_event = RunTurn int | Other bus_event | ShutdownTurn

fun sys_step :: "schedule_entry list \<Rightarrow> sys_event \<Rightarrow> live_system \<Rightarrow> live_system outcome" where
  "sys_step sched (RunTurn now) s = run_turn sched now s"
| "sys_step sched (Other e) s =
    (if masters_own (sys_pc s) e then Blocks
     else obind (live_step e (sys_bus s)) (\<lambda>b. Ret (s\<lparr>sys_bus := b\<rparr>)))"
| "sys_step sched ShutdownTurn s = shutdown_turn s"

primrec sys_run :: "schedule_entry list \<Rightarrow> sys_event list \<Rightarrow> live_system \<Rightarrow> live_system outcome" where
  "sys_run sched [] s = Ret s"
| "sys_run sched (e # es) s = obind (sys_step sched e s) (sys_run sched es)"

inductive sys_reachable :: "schedule_entry list \<Rightarrow> live_system \<Rightarrow> bool" for sched where
  sys_begin: "sys_reachable sched (sys_start sched)"
| sys_next: "sys_reachable sched s \<Longrightarrow> sys_step sched e s = Ret s' \<Longrightarrow> sys_reachable sched s'"

interpretation sys: machine "sys_step sched" "sys_run sched" for sched
  by unfold_locales simp_all

lemma sys_run_reachable: "sys_reachable sched s \<Longrightarrow> sys_run sched es s = Ret s' \<Longrightarrow> sys_reachable sched s'"
  by (rule sys.run_invariant) (auto intro: sys_next)

subsection \<open>What a step is\<close>

lemma live_call_header:
  assumes "live_call (SendHeader i) s = Ret s'"
  shows "length (lv_calls s') = length (lv_calls s) \<or>
    length (lv_calls s') = Suc (length (lv_calls s)) \<and>
    place (length (lv_calls s)) s' = Suc (length (b_subs (lv_bus s)))"
  using assms by (auto simp: live_call_def place_def begin_header_Inr split: prod.splits sum.splits)

text \<open>The turns that \<open>run\<close> takes until its return, once the flag is set.\<close>

fun loop_turns :: "master_pc \<Rightarrow> nat" where
  "loop_turns AtWhile = 1"
| "loop_turns (AtSlot []) = 2"
| "loop_turns (AtSlot (slot # ss)) = 1"
| "loop_turns (Waiting d ss) = 2"
| "loop_turns (Returned e) = 0"

definition turns_left :: "live_system \<Rightarrow> nat" where
  "turns_left s = 
    (case sys_pc s of
       Loop pc \<Rightarrow> loop_turns pc
     | Calling slot ss \<Rightarrow> length (b_subs (lv_bus (sys_bus s))) + 4
     | InHeader k slot ss \<Rightarrow> place k (sys_bus s) + 2)"

definition sys_ok :: "live_system \<Rightarrow> bool" where
  "sys_ok s \<longleftrightarrow> live_ok (sys_bus s) \<and>
     (case sys_pc s of
        InHeader k slot ss \<Rightarrow> k < length (lv_calls (sys_bus s)) \<and> 0 < place k (sys_bus s) \<and>
          (sys_shutdown s = NotAsked \<or> sys_shutdown s = StopStored)
      | Calling slot ss \<Rightarrow> sys_shutdown s = NotAsked \<or> sys_shutdown s = StopStored
      | Loop pc \<Rightarrow> sys_shutdown s = NotAsked \<or> sys_shutdown s = StopStored \<or> (\<exists>e. pc = Returned e)) \<and>
     (sys_shutdown s = BusClosed \<longrightarrow> b_closed (lv_bus (sys_bus s)))"

lemma loop_turns_next_slot [simp]: "loop_turns (next_slot ss) = 1"
  by (cases ss) (simp_all add: next_slot_def)

lemma loop_turns_after_header: "loop_turns (after_header now slot ss) \<le> 2"
  by (simp add: after_header_def)

lemma masters_own_iff [simp]:
  "masters_own (InHeader k slot ss) e \<longleftrightarrow> e = Turn k"
  "\<not> masters_own (Loop pc) e" "\<not> masters_own (Calling slot ss) e"
  by (cases e; simp)+

lemma run_turn_cases:
  assumes "run_turn sched now s = Ret s'"
  obtains
    (own) pc pc' where "sys_pc s = Loop pc" "s' = s\<lparr>sys_pc := Loop pc'\<rparr>" "\<And>e. pc \<noteq> Returned e"
      "stop_flag s \<Longrightarrow> loop_turns pc' < loop_turns pc"
  | (goes_on) slot ss where "\<not> stop_flag s" "sys_pc s = Loop (AtSlot (slot # ss))" "s' = s\<lparr>sys_pc := Calling slot ss\<rparr>"
  | (header) slot ss b where "sys_pc s = Calling slot ss"
      "live_step (Call (SendHeader (se_id slot))) (sys_bus s) = Ret b"
      "s' = s\<lparr>sys_bus := b,
         sys_pc := (if length (lv_calls (sys_bus s)) < length (lv_calls b) then InHeader (length (lv_calls (sys_bus s))) slot ss
                    else Loop (after_header now slot ss))\<rparr>"
  | (serves) k slot ss b where "sys_pc s = InHeader k slot ss" "live_step (Turn k) (sys_bus s) = Ret b"
      "s' = s\<lparr>sys_bus := b, sys_pc := (if hc_returned (lv_calls b ! k) then Loop (after_header now slot ss)
                                      else InHeader k slot ss)\<rparr>"
proof (cases "sys_pc s")
  case (InHeader k slot ss)
  then show thesis using assms serves by (auto simp: run_turn_def obind_eqs)
next
  case (Calling slot ss)
  then show thesis using assms header by (auto simp: run_turn_def Let_def obind_eqs)
next
  case (Loop pc)
  show thesis
  proof (cases pc)
    case AtWhile
    then show thesis using assms Loop own by (auto simp: run_turn_def split: if_splits)
  next
    case (AtSlot ss)
    show thesis
    proof (cases ss)
      case Nil
      then show thesis using assms Loop AtSlot own by (auto simp: run_turn_def)
    next
      case (Cons slot ss')
      then show thesis
        using assms Loop AtSlot own goes_on by (auto simp: run_turn_def split: if_splits)
    qed
  next
    case (Waiting d ss)
    then show thesis using assms Loop own by (auto simp: run_turn_def split: if_splits)
  next
    case (Returned e)
    then show thesis using assms Loop by (simp add: run_turn_def)
  qed
qed

subsection \<open>What holds at every moment\<close>

lemma sys_ok_start: "sys_ok (sys_start sched)"
  by (simp add: sys_ok_def sys_start_def bus_ok_new)

lemma run_turn_ok:
  assumes "sys_ok s" "run_turn sched now s = Ret s'"
  shows "sys_ok s'"
  using assms(2)
proof (cases rule: run_turn_cases)
  case (own pc pc')
  then show ?thesis using assms(1) by (auto simp: sys_ok_def stop_flag_def)
next
  case (goes_on slot ss)
  then show ?thesis using assms(1) by (auto simp: sys_ok_def)
next
  case (header slot ss b)
  have "live_ok b" using assms(1) live_step_ok [OF _ header(2)] by (simp add: sys_ok_def)
  then show ?thesis
    using assms(1) header live_call_header [of "se_id slot" "sys_bus s" b] by (auto simp: sys_ok_def)
next
  case (serves k slot ss b)
  have "live_ok b" using assms(1) live_step_ok [OF _ serves(2)] by (simp add: sys_ok_def)
  then show ?thesis
    using assms(1) serves live_step_place [OF serves(2), of k] by (auto simp: sys_ok_def place_def)
qed

lemma sys_step_ok:
  assumes "sys_ok s" "sys_step sched e s = Ret s'"
  shows "sys_ok s'"
proof (cases e)
  case (RunTurn now)
  then show ?thesis using assms run_turn_ok by simp
next
  case (Other x)
  then obtain b where b: "live_step x (sys_bus s) = Ret b" "s' = s\<lparr>sys_bus := b\<rparr>" "\<not> masters_own (sys_pc s) x"
    using assms(2) by (auto simp: obind_eqs split: if_splits)
  have "live_ok b" using assms(1) live_step_ok [OF _ b(1)] by (simp add: sys_ok_def)
  moreover have "k < length (lv_calls b) \<and> 0 < place k b" if "sys_pc s = InHeader k slot ss" for k slot ss
    using assms(1) b(3) live_step_place [OF b(1), of k] that by (simp add: sys_ok_def)
  ultimately show ?thesis
    using assms(1) b(2) live_step_closed [OF _ b(1)] by (auto simp: sys_ok_def split: run_pc.splits)
next
  case ShutdownTurn
  then have turn: "shutdown_turn s = Ret s'" using assms(2) by simp
  show ?thesis
  proof (cases "sys_shutdown s = RunJoined")
    case True
    then obtain b where b: "live_step (Call CloseBus) (sys_bus s) = Ret b" "s' = s\<lparr>sys_bus := b, sys_shutdown := BusClosed\<rparr>"
      using turn by (auto simp: shutdown_turn_def obind_eqs)
    have "b_closed (lv_bus b)" using b(1) by (auto simp: live_call_def obind_eqs split: if_splits)
    moreover have "live_ok b" using assms(1) live_step_ok [OF _ b(1)] by (simp add: sys_ok_def)
    ultimately show ?thesis using assms(1) True b(2) by (auto simp: sys_ok_def split: run_pc.splits)
  next
    case False
    then show ?thesis
      using assms(1) turn
      by (auto simp: shutdown_turn_def sys_ok_def split: shutdown_pc.splits run_pc.splits master_pc.splits)
  qed
qed

interpretation sys_safe: safe_machine "sys_step sched" "sys_run sched" sys_ok for sched
  by unfold_locales (rule sys_step_ok)

text \<open>The shutdown goes forward, one statement at a time, and the other threads leave it alone.\<close>

lemma sys_step_forward:
  assumes "sys_step sched e s = Ret s'"
  shows "sys_shutdown s \<le> sys_shutdown s'" "e \<noteq> ShutdownTurn \<Longrightarrow> sys_shutdown s' = sys_shutdown s"
proof -
  have same: "sys_shutdown s' = sys_shutdown s" if other: "e \<noteq> ShutdownTurn"
  proof (cases e)
    case (RunTurn now)
    then have "run_turn sched now s = Ret s'" using assms by simp
    then show ?thesis by (cases rule: run_turn_cases) simp_all
  qed (use assms other in \<open>auto simp: obind_eqs split: if_splits\<close>)
  have "sys_shutdown s < sys_shutdown s'" if "shutdown_turn s = Ret s'"
    using that
    by (auto simp: shutdown_turn_def less_shutdown_pc_def obind_eqs split: shutdown_pc.splits run_pc.splits master_pc.splits)
  then show "sys_shutdown s \<le> sys_shutdown s'"
    using assms same by (cases e) (simp_all add: less_imp_le)
  show "e \<noteq> ShutdownTurn \<Longrightarrow> sys_shutdown s' = sys_shutdown s" by (rule same)
qed

lemma sys_run_forward: "sys_run sched es s = Ret s' \<Longrightarrow> sys_shutdown s \<le> sys_shutdown s'"
  using sys.run_invariant [where P = "\<lambda>t. sys_shutdown s \<le> sys_shutdown t" and s = s] sys_step_forward(1)
  by (blast intro: order_trans)

lemma sys_reachable_ok: "sys_reachable sched s \<Longrightarrow> sys_ok s"
  by (induction rule: sys_reachable.induct) (blast intro: sys_ok_start sys_step_ok)+

subsection \<open>Turns until the return\<close>

fun is_turn :: "sys_event \<Rightarrow> bool" where
  "is_turn (RunTurn now) \<longleftrightarrow> True"
| "is_turn _ \<longleftrightarrow> False"

definition run_turns :: "sys_event list \<Rightarrow> nat" where
  "run_turns es = length (filter is_turn es)"

lemma shutdown_turn_rest:
  assumes "shutdown_turn s = Ret s'" "sys_ok s"
  shows "sys_pc s' = sys_pc s" "stop_flag s'" "turns_left s' = turns_left s"
  using assms
  by (auto simp: shutdown_turn_def sys_ok_def stop_flag_def turns_left_def obind_eqs
      split: shutdown_pc.splits run_pc.splits master_pc.splits)

text \<open>A subscription made before the last header begins is one more to serve.\<close>

fun new_sub :: "sys_event \<Rightarrow> nat" where
  "new_sub (Other (Call (Subscribe fs opts))) = 1"
| "new_sub _ = 0"

lemma locked_step_subs:
  assumes "bus_step y b = Ret b'" "takes_lock y"
  shows "length (b_subs b') \<le> length (b_subs b) + new_sub (Other (Call y))"
proof -
  have "length (b_subs (snd (subscribe fs opts b))) \<le> Suc (length (b_subs b))" for fs opts
    by (simp add: subscribe_def Let_def)
  moreover have "length (b_subs (snd (bus_close b))) \<le> length (b_subs b)"
    by (simp add: bus_close_def Let_def)
  ultimately show ?thesis using assms by (cases y) auto
qed

lemma live_step_new_subs:
  assumes "live_ok s" "live_step x s = Ret s'"
  shows "length (b_subs (lv_bus s')) \<le> length (b_subs (lv_bus s)) + new_sub (Other x)"
  using assms(2)
proof (cases rule: live_step_cases)
  case (locked y)
  then show ?thesis using locked_step_subs [of y "lv_bus s" "lv_bus s'"] by simp
next
  case (offered k t ts)
  then show ?thesis using deliver_subs by fastforce
qed simp_all

lemma sys_step_turns:
  assumes "sys_ok s" "stop_flag s" "sys_step sched e s = Ret s'"
  shows "stop_flag s' \<and> turns_left s' + (if is_turn e then 1 else 0) \<le> turns_left s + new_sub e"
proof (cases e)
  case (RunTurn now)
  then have "run_turn sched now s = Ret s'" using assms(3) by simp
  then show ?thesis
  proof (cases rule: run_turn_cases)
    case (own pc pc')
    then show ?thesis using RunTurn assms(2) by (simp add: turns_left_def stop_flag_def Suc_le_eq)
  next
    case (goes_on slot ss)
    then show ?thesis using assms(2) by simp
  next
    case (header slot ss b)
    then show ?thesis
      using RunTurn assms(2) live_call_header [of "se_id slot" "sys_bus s" b] loop_turns_after_header [of now slot ss]
      by (auto simp: turns_left_def stop_flag_def)
  next
    case (serves k slot ss b)
    have "place k b = place k (sys_bus s) - 1" "0 < place k (sys_bus s)"
      using assms(1) serves(1) live_step_place(2) [OF serves(2), of k] by (simp_all add: sys_ok_def)
    then show ?thesis
      using RunTurn assms(2) serves(1,3) loop_turns_after_header [of now slot ss]
      by (auto simp: turns_left_def stop_flag_def)
  qed
next
  case (Other x)
  then obtain b where b: "live_step x (sys_bus s) = Ret b" "s' = s\<lparr>sys_bus := b\<rparr>" "\<not> masters_own (sys_pc s) x"
    using assms(3) by (auto simp: obind_eqs split: if_splits)
  have "length (b_subs (lv_bus b)) \<le> length (b_subs (lv_bus (sys_bus s))) + new_sub e"
    using assms(1) live_step_new_subs [OF _ b(1)] Other by (simp add: sys_ok_def)
  then have "turns_left s' \<le> turns_left s + new_sub e"
    using assms(1) b live_step_place(2) [OF b(1)]
    by (auto simp: turns_left_def sys_ok_def split: run_pc.splits)
  then show ?thesis using Other assms(2) b(2) by (simp add: stop_flag_def)
next
  case ShutdownTurn
  then show ?thesis using assms shutdown_turn_rest by simp
qed

lemma sys_run_turns:
  "sys_run sched es s = Ret s' \<Longrightarrow> sys_ok s \<Longrightarrow> stop_flag s \<Longrightarrow>
    sys_ok s' \<and> stop_flag s' \<and> turns_left s' + run_turns es \<le> turns_left s + sum_list (map new_sub es)"
proof (induction es arbitrary: s)
  case Nil
  then show ?case by (simp add: run_turns_def)
next
  case (Cons e es)
  then obtain s1 where s1: "sys_step sched e s = Ret s1" "sys_run sched es s1 = Ret s'" by (auto simp: obind_eqs)
  have "sys_ok s1" using Cons.prems(2) s1(1) by (rule sys_step_ok)
  then show ?case
    using Cons.IH [OF s1(2)] sys_step_turns [OF Cons.prems(2,3) s1(1)] by (auto simp: run_turns_def)
qed

subsection \<open>No turn is refused\<close>

text \<open>Under the dropping policies; the lock a header holds keeps new subscriptions out until it returns.\<close>

lemma run_turn_enabled:
  assumes "sys_ok s" "stop_flag s" "no_block_subs (lv_bus (sys_bus s))" "turns_left s \<noteq> 0"
  shows "\<exists>s'. run_turn sched now s = Ret s'"
proof (cases "sys_pc s")
  case (Loop pc)
  then show ?thesis
    using assms(2,4) by (cases pc) (auto simp: run_turn_def turns_left_def split: list.split)
next
  case (Calling slot ss)
  have "\<exists>b. live_call (SendHeader (se_id slot)) (sys_bus s) = Ret b"
    by (auto simp: live_call_def split: prod.split sum.split)
  then show ?thesis using Calling by (auto simp: run_turn_def Let_def)
next
  case (InHeader k slot ss)
  then have k: "k < length (lv_calls (sys_bus s))" "0 < place k (sys_bus s)" "live_ok (sys_bus s)"
    using assms(1) by (simp_all add: sys_ok_def)
  then obtain b where "header_turn k (sys_bus s) = Ret b"
    using turn_not_refused [OF k(3) assms(3) k(1,2)] by auto
  then show ?thesis using InHeader by (simp add: run_turn_def)
qed

lemma turns_left_0: "turns_left s = 0 \<longleftrightarrow> (\<exists>e. sys_pc s = Loop (Returned e))"
proof (cases "sys_pc s")
  case (Loop pc)
  then show ?thesis by (cases pc rule: loop_turns.cases) (simp_all add: turns_left_def)
qed (simp_all add: turns_left_def)

lemma turns_left_bound:
  assumes "sys_ok s"
  shows "turns_left s \<le> length (b_subs (lv_bus (sys_bus s))) + 4"
proof (cases "sys_pc s")
  case (Loop pc)
  then show ?thesis by (cases pc rule: loop_turns.cases) (simp_all add: turns_left_def)
next
  case (Calling slot ss)
  then show ?thesis by (simp add: turns_left_def)
next
  case (InHeader k slot ss)
  then have k: "k < length (lv_calls (sys_bus s))" "0 < place k (sys_bus s)" "live_ok (sys_bus s)"
    using assms by (simp_all add: sys_ok_def)
  then have "\<not> hc_returned (lv_calls (sys_bus s) ! k)" by (simp add: place_def split: if_splits)
  then have "suffix (hc_todo (lv_calls (sys_bus s) ! k)) (b_subs (lv_bus (sys_bus s)))"
    using live_ok_subs(1) [OF k(3,1)] by blast
  then have "place k (sys_bus s) \<le> Suc (length (b_subs (lv_bus (sys_bus s))))"
    by (auto simp: place_def dest: suffix_length_le)
  then show ?thesis using InHeader by (simp add: turns_left_def)
qed

text \<open>Once \<open>run\<close> has been joined, closing only waits for headers of other threads.\<close>

lemma close_after_join:
  assumes "sys_ok s" "sys_shutdown s = RunJoined" "\<not> lock_shared (sys_bus s)"
  obtains s' where "shutdown_turn s = Ret s'" "sys_shutdown s' = BusClosed"
  using assms by (auto simp: shutdown_turn_def live_call_def)

lemma closed_channels: "bus_ok b \<Longrightarrow> b_closed b \<Longrightarrow> c \<in> set (b_chans b) \<Longrightarrow> ch_closed c"
  by (simp add: bus_ok_def)

lemma joined_returned: "sys_ok s \<Longrightarrow> sys_shutdown s = RunJoined \<or> sys_shutdown s = BusClosed \<Longrightarrow> turns_left s = 0"
  by (auto simp: sys_ok_def turns_left_0 split: run_pc.splits)

subsection \<open>A join that never passes\<close>

text \<open>The master's header waits on the full channel of the Block subscription \<open>t\<close>.\<close>

definition stuck_on :: "subscription \<Rightarrow> live_system \<Rightarrow> bool" where
  "stuck_on t s \<longleftrightarrow> (\<exists>k slot ss. sys_pc s = InHeader k slot ss \<and> held_up k t (sys_bus s))"

fun sys_relieves :: "nat \<Rightarrow> sys_event \<Rightarrow> bool" where
  "sys_relieves i (Other e) \<longleftrightarrow> relieves i e"
| "sys_relieves i _ \<longleftrightarrow> False"

lemma stuck_refused:
  assumes "sys_ok s" "stuck_on t s"
  shows "run_turn sched now s = Blocks" "stop_flag s \<Longrightarrow> shutdown_turn s = Blocks"
proof -
  obtain k slot ss where k: "sys_pc s = InHeader k slot ss" "held_up k t (sys_bus s)"
    using assms(2) by (auto simp: stuck_on_def)
  have "live_step (Turn k) (sys_bus s) = Blocks"
    using assms(1) held_up_waits [OF _ k(2)] by (simp add: sys_ok_def)
  then show "run_turn sched now s = Blocks" using k(1) by (simp add: run_turn_def)
  show "shutdown_turn s = Blocks" if "stop_flag s"
    using assms(1) k(1) that by (auto simp: shutdown_turn_def sys_ok_def stop_flag_def)
qed

lemma stuck_step:
  assumes "sys_ok s" "stuck_on t s" "sys_step sched e s = Ret s'" "\<not> sys_relieves (sb_ch t) e"
  shows "stuck_on t s'"
proof (cases e)
  case (RunTurn now)
  then show ?thesis using assms(3) stuck_refused(1) [OF assms(1,2)] by simp
next
  case (Other x)
  then obtain b where b: "live_step x (sys_bus s) = Ret b" "s' = s\<lparr>sys_bus := b\<rparr>"
    using assms(3) by (auto simp: obind_eqs split: if_splits)
  obtain k slot ss where k: "sys_pc s = InHeader k slot ss" "held_up k t (sys_bus s)"
    using assms(2) by (auto simp: stuck_on_def)
  have "held_up k t b"
    using assms(1,4) Other held_up_step [OF _ k(2) b(1)] by (simp add: sys_ok_def)
  then show ?thesis using k(1) b(2) by (auto simp: stuck_on_def)
next
  case ShutdownTurn
  then have turn: "shutdown_turn s = Ret s'" using assms(3) by simp
  then have "\<not> stop_flag s" using stuck_refused(2) [OF assms(1,2)] by auto
  then have "s' = s\<lparr>sys_shutdown := StopStored\<rparr>" using turn by (auto simp: shutdown_turn_def stop_flag_def)
  then show ?thesis using assms(2) by (auto simp: stuck_on_def)
qed

lemma stuck_run:
  assumes "sys_ok s" "stuck_on t s" "sys_run sched es s = Ret s'" "\<forall>e\<in>set es. \<not> sys_relieves (sb_ch t) e"
  shows "sys_ok s' \<and> stuck_on t s'"
  using sys_safe.run_good_invariant [where P = "stuck_on t", OF assms(1-3)] stuck_step assms(4) by blast

subsection \<open>Undisturbed runs\<close>

text \<open>
  When no other thread's step falls between, the pieces of a turn put together are a step of theory
  \<open>MasterNode\<close>, whose header is \<open>send_header\<close> as a whole.
\<close>

lemma header_turns:
  assumes "broadcast f ss b = Ret b'"
  shows "sys_run sched (replicate (Suc (length ss)) (RunTurn now))
      \<lparr>sys_pc = InHeader (length cs) slot rest, sys_shutdown = d,
       sys_bus = \<lparr>lv_bus = b, lv_calls = cs @ [\<lparr>hc_frame = f, hc_todo = ss, hc_returned = False\<rparr>]\<rparr>\<rparr> =
    Ret \<lparr>sys_pc = Loop (after_header now slot rest), sys_shutdown = d,
         sys_bus = \<lparr>lv_bus = b', lv_calls = cs @ [\<lparr>hc_frame = f, hc_todo = [], hc_returned = True\<rparr>]\<rparr>\<rparr>"
  using assms
proof (induction ss arbitrary: b)
  case (Cons t ts)
  then obtain b1 where b1: "deliver f t b = Ret b1" "broadcast f ts b1 = Ret b'" by (auto simp: obind_eqs)
  then show ?case using Cons.IH [OF b1(2)] by (simp add: run_turn_def header_turn_def Let_def)
qed (simp add: run_turn_def header_turn_def Let_def)

lemma whole_header:
  assumes "send_header (se_id slot) (lv_bus (sys_bus s)) = Ret ((f, err), b')" "sys_pc s = Calling slot ss"
    and "\<not> lock_shared (sys_bus s)"
  shows "\<exists>n cs. sys_run sched (replicate n (RunTurn now)) s =
      Ret (s\<lparr>sys_pc := Loop (after_header now slot ss), sys_bus := \<lparr>lv_bus = b', lv_calls = lv_calls (sys_bus s) @ cs\<rparr>\<rparr>) \<and>
    \<not> lock_shared \<lparr>lv_bus = b', lv_calls = lv_calls (sys_bus s) @ cs\<rparr>"
proof -
  obtain d b cs where s: "s = \<lparr>sys_pc = Calling slot ss, sys_shutdown = d, sys_bus = \<lparr>lv_bus = b, lv_calls = cs\<rparr>\<rparr>"
    using assms(2) by (cases s, cases "sys_bus s") auto
  have unlocked: "\<not> lock_shared \<lparr>lv_bus = b', lv_calls = cs\<rparr>"
    using assms(3) s by (simp add: lock_shared_def)
  obtain r b1 where h: "begin_header (se_id slot) b = (r, b1)" by fastforce
  show ?thesis
  proof (cases r)
    case (Inl e)
    then have "sys_run sched (replicate 1 (RunTurn now)) s =
        Ret (s\<lparr>sys_pc := Loop (after_header now slot ss), sys_bus := \<lparr>lv_bus = b', lv_calls = cs @ []\<rparr>\<rparr>)"
      using assms(1) h s by (simp add: run_turn_def live_call_def send_header_pieces Let_def)
    then show ?thesis using unlocked s by (intro exI [of _ 1] exI [of _ "[]"]) simp
  next
    case (Inr g)
    then have "broadcast g (b_subs b1) b1 = Ret b'"
      using assms(1) h s by (auto simp: send_header_pieces obind_eqs)
    from header_turns [OF this, of sched now cs slot ss d]
    have "sys_run sched (RunTurn now # replicate (Suc (length (b_subs b1))) (RunTurn now)) s =
        Ret (s\<lparr>sys_pc := Loop (after_header now slot ss),
               sys_bus := \<lparr>lv_bus = b', lv_calls = cs @ [\<lparr>hc_frame = g, hc_todo = [], hc_returned = True\<rparr>]\<rparr>\<rparr>)"
      using Inr h s by (simp add: run_turn_def live_call_def Let_def)
    then show ?thesis
      using unlocked s
      by (intro exI [of _ "Suc (Suc (length (b_subs b1)))"] exI [of _ "[\<lparr>hc_frame = g, hc_todo = [], hc_returned = True\<rparr>]"])
        simp
  qed
qed

text \<open>The two machines in step: at the same place, with the same bus.\<close>

definition in_step :: "bus master_run \<Rightarrow> live_system \<Rightarrow> bool" where
  "in_step r s \<longleftrightarrow> sys_pc s = Loop (mr_pc r) \<and> lv_bus (sys_bus s) = mr_bus r \<and> \<not> lock_shared (sys_bus s)"

lemma run_step_pieces:
  assumes "in_step r s" "run_step send_header m t r = Ret r'"
    and "tk_others t = id" "tk_stop t = stop_flag s" "ms_on_frame m = None" "ms_on_error m = None"
  shows "\<exists>n s'. sys_run (ms_schedule m) (replicate n (RunTurn (tk_now t))) s = Ret s' \<and> in_step r' s' \<and>
    stop_flag s' = stop_flag s"
proof -
  have pc: "sys_pc s = Loop (mr_pc r)" and bus: "lv_bus (sys_bus s) = mr_bus r" "\<not> lock_shared (sys_bus s)"
    using assms(1) by (simp_all add: in_step_def)
  have one: "?thesis" if "run_turn (ms_schedule m) (tk_now t) s = Ret (s\<lparr>sys_pc := Loop (mr_pc r')\<rparr>)" "mr_bus r' = mr_bus r"
    using that bus by (intro exI [of _ 1]) (simp add: in_step_def stop_flag_def)
  show ?thesis
    using assms(2)
  proof (cases rule: run_step_cases)
    case (slot sl ss f err b')
    let ?s = "s\<lparr>sys_pc := Calling sl ss\<rparr>"
    have first: "run_turn (ms_schedule m) (tk_now t) s = Ret ?s"
      using pc slot(1,2) assms(4) by (simp add: run_turn_def)
    have "send_header (se_id sl) (lv_bus (sys_bus ?s)) = Ret ((f, err), b')"
      using slot(3) assms(3) bus(1) by simp
    from whole_header [OF this, of ss "ms_schedule m" "tk_now t"] bus(2)
    obtain n cs where n: "sys_run (ms_schedule m) (replicate n (RunTurn (tk_now t))) ?s =
        Ret (?s\<lparr>sys_pc := Loop (after_header (tk_now t) sl ss), sys_bus := \<lparr>lv_bus = b', lv_calls = lv_calls (sys_bus s) @ cs\<rparr>\<rparr>)"
      "\<not> lock_shared \<lparr>lv_bus = b', lv_calls = lv_calls (sys_bus s) @ cs\<rparr>" by auto
    have "mr_bus r' = b'" "mr_pc r' = after_header (tk_now t) sl ss"
      using slot(4) assms(5,6) by (simp_all add: callback_def after_header_def)
    then show ?thesis
      using first n by (intro exI [of _ "Suc n"]) (simp add: in_step_def stop_flag_def)
  next
    case (returned e)
    then show ?thesis using assms(1,3) by (intro exI [of _ 0]) (simp add: in_step_def)
  qed (use one pc assms(3,4) in \<open>auto simp: run_turn_def\<close>)
qed

lemma run_ticks_pieces:
  "run_ticks send_header m ts r = Ret r' \<Longrightarrow> in_step r s \<Longrightarrow>
   \<forall>t\<in>set ts. tk_others t = id \<and> tk_stop t = stop_flag s \<Longrightarrow> ms_on_frame m = None \<Longrightarrow> ms_on_error m = None \<Longrightarrow>
   \<exists>es s'. sys_run (ms_schedule m) es s = Ret s' \<and> in_step r' s' \<and> stop_flag s' = stop_flag s"
proof (induction ts arbitrary: r s)
  case Nil
  then show ?case by (intro exI [of _ "[]"]) simp
next
  case (Cons t ts)
  obtain r1 where r1: "run_step send_header m t r = Ret r1" "run_ticks send_header m ts r1 = Ret r'"
    using Cons.prems(1) by (auto simp: obind_eqs)
  have "tk_others t = id" "tk_stop t = stop_flag s"
    using Cons.prems(3) by (meson list.set_intros(1))+
  then obtain n s1 where s1: "sys_run (ms_schedule m) (replicate n (RunTurn (tk_now t))) s = Ret s1" "in_step r1 s1"
      "stop_flag s1 = stop_flag s"
    using run_step_pieces [OF Cons.prems(2) r1(1) _ _ Cons.prems(4,5)] by blast
  have "\<forall>t\<in>set ts. tk_others t = id \<and> tk_stop t = stop_flag s1"
    using Cons.prems(3) unfolding s1(3) by (meson list.set_intros(2))
  then obtain es s' where "sys_run (ms_schedule m) es s1 = Ret s'" "in_step r' s'" "stop_flag s' = stop_flag s1"
    using Cons.IH [OF r1(2) s1(2)] Cons.prems(4,5) by blast
  with s1 show ?case
    by (intro exI [of _ "replicate n (RunTurn (tk_now t)) @ es"]) (simp add: sys.run_append)
qed

subsection \<open>Example runs\<close>

text \<open>A header is under way when the flag is stored; then the shutdown runs to its end.\<close>

definition one_slot :: "schedule_entry list" where
  "one_slot = [\<lparr>se_id = 1, se_delay_ms = 5\<rparr>]"

definition under_way :: "sys_event list" where
  "under_way = [Other (Call (Subscribe [] [])), Other (Call (Publish 1 [0x11])), RunTurn 0, RunTurn 0, RunTurn 0, ShutdownTurn]"

definition to_the_end :: "sys_event list" where
  "to_the_end = [RunTurn 1, RunTurn 2, RunTurn 3, RunTurn 4, ShutdownTurn, ShutdownTurn]"

lemma shutdown_run:
  "\<exists>s s'. sys_run one_slot under_way (sys_start one_slot) = Ret s \<and> sys_shutdown s \<noteq> NotAsked \<and> turns_left s = 4
     \<and> sys_run one_slot to_the_end s = Ret s' \<and> no_block_subs (lv_bus (sys_bus s')) \<and> sys_shutdown s' = BusClosed"
proof -
  have "when_ret (sys_run one_slot under_way (sys_start one_slot)) (\<lambda>s. sys_shutdown s \<noteq> NotAsked \<and> turns_left s = 4 \<and>
      when_ret (sys_run one_slot to_the_end s) (\<lambda>s'. no_block_subs (lv_bus (sys_bus s')) \<and> sys_shutdown s' = BusClosed))"
    by code_simp
  then show ?thesis unfolding when_ret_iff by blast
qed

text \<open>A Block subscriber with room for one frame, and the second header of the master.\<close>

definition jamming :: "sys_event list" where
  "jamming = [Other (Call (Subscribe [] [with_channel_depth 1, with_back_pressure Block])), Other (Call (Publish 1 [0x11]))]
     @ map RunTurn [0, 0, 0, 0, 0, 5000000, 6000000, 6000000, 6000000]"

lemma jamming_run:
  "\<exists>s t s'. sys_run one_slot jamming (sys_start one_slot) = Ret s \<and> stuck_on t s \<and>
     sys_run one_slot [ShutdownTurn, Other (Call (SendHeader 2))] s = Ret s' \<and> sys_shutdown s' = StopStored"
proof -
  have "when_ret (sys_run one_slot jamming (sys_start one_slot)) (\<lambda>s.
      (case sys_pc s of InHeader k slot ss \<Rightarrow> held_up k (hd (hc_todo (lv_calls (sys_bus s) ! k))) (sys_bus s) | _ \<Rightarrow> False) \<and>
      when_ret (sys_run one_slot [ShutdownTurn, Other (Call (SendHeader 2))] s) (\<lambda>s'. sys_shutdown s' = StopStored))"
    by code_simp
  then show ?thesis
    unfolding when_ret_iff by (fastforce simp: stuck_on_def split: run_pc.splits)
qed

subsection \<open>The properties\<close>

text \<open>C10: the shutdown order of the manual works under the dropping policies. From the moment the
  flag is stored, whatever the other threads do in between, \<open>run\<close> returns after at most one turn of
  its own for each subscription, those made meanwhile included, and four more. None of these turns
  is refused, and the join then passes; the shutdown never goes back. After the join \<open>close\<close> waits only for the headers of other threads, and once it has
  returned the bus and every channel it ever handed out are closed.\<close>

theorem shutdown_completes:
  assumes "sys_reachable sched s" "sys_shutdown s \<noteq> NotAsked"
    and "sys_run sched es s = Ret s'" "no_block_subs (lv_bus (sys_bus s'))"
  shows "turns_left s \<le> length (b_subs (lv_bus (sys_bus s))) + 4
    \<and> turns_left s' + run_turns es \<le> turns_left s + sum_list (map new_sub es)
    \<and> sys_shutdown s \<le> sys_shutdown s'
    \<and> (if turns_left s' = 0 then \<exists>e. sys_pc s' = Loop (Returned e) else \<exists>s''. run_turn sched now s' = Ret s'')
    \<and> (case sys_shutdown s' of
         StopStored \<Rightarrow> turns_left s' \<noteq> 0 \<or> (\<exists>s''. shutdown_turn s' = Ret s'' \<and> sys_shutdown s'' = RunJoined)
       | RunJoined \<Rightarrow> lock_shared (sys_bus s') \<or> (\<exists>s''. shutdown_turn s' = Ret s'' \<and> sys_shutdown s'' = BusClosed)
       | BusClosed \<Rightarrow> b_closed (lv_bus (sys_bus s')) \<and> list_all ch_closed (b_chans (lv_bus (sys_bus s')))
       | NotAsked \<Rightarrow> False)"
proof -
  have ok: "sys_ok s" using assms(1) by (rule sys_reachable_ok)
  have stop: "stop_flag s" using assms(2) by (simp add: stop_flag_def)
  note run = sys_run_turns [OF assms(3) ok stop]
  have turn: "\<exists>s''. run_turn sched now s' = Ret s''" if "turns_left s' \<noteq> 0"
    using run_turn_enabled [OF _ _ assms(4) that] run by blast
  have "case sys_shutdown s' of
         StopStored \<Rightarrow> turns_left s' \<noteq> 0 \<or> (\<exists>s''. shutdown_turn s' = Ret s'' \<and> sys_shutdown s'' = RunJoined)
       | RunJoined \<Rightarrow> lock_shared (sys_bus s') \<or> (\<exists>s''. shutdown_turn s' = Ret s'' \<and> sys_shutdown s'' = BusClosed)
       | BusClosed \<Rightarrow> b_closed (lv_bus (sys_bus s')) \<and> list_all ch_closed (b_chans (lv_bus (sys_bus s')))
       | NotAsked \<Rightarrow> False"
  proof (cases "sys_shutdown s'")
    case NotAsked
    then show ?thesis using run by (simp add: stop_flag_def)
  next
    case StopStored
    then show ?thesis by (auto simp: turns_left_0 shutdown_turn_def)
  next
    case RunJoined
    then show ?thesis using run close_after_join [of s'] by fastforce
  next
    case BusClosed
    then show ?thesis
      using run closed_channels [of "lv_bus (sys_bus s')"]
      by (auto simp: sys_ok_def live_ok_def list_all_iff)
  qed
  then show ?thesis
    using turns_left_bound [OF ok] turn run turns_left_0 [of s'] sys_run_forward [OF assms(3)] by auto
qed

theorem shutdown_completes_witness:
  "\<exists>s s'. sys_run one_slot under_way (sys_start one_slot) = Ret s \<and> sys_run one_slot to_the_end s = Ret s' \<and>
     turns_left s' = 0 \<and> b_closed (lv_bus (sys_bus s')) \<and> list_all ch_closed (b_chans (lv_bus (sys_bus s')))"
proof -
  obtain s s' where s: "sys_run one_slot under_way (sys_start one_slot) = Ret s" "sys_shutdown s \<noteq> NotAsked" "turns_left s = 4"
    and s': "sys_run one_slot to_the_end s = Ret s'" "no_block_subs (lv_bus (sys_bus s'))" "sys_shutdown s' = BusClosed"
    using shutdown_run by blast
  note done_by = shutdown_completes [OF sys_run_reachable [OF sys_begin s(1)] s(2) s'(1,2)]
  have "run_turns to_the_end = 4" "sum_list (map new_sub to_the_end) = 0"
    by (simp_all add: to_the_end_def run_turns_def)
  then have "turns_left s' = 0" using done_by [THEN conjunct2, THEN conjunct1] s(3) by linarith
  then show ?thesis using done_by s(1) s'(1,3) by auto
qed

text \<open>C11: the same order hangs for ever behind a Block subscriber that has stopped receiving. While
  the master's header waits on that subscriber's full channel, and its holder neither receives nor
  closes it, \<open>run\<close> has no turn, the stored flag is never read, the join never passes, and so the
  \<open>close\<close> that would wake the subscriber is never called.\<close>

theorem shutdown_hangs_on_block:
  assumes "sys_reachable sched s" "stuck_on t s" "sys_run sched es s = Ret s'"
    and "\<forall>e\<in>set es. \<not> sys_relieves (sb_ch t) e"
  shows "sys_step sched (RunTurn now) s' = Blocks
    \<and> (sys_shutdown s' = NotAsked \<or> sys_shutdown s' = StopStored \<and> sys_step sched ShutdownTurn s' = Blocks)
    \<and> \<not> b_closed (lv_bus (sys_bus s'))"
proof -
  have ok: "sys_ok s'" and stuck: "stuck_on t s'"
    using stuck_run [OF sys_reachable_ok [OF assms(1)] assms(2,3,4)] by simp_all
  then obtain k slot ss where k: "sys_pc s' = InHeader k slot ss" "held_up k t (sys_bus s')"
    by (auto simp: stuck_on_def)
  then have "\<not> b_closed (lv_bus (sys_bus s'))"
    using ok live_ok_subs(2) [of "sys_bus s'" k] by (auto simp: sys_ok_def held_up_def)
  moreover have "sys_shutdown s' = NotAsked \<or> sys_shutdown s' = StopStored"
    using ok k(1) by (simp add: sys_ok_def)
  ultimately show ?thesis
    using stuck_refused [OF ok stuck] by (auto simp: stop_flag_def)
qed

theorem shutdown_hangs_on_block_witness:
  "\<exists>s s'. sys_run one_slot jamming (sys_start one_slot) = Ret s \<and>
     sys_run one_slot [ShutdownTurn, Other (Call (SendHeader 2))] s = Ret s' \<and>
     sys_step one_slot (RunTurn 7000000) s' = Blocks \<and> sys_step one_slot ShutdownTurn s' = Blocks"
proof -
  obtain s t s' where s: "sys_run one_slot jamming (sys_start one_slot) = Ret s" "stuck_on t s"
    and s': "sys_run one_slot [ShutdownTurn, Other (Call (SendHeader 2))] s = Ret s'" "sys_shutdown s' = StopStored"
    using jamming_run by blast
  have "\<forall>e\<in>set [ShutdownTurn, Other (Call (SendHeader 2))]. \<not> sys_relieves (sb_ch t) e" by simp
  from shutdown_hangs_on_block [OF sys_run_reachable [OF sys_begin s(1)] s(2) s'(1) this, of 7000000]
  show ?thesis using s(1) s' by auto
qed

end
