(* ===== verification/Drain.thy ===== *)
theory Drain
  imports Shutdown
begin

text \<open>
  A thread in \<open>close_with_drain\<close> (\<open>src/virtual/bus.cpp\<close>) on the bus of theory \<open>BusThreads\<close>, beside any
  other threads: it reads the clock, looks at the subscriptions one after the other while it holds
  the bus's lock in shared mode, sleeps, and in the end calls \<open>close\<close>, which waits until no header
  holds the lock. Between any two of these another thread may take steps on the bus.
\<close>

subsection \<open>State and steps\<close>

text \<open>
  Where the thread is: before the test of the clock; before \<open>all_drained\<close>; inside it, with the
  subscriptions it has not looked at yet; asleep until a time; about to close, because all was
  drained or because the time was over; returned.
\<close>

datatype drain_pc =
    AtHead
  | Locking
  | Checking "subscription list"
  | Sleeping int
  | Closing bool
  | DrainReturned error_code

record drain_system =
  dr_deadline :: int
  dr_pc :: drain_pc
  dr_bus :: shared_bus

text \<open>Times are nanoseconds in 64 bits; a deadline that does not fit is a signed overflow.\<close>

definition fits64 :: "int \<Rightarrow> bool" where
  "fits64 x \<longleftrightarrow> - (2 ^ 63) \<le> x \<and> x < 2 ^ 63"

definition close_with_drain :: "int \<Rightarrow> int \<Rightarrow> shared_bus \<Rightarrow> drain_system outcome" where
  "close_with_drain now timeout_ms b =
    (let timeout = timeout_ms * 1000000; deadline = now + timeout
     in if fits64 timeout \<and> fits64 deadline
        then Ret \<lparr>dr_deadline = deadline, dr_pc = AtHead, dr_bus = b\<rparr>
        else UB)"

definition drain_turn :: "int \<Rightarrow> drain_system \<Rightarrow> drain_system outcome" where
  "drain_turn now s =
    (let b = lv_bus (dr_bus s)
     in case dr_pc s of
          AtHead \<Rightarrow> Ret (s\<lparr>dr_pc := (if now < dr_deadline s then Locking else Closing False)\<rparr>)
        | Locking \<Rightarrow> Ret (s\<lparr>dr_pc := Checking (b_subs b)\<rparr>)
        | Checking [] \<Rightarrow> Ret (s\<lparr>dr_pc := Closing True\<rparr>)
        | Checking (t # ts) \<Rightarrow>
            Ret (s\<lparr>dr_pc := (if chan_size (b_chans b ! sb_ch t) > 0 then Sleeping (now + 1000000)
                            else Checking ts)\<rparr>)
        | Sleeping wake \<Rightarrow> (if now < wake then Blocks else Ret (s\<lparr>dr_pc := AtHead\<rparr>))
        | Closing drained \<Rightarrow>
            if lock_shared (dr_bus s) then Blocks
            else
              (let (err, b') = bus_close b
               in Ret (s\<lparr>dr_bus := (dr_bus s)\<lparr>lv_bus := b'\<rparr>,
                         dr_pc := DrainReturned (if drained then err
                                                 else if is_error err then err else ErrTimeout)\<rparr>))
        | DrainReturned e \<Rightarrow> Blocks)"

fun holds_lock :: "drain_pc \<Rightarrow> bool" where
  "holds_lock (Checking ts) \<longleftrightarrow> True"
| "holds_lock _ \<longleftrightarrow> False"

fun wants_lock :: "bus_event \<Rightarrow> bool" where
  "wants_lock (Call x) \<longleftrightarrow> takes_lock x"
| "wants_lock (Turn k) \<longleftrightarrow> False"

datatype drain_event = DrainTurn int | OtherThread bus_event

fun drain_step :: "drain_event \<Rightarrow> drain_system \<Rightarrow> drain_system outcome" where
  "drain_step (DrainTurn now) s = drain_turn now s"
| "drain_step (OtherThread e) s =
    (if holds_lock (dr_pc s) \<and> wants_lock e then Blocks
     else obind (live_step e (dr_bus s)) (\<lambda>b. Ret (s\<lparr>dr_bus := b\<rparr>)))"

primrec drain_run :: "drain_event list \<Rightarrow> drain_system \<Rightarrow> drain_system outcome" where
  "drain_run [] s = Ret s"
| "drain_run (e # es) s = obind (drain_step e s) (drain_run es)"

text \<open>The states a run passes through, the first and the last included.\<close>

primrec drain_states :: "drain_event list \<Rightarrow> drain_system \<Rightarrow> drain_system list" where
  "drain_states [] s = [s]"
| "drain_states (e # es) s = s # (case drain_step e s of Ret s' \<Rightarrow> drain_states es s' | _ \<Rightarrow> [])"

interpretation drain: machine drain_step drain_run
  by unfold_locales simp_all

lemma holds_lock_iff: "holds_lock pc \<longleftrightarrow> (\<exists>ts. pc = Checking ts)"
  by (cases pc) simp_all

lemma close_with_drain_Ret:
  "close_with_drain now timeout_ms b = Ret s \<longleftrightarrow>
    fits64 (timeout_ms * 1000000) \<and> fits64 (now + timeout_ms * 1000000) \<and>
    s = \<lparr>dr_deadline = now + timeout_ms * 1000000, dr_pc = AtHead, dr_bus = b\<rparr>"
  by (auto simp: close_with_drain_def Let_def)

lemma drain_turn_cases:
  assumes "drain_turn now s = Ret s'"
  obtains
    (time_left) "dr_pc s = AtHead" "now < dr_deadline s" "s' = s\<lparr>dr_pc := Locking\<rparr>"
  | (time_over) "dr_pc s = AtHead" "dr_deadline s \<le> now" "s' = s\<lparr>dr_pc := Closing False\<rparr>"
  | (locks) "dr_pc s = Locking" "s' = s\<lparr>dr_pc := Checking (b_subs (lv_bus (dr_bus s)))\<rparr>"
  | (all_empty) "dr_pc s = Checking []" "s' = s\<lparr>dr_pc := Closing True\<rparr>"
  | (is_empty) t ts where "dr_pc s = Checking (t # ts)" "ch_buf (b_chans (lv_bus (dr_bus s)) ! sb_ch t) = []"
      "s' = s\<lparr>dr_pc := Checking ts\<rparr>"
  | (not_empty) t ts where "dr_pc s = Checking (t # ts)" "s' = s\<lparr>dr_pc := Sleeping (now + 1000000)\<rparr>"
  | (wakes) wake where "dr_pc s = Sleeping wake" "wake \<le> now" "s' = s\<lparr>dr_pc := AtHead\<rparr>"
  | (closes) drained b where "dr_pc s = Closing drained" "live_step (Call CloseBus) (dr_bus s) = Ret b"
      "s' = s\<lparr>dr_bus := b, dr_pc := DrainReturned (if drained then ok_code else ErrTimeout)\<rparr>"
proof (cases "dr_pc s")
  case (Checking ts)
  then show thesis
    using assms all_empty is_empty not_empty
    by (cases ts) (auto simp: drain_turn_def Let_def chan_size_def split: if_splits)
next
  case (Closing drained)
  obtain b where b: "bus_close (lv_bus (dr_bus s)) = (ok_code, b)"
    using bus_close_simps(2) by (metis prod.collapse)
  then have "live_step (Call CloseBus) (dr_bus s) = Ret ((dr_bus s)\<lparr>lv_bus := b\<rparr>)"
    using assms Closing by (auto simp: drain_turn_def live_call_def Let_def split: if_splits)
  then show thesis
    using assms Closing b closes [of drained "(dr_bus s)\<lparr>lv_bus := b\<rparr>"]
    by (auto simp: drain_turn_def Let_def split: if_splits)
qed (use assms time_left time_over locks wakes in \<open>auto simp: drain_turn_def Let_def split: if_splits\<close>)

text \<open>The greatest timeout there is, meant to wait for ever, has no deadline.\<close>

lemma drain_for_ever_undefined: "close_with_drain now (2 ^ 63 - 1) b = UB"
  by (simp add: close_with_drain_def fits64_def)

subsection \<open>What holds at every moment\<close>

definition drain_ok :: "drain_system \<Rightarrow> bool" where
  "drain_ok s \<longleftrightarrow> live_ok (dr_bus s) \<and>
     (case dr_pc s of
        Checking ts \<Rightarrow> suffix ts (b_subs (lv_bus (dr_bus s)))
      | DrainReturned e \<Rightarrow> b_closed (lv_bus (dr_bus s)) \<and> (e = ok_code \<or> e = ErrTimeout)
      | _ \<Rightarrow> True)"

lemma unlocked_subs:
  assumes "live_step e s = Ret s'" "\<not> wants_lock e"
  shows "b_subs (lv_bus s') = b_subs (lv_bus s)"
  using assms(1)
proof (cases rule: live_step_cases)
  case (offered k t ts)
  then show ?thesis by (blast dest: deliver_subs)
qed (use assms(2) in simp_all)

lemma drain_step_ok:
  assumes "drain_ok s" "drain_step e s = Ret s'"
  shows "drain_ok s'"
proof (cases e)
  case (DrainTurn now)
  then have "drain_turn now s = Ret s'" using assms(2) by simp
  then show ?thesis
  proof (cases rule: drain_turn_cases)
    case (is_empty t ts)
    then show ?thesis using assms(1) by (auto simp: drain_ok_def dest: suffix_ConsD)
  next
    case (closes drained b)
    then have "b_closed (lv_bus b)" "live_ok b"
      using assms(1) live_step_ok [OF _ closes(2)] by (auto simp: drain_ok_def live_call_def obind_eqs split: if_splits)
    then show ?thesis using closes(3) by (simp add: drain_ok_def)
  qed (use assms(1) in \<open>simp_all add: drain_ok_def\<close>)
next
  case (OtherThread x)
  then obtain b where b: "live_step x (dr_bus s) = Ret b" "s' = s\<lparr>dr_bus := b\<rparr>" "\<not> (holds_lock (dr_pc s) \<and> wants_lock x)"
    using assms(2) by (auto simp: obind_eqs split: if_splits)
  then have "live_ok b" using assms(1) live_step_ok [OF _ b(1)] by (simp add: drain_ok_def)
  then show ?thesis
    using assms(1) b unlocked_subs [OF b(1)] live_step_closed [OF _ b(1)]
    by (auto simp: drain_ok_def split: drain_pc.splits)
qed

interpretation drain_safe: safe_machine drain_step drain_run drain_ok
  by unfold_locales (rule drain_step_ok)

lemma drain_deadline_step:
  assumes "drain_step e s = Ret s'"
  shows "dr_deadline s' = dr_deadline s"
proof (cases e)
  case (DrainTurn now)
  then have "drain_turn now s = Ret s'" using assms by simp
  then show ?thesis by (cases rule: drain_turn_cases) simp_all
qed (use assms in \<open>auto simp: obind_eqs split: if_splits\<close>)

lemma drain_deadline_run: "drain_run es s = Ret s' \<Longrightarrow> dr_deadline s' = dr_deadline s"
  using drain.run_invariant [where P = "\<lambda>x. dr_deadline x = dr_deadline s" and s = s] drain_deadline_step by auto

subsection \<open>What the thread has seen\<close>

lemma drain_states_snoc:
  "drain_run es s = Ret s1 \<Longrightarrow> drain_step e s1 = Ret s' \<Longrightarrow> drain_states (es @ [e]) s = drain_states es s @ [s']"
  by (induction es arbitrary: s) (auto simp: obind_eqs)

text \<open>
  A stretch of a run in which the thread holds the lock, the subscriptions are \<open>all\<close>, and each of
  \<open>seen\<close> has its channel empty at some moment.
\<close>

definition seen_empty :: "subscription list \<Rightarrow> subscription list \<Rightarrow> drain_system list \<Rightarrow> bool" where
  "seen_empty all seen during \<longleftrightarrow> during \<noteq> [] \<and>
     (\<forall>s\<in>set during. holds_lock (dr_pc s) \<and> b_subs (lv_bus (dr_bus s)) = all) \<and>
     (\<forall>t\<in>set seen. \<exists>s\<in>set during. ch_buf (b_chans (lv_bus (dr_bus s)) ! sb_ch t) = [])"

definition checked_upto :: "drain_system list \<Rightarrow> drain_system \<Rightarrow> bool" where
  "checked_upto states s \<longleftrightarrow>
    (case dr_pc s of
       Checking ts \<Rightarrow> \<exists>before during seen. states = before @ during \<and> s \<in> set during \<and>
         b_subs (lv_bus (dr_bus s)) = seen @ ts \<and> seen_empty (seen @ ts) seen during
     | Closing drained \<Rightarrow> drained \<longrightarrow>
         (\<exists>before during after all. states = before @ during @ after \<and> seen_empty all all during)
     | DrainReturned e \<Rightarrow> e = ok_code \<longrightarrow>
         (\<exists>before during after all. states = before @ during @ after \<and> seen_empty all all during)
     | _ \<Rightarrow> True)"

lemma seen_empty_later:
  assumes "seen_empty all seen during" "holds_lock (dr_pc s')" "b_subs (lv_bus (dr_bus s')) = all"
    and "\<And>t. t \<in> set new \<Longrightarrow> \<exists>s\<in>set (during @ [s']). ch_buf (b_chans (lv_bus (dr_bus s)) ! sb_ch t) = []"
  shows "seen_empty all (seen @ new) (during @ [s'])"
  using assms unfolding seen_empty_def by fastforce

lemma checked_upto_step:
  assumes ok: "drain_ok s" and upto: "checked_upto states s" and step: "drain_step e s = Ret s'"
  shows "checked_upto (states @ [s']) s'"
proof -
  have later: "\<exists>before during after all. states @ [s'] = before @ during @ after \<and> seen_empty all all during"
    if "\<exists>before during after all. states = before @ during @ after \<and> seen_empty all all during"
    using that by (metis append.assoc)
  have look: "checked_upto (states @ [s']) s'"
    if pc: "dr_pc s = Checking (new @ ts)" "dr_pc s' = Checking ts"
      and subs: "b_subs (lv_bus (dr_bus s')) = b_subs (lv_bus (dr_bus s))"
      and new: "\<forall>t\<in>set new. ch_buf (b_chans (lv_bus (dr_bus s)) ! sb_ch t) = []" for new ts
  proof -
    obtain before during seen where d: "states = before @ during" "s \<in> set during"
        "b_subs (lv_bus (dr_bus s)) = seen @ new @ ts" "seen_empty (seen @ new @ ts) seen during"
      using upto pc(1) by (auto simp: checked_upto_def)
    have "seen_empty (seen @ new @ ts) (seen @ new) (during @ [s'])"
      using d new pc(2) subs by (intro seen_empty_later) auto
    then have "states @ [s'] = before @ (during @ [s']) \<and> s' \<in> set (during @ [s']) \<and>
        b_subs (lv_bus (dr_bus s')) = (seen @ new) @ ts \<and> seen_empty ((seen @ new) @ ts) (seen @ new) (during @ [s'])"
      using d(1,3) subs by simp
    then show ?thesis unfolding checked_upto_def pc(2) drain_pc.case by blast
  qed
  show ?thesis
  proof (cases e)
    case (DrainTurn now)
    then have "drain_turn now s = Ret s'" using step by simp
    then show ?thesis
    proof (cases rule: drain_turn_cases)
      case locks
      define all where "all = b_subs (lv_bus (dr_bus s))"
      have "states @ [s'] = states @ [s'] \<and> s' \<in> set [s'] \<and> b_subs (lv_bus (dr_bus s')) = [] @ all \<and>
          seen_empty ([] @ all) [] [s']"
        using locks by (simp add: seen_empty_def all_def)
      moreover have "dr_pc s' = Checking all" using locks by (simp add: all_def)
      ultimately show ?thesis unfolding checked_upto_def by (simp only: drain_pc.case) blast
    next
      case all_empty
      then obtain before during seen where "states = before @ during" "seen_empty seen seen during"
        using upto by (auto simp: checked_upto_def)
      then have "\<exists>before during after all. states @ [s'] = before @ during @ after \<and> seen_empty all all during"
        by (metis append.assoc)
      then show ?thesis using all_empty(2) by (simp add: checked_upto_def)
    next
      case (is_empty t ts)
      then show ?thesis by (intro look [of "[t]" ts]) simp_all
    next
      case (closes drained b)
      then show ?thesis using upto later by (cases drained) (auto simp: checked_upto_def)
    qed (simp_all add: checked_upto_def)
  next
    case (OtherThread x)
    then obtain b where b: "live_step x (dr_bus s) = Ret b" "s' = s\<lparr>dr_bus := b\<rparr>" "\<not> (holds_lock (dr_pc s) \<and> wants_lock x)"
      using step by (auto simp: obind_eqs split: if_splits)
    show ?thesis
    proof (cases "dr_pc s")
      case (Checking ts)
      then show ?thesis using b unlocked_subs [OF b(1)] by (intro look [of "[]" ts]) simp_all
    next
      case (Closing drained)
      then show ?thesis using upto later b(2) by (auto simp: checked_upto_def)
    next
      case (DrainReturned c)
      then show ?thesis using upto later b(2) by (auto simp: checked_upto_def)
    qed (use b(2) in \<open>simp_all add: checked_upto_def\<close>)
  qed
qed

lemma checked_upto_run:
  assumes "drain_ok s" "dr_pc s = AtHead" "drain_run es s = Ret s'"
  shows "checked_upto (drain_states es s) s'"
  using assms(3)
proof (induction es arbitrary: s' rule: rev_induct)
  case Nil
  then show ?case using assms(2) by (auto simp: checked_upto_def)
next
  case (snoc e es)
  then obtain s1 where s1: "drain_run es s = Ret s1" "drain_step e s1 = Ret s'"
    by (auto simp: drain.run_append obind_eqs)
  then show ?case
    using checked_upto_step [OF drain_safe.run_good [OF assms(1) s1(1)] snoc.IH [OF s1(1)] s1(2)]
      drain_states_snoc [OF s1] by simp
qed

text \<open>The thread gives up only after a reading of the clock at or past the deadline.\<close>

lemma gives_up_late:
  assumes "dr_pc s = AtHead" "drain_run es s = Ret s'" "dr_pc s' = Closing False \<or> dr_pc s' = DrainReturned ErrTimeout"
  shows "\<exists>us now vs s1. es = us @ DrainTurn now # vs \<and> drain_run us s = Ret s1 \<and> dr_pc s1 = AtHead \<and> dr_deadline s \<le> now"
  using assms(2,3)
proof (induction es arbitrary: s' rule: rev_induct)
  case Nil
  then show ?case using assms(1) by auto
next
  case (snoc e es)
  then obtain s1 where s1: "drain_run es s = Ret s1" "drain_step e s1 = Ret s'"
    by (auto simp: drain.run_append obind_eqs)
  have more: ?case if "dr_pc s1 = Closing False \<or> dr_pc s1 = DrainReturned ErrTimeout"
    using snoc.IH [OF s1(1) that] by (metis append.assoc append_Cons)
  show ?case
  proof (cases e)
    case (DrainTurn now)
    then have "drain_turn now s1 = Ret s'" using s1(2) by simp
    then show ?thesis
    proof (cases rule: drain_turn_cases)
      case time_over
      then show ?thesis using s1(1) DrainTurn drain_deadline_run [OF s1(1)] by auto
    next
      case (closes drained b)
      then show ?thesis using more snoc.prems(2) by (auto split: if_splits)
    qed (use snoc.prems(2) in simp_all)
  next
    case (OtherThread x)
    then have "dr_pc s' = dr_pc s1" using s1(2) by (auto simp: obind_eqs split: if_splits)
    then show ?thesis using more snoc.prems(2) by simp
  qed
qed

subsection \<open>Progress\<close>

text \<open>The turns the thread has left once the clock has reached the deadline.\<close>

fun drain_turns_left :: "drain_system \<Rightarrow> nat" where
  "drain_turns_left s =
    (case dr_pc s of
       Locking \<Rightarrow> length (b_subs (lv_bus (dr_bus s))) + 5
     | Checking ts \<Rightarrow> length ts + 4
     | Sleeping wake \<Rightarrow> 3
     | AtHead \<Rightarrow> 2
     | Closing drained \<Rightarrow> 1
     | DrainReturned e \<Rightarrow> 0)"

fun own_turn :: "drain_event \<Rightarrow> nat" where
  "own_turn (DrainTurn now) = 1"
| "own_turn (OtherThread e) = 0"

fun made_sub :: "drain_event \<Rightarrow> nat" where
  "made_sub (OtherThread (Call (Subscribe fs opts))) = 1"
| "made_sub _ = 0"

fun not_before :: "int \<Rightarrow> drain_event \<Rightarrow> bool" where
  "not_before t (DrainTurn now) \<longleftrightarrow> t \<le> now"
| "not_before t (OtherThread e) \<longleftrightarrow> True"

lemma made_sub_new: "new_sub (Other x) = made_sub (OtherThread x)"
proof (cases x)
  case (Call y)
  then show ?thesis by (cases y) simp_all
qed simp

lemma drain_turns_step:
  assumes "drain_ok s" "drain_step e s = Ret s'" "not_before (dr_deadline s) e"
  shows "drain_turns_left s' + own_turn e \<le> drain_turns_left s + made_sub e"
proof (cases e)
  case (DrainTurn now)
  then have "drain_turn now s = Ret s'" using assms(2) by simp
  then show ?thesis using DrainTurn assms(3) by (cases rule: drain_turn_cases) simp_all
next
  case (OtherThread x)
  then obtain b where b: "live_step x (dr_bus s) = Ret b" "s' = s\<lparr>dr_bus := b\<rparr>"
    using assms(2) by (auto simp: obind_eqs split: if_splits)
  have "length (b_subs (lv_bus b)) \<le> length (b_subs (lv_bus (dr_bus s))) + made_sub e"
    using assms(1) live_step_new_subs [OF _ b(1)] OtherThread made_sub_new by (simp add: drain_ok_def)
  then show ?thesis using OtherThread b(2) by (cases "dr_pc s") simp_all
qed

lemma drain_turns_run:
  "drain_run es s = Ret s' \<Longrightarrow> drain_ok s \<Longrightarrow> list_all (not_before (dr_deadline s)) es \<Longrightarrow>
    drain_turns_left s' + sum_list (map own_turn es) \<le> drain_turns_left s + sum_list (map made_sub es)"
proof (induction es arbitrary: s)
  case (Cons e es)
  then obtain s1 where s1: "drain_step e s = Ret s1" "drain_run es s1 = Ret s'" by (auto simp: obind_eqs)
  show ?case
    using Cons.IH [OF s1(2) drain_step_ok [OF Cons.prems(2) s1(1)]] Cons.prems(3)
      drain_turns_step [OF Cons.prems(2) s1(1)] drain_deadline_step [OF s1(1)]
    by simp
qed simp

lemma drain_turn_refused:
  "drain_turn now s = Blocks \<longleftrightarrow>
    (case dr_pc s of
       Sleeping wake \<Rightarrow> now < wake
     | Closing drained \<Rightarrow> lock_shared (dr_bus s)
     | DrainReturned e \<Rightarrow> True
     | _ \<Rightarrow> False)"
  by (auto simp: drain_turn_def Let_def split: drain_pc.splits list.splits prod.splits)

lemma drain_turn_no_UB: "drain_turn now s \<noteq> UB"
  by (auto simp: drain_turn_def Let_def split: drain_pc.splits list.splits prod.splits)

lemma drain_turns_left_0: "drain_turns_left s = 0 \<longleftrightarrow> (\<exists>e. dr_pc s = DrainReturned e)"
  by (cases "dr_pc s") simp_all

lemma drain_turns_left_bound:
  "drain_ok s \<Longrightarrow> drain_turns_left s \<le> length (b_subs (lv_bus (dr_bus s))) + 5"
  by (cases "dr_pc s") (auto simp: drain_ok_def dest: suffix_length_le)

subsection \<open>Behind a Block subscriber\<close>

fun drain_relieves :: "nat \<Rightarrow> drain_event \<Rightarrow> bool" where
  "drain_relieves i (OtherThread e) \<longleftrightarrow> relieves i e"
| "drain_relieves i (DrainTurn now) \<longleftrightarrow> False"

definition drain_stuck :: "nat \<Rightarrow> subscription \<Rightarrow> drain_system \<Rightarrow> bool" where
  "drain_stuck k t s \<longleftrightarrow> held_up k t (dr_bus s) \<and> (\<forall>e. dr_pc s \<noteq> DrainReturned e)"

lemma drain_stuck_step:
  assumes "drain_ok s" "drain_stuck k t s" "drain_step e s = Ret s'" "\<not> drain_relieves (sb_ch t) e"
  shows "drain_stuck k t s'"
proof (cases e)
  case (DrainTurn now)
  then have "drain_turn now s = Ret s'" using assms(3) by simp
  then show ?thesis
  proof (cases rule: drain_turn_cases)
    case (closes drained b)
    have "lock_shared (dr_bus s)" using assms(2) held_up_locks by (auto simp: drain_stuck_def)
    then show ?thesis using closes(2) locked_writers_wait [of CloseBus] by simp
  qed (use assms(2) in \<open>simp_all add: drain_stuck_def\<close>)
next
  case (OtherThread x)
  then obtain b where b: "live_step x (dr_bus s) = Ret b" "s' = s\<lparr>dr_bus := b\<rparr>"
    using assms(3) by (auto simp: obind_eqs split: if_splits)
  then show ?thesis
    using assms(1,2,4) OtherThread held_up_step [OF _ _ b(1)] by (simp add: drain_stuck_def drain_ok_def)
qed

text \<open>While a header waits on the full channel of a Block subscriber and nobody relieves it,
  \<open>close_with_drain\<close> does not return, whatever its timeout: in the end its \<open>close\<close> waits for that header.\<close>

theorem drain_stuck_on_block:
  assumes "live_ok b" "close_with_drain t0 timeout_ms b = Ret s0" "held_up k t b"
    and "drain_run es s0 = Ret s" "\<forall>e\<in>set es. \<not> drain_relieves (sb_ch t) e"
  shows "(\<forall>e. dr_pc s \<noteq> DrainReturned e) \<and> (dr_pc s = Closing drained \<longrightarrow> drain_turn now s = Blocks)"
proof -
  have "drain_ok s0" "drain_stuck k t s0"
    using assms(1-3) by (auto simp: close_with_drain_Ret drain_ok_def drain_stuck_def)
  then have "drain_stuck k t s"
    using drain_safe.run_good_invariant [where P = "drain_stuck k t", OF _ _ assms(4)] drain_stuck_step assms(5)
    by blast
  then show ?thesis using held_up_locks by (auto simp: drain_stuck_def drain_turn_refused)
qed

subsection \<open>Nobody else on the bus\<close>

lemma look_at_all:
  "dr_pc s = Checking ts \<Longrightarrow> \<forall>t\<in>set ts. ch_buf (b_chans (lv_bus (dr_bus s)) ! sb_ch t) = [] \<Longrightarrow>
    drain_run (replicate (Suc (length ts)) (DrainTurn now)) s = Ret (s\<lparr>dr_pc := Closing True\<rparr>)"
proof (induction ts arbitrary: s)
  case (Cons t ts)
  have "drain_turn now s = Ret (s\<lparr>dr_pc := Checking ts\<rparr>)"
    using Cons.prems by (simp add: drain_turn_def Let_def chan_size_def)
  then show ?case using Cons.IH [of "s\<lparr>dr_pc := Checking ts\<rparr>"] Cons.prems(2) by simp
qed (simp add: drain_turn_def Let_def)

lemma close_turn:
  assumes "dr_pc s = Closing drained" "\<not> lock_shared (dr_bus s)"
  shows "\<exists>s'. drain_turn now s = Ret s' \<and> dr_pc s' = DrainReturned (if drained then ok_code else ErrTimeout)"
  using assms by (simp add: drain_turn_def Let_def split_beta)

text \<open>With time left and every channel empty, a call that nobody disturbs succeeds without sleeping;
  with no time left it reports \<open>ErrTimeout\<close> even then, since it reads the clock first.\<close>

theorem drain_alone:
  assumes "close_with_drain t0 timeout_ms b = Ret s0" "\<not> lock_shared b"
  shows "now < t0 + timeout_ms * 1000000 \<Longrightarrow> \<forall>t\<in>set (b_subs (lv_bus b)). ch_buf (b_chans (lv_bus b) ! sb_ch t) = [] \<Longrightarrow>
      \<exists>s. drain_run (replicate (length (b_subs (lv_bus b)) + 4) (DrainTurn now)) s0 = Ret s \<and> dr_pc s = DrainReturned ok_code"
    and "t0 + timeout_ms * 1000000 \<le> now \<Longrightarrow>
      \<exists>s. drain_run [DrainTurn now, DrainTurn now] s0 = Ret s \<and> dr_pc s = DrainReturned ErrTimeout"
proof -
  have s0: "dr_deadline s0 = t0 + timeout_ms * 1000000" "dr_pc s0 = AtHead" "dr_bus s0 = b"
    using assms(1) by (auto simp: close_with_drain_Ret)
  show "\<exists>s. drain_run [DrainTurn now, DrainTurn now] s0 = Ret s \<and> dr_pc s = DrainReturned ErrTimeout"
    if "t0 + timeout_ms * 1000000 \<le> now"
    using close_turn [of "s0\<lparr>dr_pc := Closing False\<rparr>" False now] assms(2) s0 that
    by (auto simp: drain_turn_def [of now s0] Let_def)
  assume time: "now < t0 + timeout_ms * 1000000"
    and empty: "\<forall>t\<in>set (b_subs (lv_bus b)). ch_buf (b_chans (lv_bus b) ! sb_ch t) = []"
  define n where "n = Suc (length (b_subs (lv_bus b)))"
  define s1 where "s1 = s0\<lparr>dr_pc := Checking (b_subs (lv_bus b))\<rparr>"
  have enter: "drain_run [DrainTurn now, DrainTurn now] s0 = Ret s1"
    using s0 time by (simp add: drain_turn_def Let_def s1_def)
  have look: "drain_run (replicate n (DrainTurn now)) s1 = Ret (s1\<lparr>dr_pc := Closing True\<rparr>)"
    unfolding n_def by (rule look_at_all) (use empty s0(3) in \<open>simp_all add: s1_def\<close>)
  obtain s2 where s2: "drain_turn now (s1\<lparr>dr_pc := Closing True\<rparr>) = Ret s2" "dr_pc s2 = DrainReturned ok_code"
    using close_turn [of "s1\<lparr>dr_pc := Closing True\<rparr>" True now] assms(2) s0(3) by (auto simp: s1_def)
  have run: "drain_run ([DrainTurn now, DrainTurn now] @ replicate n (DrainTurn now) @ [DrainTurn now]) s0 = Ret s2"
    unfolding drain.run_append enter obind.simps look using s2(1) by simp
  have turns: "[DrainTurn now, DrainTurn now] @ replicate n (DrainTurn now) @ [DrainTurn now] =
      replicate (length (b_subs (lv_bus b)) + 4) (DrainTurn now)"
    by (simp add: n_def eval_nat_numeral flip: replicate_append_same)
  show "\<exists>s. drain_run (replicate (length (b_subs (lv_bus b)) + 4) (DrainTurn now)) s0 = Ret s \<and>
      dr_pc s = DrainReturned ok_code"
    using run s2(2) unfolding turns by blast
qed

subsection \<open>The property\<close>

text \<open>C39: \<open>close_with_drain\<close>, among any other threads. It returns success or \<open>ErrTimeout\<close>, and the bus
  and all its channels are then closed. It returns success only after a stretch of the run in which
  it held the lock and every subscription's channel was empty at some moment, and \<open>ErrTimeout\<close> only
  after a reading of the clock at or past the deadline. Once the clock has reached the deadline it
  has at most five turns and one for each subscription left, or made meanwhile; a turn is refused
  only by its sleep of a millisecond, and by \<open>close\<close> while a header holds the lock.\<close>

theorem close_with_drain_ends:
  assumes "reachable b" "close_with_drain t0 timeout_ms b = Ret s0" "drain_run es s0 = Ret s"
  shows "(\<forall>e. dr_pc s = DrainReturned e \<longrightarrow> (e = ok_code \<or> e = ErrTimeout) \<and>
        b_closed (lv_bus (dr_bus s)) \<and> (\<forall>c\<in>set (b_chans (lv_bus (dr_bus s))). ch_closed c)) \<and>
    (dr_pc s = DrainReturned ok_code \<longrightarrow>
       (\<exists>before during after all. drain_states es s0 = before @ during @ after \<and> during \<noteq> [] \<and>
          (\<forall>s\<in>set during. holds_lock (dr_pc s) \<and> b_subs (lv_bus (dr_bus s)) = all) \<and>
          (\<forall>t\<in>set all. \<exists>s\<in>set during. ch_buf (b_chans (lv_bus (dr_bus s)) ! sb_ch t) = []))) \<and>
    (dr_pc s = DrainReturned ErrTimeout \<longrightarrow>
       (\<exists>us now vs s1. es = us @ DrainTurn now # vs \<and> drain_run us s0 = Ret s1 \<and> dr_pc s1 = AtHead \<and>
          t0 + timeout_ms * 1000000 \<le> now)) \<and>
    (\<forall>es' s'. drain_run es' s = Ret s' \<and> list_all (not_before (t0 + timeout_ms * 1000000)) es' \<longrightarrow>
       drain_turns_left s' + sum_list (map own_turn es') \<le>
         length (b_subs (lv_bus (dr_bus s))) + 5 + sum_list (map made_sub es')) \<and>
    (drain_turns_left s = 0 \<longleftrightarrow> (\<exists>e. dr_pc s = DrainReturned e)) \<and>
    drain_turn now s \<noteq> UB \<and>
    (drain_turn now s = Blocks \<longleftrightarrow>
       (\<exists>e. dr_pc s = DrainReturned e) \<or> (\<exists>drained. dr_pc s = Closing drained) \<and> lock_shared (dr_bus s) \<or>
       (\<exists>wake. dr_pc s = Sleeping wake \<and> now < wake))"
proof -
  have s0: "drain_ok s0" "dr_pc s0 = AtHead" "dr_deadline s0 = t0 + timeout_ms * 1000000"
    using assms(1,2) reachable_ok by (auto simp: close_with_drain_Ret drain_ok_def)
  have ok: "drain_ok s" by (rule drain_safe.run_good [OF s0(1) assms(3)])
  have ends: "(e = ok_code \<or> e = ErrTimeout) \<and> b_closed (lv_bus (dr_bus s)) \<and>
      (\<forall>c\<in>set (b_chans (lv_bus (dr_bus s))). ch_closed c)" if "dr_pc s = DrainReturned e" for e
    using ok that closed_channels by (auto simp: drain_ok_def live_ok_def)
  have drained: "\<exists>before during after all. drain_states es s0 = before @ during @ after \<and> during \<noteq> [] \<and>
      (\<forall>s\<in>set during. holds_lock (dr_pc s) \<and> b_subs (lv_bus (dr_bus s)) = all) \<and>
      (\<forall>t\<in>set all. \<exists>s\<in>set during. ch_buf (b_chans (lv_bus (dr_bus s)) ! sb_ch t) = [])"
    if "dr_pc s = DrainReturned ok_code"
    using checked_upto_run [OF s0(1,2) assms(3)] that by (simp add: checked_upto_def seen_empty_def)
  have late: "\<exists>us now vs s1. es = us @ DrainTurn now # vs \<and> drain_run us s0 = Ret s1 \<and> dr_pc s1 = AtHead \<and>
      t0 + timeout_ms * 1000000 \<le> now" if "dr_pc s = DrainReturned ErrTimeout"
    using gives_up_late [OF s0(2) assms(3)] that s0(3) by simp
  have turns: "drain_turns_left s' + sum_list (map own_turn es') \<le>
      length (b_subs (lv_bus (dr_bus s))) + 5 + sum_list (map made_sub es')"
    if "drain_run es' s = Ret s' \<and> list_all (not_before (t0 + timeout_ms * 1000000)) es'" for es' s'
    using drain_turns_run [of es' s s'] drain_turns_left_bound [OF ok] ok drain_deadline_run [OF assms(3)] s0(3) that
    by fastforce
  have refused: "drain_turn now s = Blocks \<longleftrightarrow>
       (\<exists>e. dr_pc s = DrainReturned e) \<or> (\<exists>drained. dr_pc s = Closing drained) \<and> lock_shared (dr_bus s) \<or>
       (\<exists>wake. dr_pc s = Sleeping wake \<and> now < wake)"
    unfolding drain_turn_refused by (cases "dr_pc s") simp_all
  show ?thesis
    by (intro conjI allI impI drain_turn_no_UB drain_turns_left_0 refused)
       (erule ends [THEN conjunct1] | erule ends [THEN conjunct2, THEN conjunct1]
         | erule ends [THEN conjunct2, THEN conjunct2] | erule drained | erule late | erule turns)+
qed

text \<open>A call that finds a frame still there, sleeps, and succeeds after its holder has received it.\<close>

definition one_frame_left :: "bus_event list" where
  "one_frame_left = map Call [Subscribe [] [], Publish 1 [0x11], SendHeader 1] @ [Turn 0, Turn 0]"

definition drained_in_time :: "drain_event list" where
  "drained_in_time =
    [DrainTurn 10, DrainTurn 11, DrainTurn 12, OtherThread (Call (Client 0 Recv)), DrainTurn 1000012] @
    replicate 5 (DrainTurn 1000013)"

theorem close_with_drain_ends_witness:
  "\<exists>b s0 s before during after. live_run one_frame_left (alone new_bus) = Ret b \<and> close_with_drain 5 50 b = Ret s0 \<and>
     drain_run drained_in_time s0 = Ret s \<and> dr_pc s = DrainReturned ok_code \<and> b_closed (lv_bus (dr_bus s)) \<and>
     drain_states drained_in_time s0 = before @ during @ after \<and> during \<noteq> [] \<and> (\<forall>s\<in>set during. holds_lock (dr_pc s))"
proof -
  have "when_ret (live_run one_frame_left (alone new_bus)) (\<lambda>b. when_ret (close_with_drain 5 50 b) (\<lambda>s0.
      when_ret (drain_run drained_in_time s0) (\<lambda>s. dr_pc s = DrainReturned ok_code)))"
    by code_simp
  then obtain b s0 s where b: "live_run one_frame_left (alone new_bus) = Ret b"
    and s: "close_with_drain 5 50 b = Ret s0" "drain_run drained_in_time s0 = Ret s" "dr_pc s = DrainReturned ok_code"
    unfolding when_ret_iff by blast
  note ends = close_with_drain_ends [OF live_run_reachable [OF reachable.start b] s(1,2)]
  have "b_closed (lv_bus (dr_bus s))" using ends [THEN conjunct1] s(3) by blast
  moreover obtain before during after all where "drain_states drained_in_time s0 = before @ during @ after \<and> during \<noteq> [] \<and>
      (\<forall>s\<in>set during. holds_lock (dr_pc s) \<and> b_subs (lv_bus (dr_bus s)) = all)"
    using ends [THEN conjunct2, THEN conjunct1] s(3) by blast
  ultimately show ?thesis using b s by blast
qed

end
