(* ===== verification/Adapter.thy ===== *)
theory Adapter
  imports BusProperties "HOL-Library.Sublist"
begin

text \<open>
  The RELAY adapter \<open>LinAdapter\<close> of \<open>src/lin.cpp\<close>: sending a RELAY message on a LIN bus, and the
  thread each subscription starts, which turns the frames of a bus channel into numbered messages.
\<close>

subsection \<open>Sending\<close>

definition adapter_protocol :: protocol where "adapter_protocol = LIN"

definition adapter_send ::
  "(u8 \<Rightarrow> bytes \<Rightarrow> 'b \<Rightarrow> error_code \<times> 'b) \<Rightarrow> (u8 \<Rightarrow> bytes \<Rightarrow> 'b \<Rightarrow> error_code \<times> 'b) \<Rightarrow>
   message \<Rightarrow> 'b \<Rightarrow> error_code \<times> 'b" where
  "adapter_send pub pub_classic msg b =
    (case from_message msg of
       Inl _ \<Rightarrow> (relay_make_error_code payload_too_large, b)
     | Inr f \<Rightarrow>
         if f_checksum_type f = Classic \<or> f_id f = kLINDiagRequestID \<or> f_id f = kLINDiagResponseID
         then pub_classic (f_id f) (f_data f) b
         else pub (f_id f) (f_data f) b)"

definition adapter_close :: "('b \<Rightarrow> error_code \<times> 'b) \<Rightarrow> 'b \<Rightarrow> error_code \<times> 'b" where
  "adapter_close cls b = cls b"

subsection \<open>The forwarding thread\<close>

text \<open>
  One subscription of the adapter: the channel of messages it returns, its counter and policy, the
  message it holds between taking a frame and sending it on, and whether its loop still runs.
\<close>

record forwarder =
  fw_out :: "message chan"
  fw_seq :: u64
  fw_policy :: back_pressure_policy
  fw_held :: "message option"
  fw_running :: bool

definition adapter_subscribe ::
  "(filter_rule list \<Rightarrow> subscriber_option list \<Rightarrow> 'b \<Rightarrow> (nat option \<times> error_code) \<times> 'b) \<Rightarrow>
   subscriber_option list \<Rightarrow> 'b \<Rightarrow> ((nat \<times> forwarder) option \<times> error_code) \<times> 'b" where
  "adapter_subscribe sub opts b =
    (let cfg = apply_options opts;
         ((frames, err), b') = sub [] [] b
     in if is_error err then ((None, err), b')
        else
          let depth = effective_depth cfg 64;
              fw = \<lparr>fw_out = new_chan (nat depth), fw_seq = 0, fw_policy = back_pressure cfg,
                    fw_held = None, fw_running = True\<rparr>
          in (((case frames of None \<Rightarrow> None | Some ch \<Rightarrow> Some (ch, fw)), ok_code), b'))"

text \<open>
  The loop of the thread takes the mutex of one channel at a time: it waits for a frame, makes the
  message with the next sequence number and the clock's time, and hands it over under the
  subscription's policy; when the channel of frames is closed and empty it closes its own.
\<close>

definition take_frame :: "int \<Rightarrow> frame chan \<times> forwarder \<Rightarrow> (frame chan \<times> forwarder) outcome" where
  "take_frame now cf =
    (let (c, fw) = cf
     in obind (chan_recv c) (\<lambda>(x, c').
       case x of
         None \<Rightarrow> Ret (c', fw\<lparr>fw_running := False, fw_out := chan_close (fw_out fw)\<rparr>)
       | Some f \<Rightarrow>
           let n = fw_seq fw + 1;
               msg = (to_message f)\<lparr>m_timestamp := now, m_seq := n\<rparr>
           in Ret (c', fw\<lparr>fw_seq := n, fw_held := Some msg\<rparr>)))"

definition hand_over :: "message \<Rightarrow> forwarder \<Rightarrow> forwarder outcome" where
  "hand_over msg fw =
    (case fw_policy fw of
       DropNewest \<Rightarrow> Ret (fw\<lparr>fw_out := snd (try_send msg (fw_out fw)), fw_held := None\<rparr>)
     | DropOldest \<Rightarrow>
         obind (send_drop_oldest msg (fw_out fw)) (\<lambda>(_, c). Ret (fw\<lparr>fw_out := c, fw_held := None\<rparr>))
     | Block \<Rightarrow>
         obind (chan_send msg (fw_out fw)) (\<lambda>(_, c). Ret (fw\<lparr>fw_out := c, fw_held := None\<rparr>)))"

definition forward_step :: "int \<Rightarrow> frame chan \<times> forwarder \<Rightarrow> (frame chan \<times> forwarder) outcome" where
  "forward_step now cf =
    (let (c, fw) = cf
     in if \<not> fw_running fw then Ret (c, fw)
        else case fw_held fw of
          None \<Rightarrow> take_frame now (c, fw)
        | Some msg \<Rightarrow> obind (hand_over msg fw) (\<lambda>fw'. Ret (c, fw')))"

subsection \<open>A bridge in its environment\<close>

text \<open>
  The channel of frames is filled with \<open>try_send\<close> and closed by the bus, and emptied by the thread
  alone; the client receives from the channel of messages and may close it. Any order of these
  steps is possible. The last three fields only record what happened: the frames that reached
  the first channel, the messages the thread made, and the messages the client received.
\<close>

record bridge =
  br_in :: "frame chan"
  br_fw :: forwarder
  br_arrived :: "frame list"
  br_made :: "message list"
  br_received :: "message list"

datatype bridge_op = Arrive frame | BusCloses | Forward int | ClientOp "message chan_op"

fun bridge_step :: "bridge_op \<Rightarrow> bridge \<Rightarrow> bridge" where
  "bridge_step (Arrive f) s =
    s\<lparr>br_in := chan_step (TrySend f) (br_in s),
      br_arrived := br_arrived s @ put_items (TrySend f) (br_in s)\<rparr>"
| "bridge_step BusCloses s = s\<lparr>br_in := chan_close (br_in s)\<rparr>"
| "bridge_step (Forward now) s =
    (case forward_step now (br_in s, br_fw s) of
       Ret (c, fw) \<Rightarrow> s\<lparr>br_in := c, br_fw := fw,
         br_made := br_made s @
           (if fw_held (br_fw s) = None then (case fw_held fw of None \<Rightarrow> [] | Some m \<Rightarrow> [m]) else [])\<rparr>
     | _ \<Rightarrow> s)"
| "bridge_step (ClientOp x) s =
    s\<lparr>br_fw := (br_fw s)\<lparr>fw_out := chan_step x (fw_out (br_fw s))\<rparr>,
      br_received := br_received s @ received_items x (fw_out (br_fw s))\<rparr>"

definition bridge_start :: "nat \<Rightarrow> nat \<Rightarrow> back_pressure_policy \<Rightarrow> bridge" where
  "bridge_start in_depth out_depth policy =
    \<lparr>br_in = new_chan in_depth,
     br_fw = \<lparr>fw_out = new_chan out_depth, fw_seq = 0, fw_policy = policy, fw_held = None, fw_running = True\<rparr>,
     br_arrived = [], br_made = [], br_received = []\<rparr>"

text \<open>The client's part: receive, or close; a channel of messages is not sent on by the client.\<close>

fun client_only :: "bridge_op \<Rightarrow> bool" where
  "client_only (ClientOp x) = (x = Recv \<or> x = TryRecv \<or> x = CloseChan)"
| "client_only _ = True"

text \<open>The message made from the \<open>k\<close>-th frame, apart from the time in it.\<close>

definition numbered :: "nat \<Rightarrow> frame \<Rightarrow> message \<Rightarrow> bool" where
  "numbered k f m \<longleftrightarrow> (\<exists>now. m = (to_message f)\<lparr>m_timestamp := now, m_seq := of_nat (Suc k)\<rparr>)"

definition frames_ok :: "bridge \<Rightarrow> bool" where
  "frames_ok s \<longleftrightarrow>
    (\<exists>gone. br_arrived s = gone @ ch_buf (br_in s) \<and> length (br_made s) = length gone \<and>
       (\<forall>k<length gone. numbered k (gone ! k) (br_made s ! k))) \<and>
    fw_seq (br_fw s) = of_nat (length (br_made s)) \<and>
    (\<forall>m. fw_held (br_fw s) = Some m \<longrightarrow> br_made s \<noteq> [] \<and> last (br_made s) = m)"

subsection \<open>Numbering\<close>

lemma frames_ok_start: "frames_ok (bridge_start d e p)"
  by (simp add: frames_ok_def bridge_start_def new_chan_def)

lemma hand_over_keeps:
  "hand_over m fw = Ret fw' \<Longrightarrow> fw_seq fw' = fw_seq fw \<and> fw_held fw' = None \<and> fw_running fw' = fw_running fw \<and>
    fw_policy fw' = fw_policy fw"
  by (auto simp: hand_over_def obind_eqs split: back_pressure_policy.splits)

text \<open>The three ways a step of the thread goes.\<close>

lemma forward_step_cases:
  assumes "forward_step now (c, fw) = Ret (c', fw')"
  obtains (over) "\<not> fw_running fw" "c' = c" "fw' = fw"
    | (took) f rest where "fw_running fw" "fw_held fw = None" "ch_buf c = f # rest" "c' = c\<lparr>ch_buf := rest\<rparr>"
        "fw' = fw\<lparr>fw_seq := fw_seq fw + 1,
           fw_held := Some ((to_message f)\<lparr>m_timestamp := now, m_seq := fw_seq fw + 1\<rparr>)\<rparr>"
    | (ended) "fw_running fw" "fw_held fw = None" "ch_buf c = []" "ch_closed c" "c' = c"
        "fw' = fw\<lparr>fw_running := False, fw_out := chan_close (fw_out fw)\<rparr>"
    | (sent) m where "fw_running fw" "fw_held fw = Some m" "hand_over m fw = Ret fw'" "c' = c"
proof (cases "fw_running fw")
  case False
  then have "c' = c" "fw' = fw" using assms by (simp_all add: forward_step_def)
  with False show thesis by (intro over)
next
  case True
  show thesis
  proof (cases "fw_held fw")
    case None
    show thesis
    proof (cases "ch_buf c")
      case Nil
      then show thesis
        using assms True None ended
        by (auto simp: forward_step_def take_frame_def chan_recv_def recv_ready_def Let_def split: if_splits)
    next
      case (Cons f rest)
      then show thesis
        using assms True None took
        by (auto simp: forward_step_def take_frame_def chan_recv_def recv_ready_def Let_def)
    qed
  next
    case (Some m)
    then have "obind (hand_over m fw) (\<lambda>fw'. Ret (c, fw')) = Ret (c', fw')"
      using assms True by (simp add: forward_step_def)
    then have "hand_over m fw = Ret fw'" "c' = c" by (simp_all add: obind_eq_Ret)
    then show thesis using True Some by (intro sent)
  qed
qed

lemma frames_ok_step:
  assumes "frames_ok s"
  shows "frames_ok (bridge_step x s)"
proof -
  obtain gone where g: "br_arrived s = gone @ ch_buf (br_in s)" "length (br_made s) = length gone"
      "\<forall>k<length gone. numbered k (gone ! k) (br_made s ! k)"
    and n: "fw_seq (br_fw s) = of_nat (length (br_made s))"
    and h: "\<forall>m. fw_held (br_fw s) = Some m \<longrightarrow> br_made s \<noteq> [] \<and> last (br_made s) = m"
    using assms unfolding frames_ok_def by blast
  show ?thesis
  proof (cases x)
    case (Arrive f)
    have "ch_buf (chan_step (TrySend f) (br_in s)) = ch_buf (br_in s) @ put_items (TrySend f) (br_in s)"
      by (auto simp: try_send_def chan_push_def)
    then show ?thesis using Arrive g n h unfolding frames_ok_def by (intro conjI exI [of _ gone]) simp_all
  next
    case BusCloses
    then show ?thesis
      using g n h unfolding frames_ok_def by (intro conjI exI [of _ gone]) (simp_all add: chan_close_def)
  next
    case (ClientOp y)
    then show ?thesis using g n h unfolding frames_ok_def by (intro conjI exI [of _ gone]) simp_all
  next
    case (Forward now)
    show ?thesis
    proof (cases "forward_step now (br_in s, br_fw s)")
      case (Ret r)
      obtain c' fw' where r: "r = (c', fw')" by (cases r)
      from Ret [unfolded r] show ?thesis
      proof (cases rule: forward_step_cases)
        case over
        then show ?thesis using Forward Ret r g n h
          unfolding frames_ok_def by (intro conjI exI [of _ gone]) (simp_all split: option.splits)
      next
        case (took f rest)
        define m where "m = (to_message f)\<lparr>m_timestamp := now, m_seq := fw_seq (br_fw s) + 1\<rparr>"
        have "numbered (length gone) f m" using n g(2) by (auto simp: numbered_def m_def add.commute)
        then have "\<forall>k<length (gone @ [f]). numbered k ((gone @ [f]) ! k) ((br_made s @ [m]) ! k)"
          using g(2,3) by (auto simp: nth_append less_Suc_eq)
        then show ?thesis
          using Forward Ret r took g n unfolding frames_ok_def
          by (intro conjI exI [of _ "gone @ [f]"]) (simp_all add: m_def)
      next
        case ended
        then show ?thesis using Forward Ret r g n h
          unfolding frames_ok_def by (intro conjI exI [of _ gone]) simp_all
      next
        case (sent m)
        then show ?thesis using Forward Ret r g n hand_over_keeps [OF sent(3)]
          unfolding frames_ok_def by (intro conjI exI [of _ gone]) simp_all
      qed
    qed (use Forward assms in simp_all)
  qed
qed

subsection \<open>The client's side\<close>

text \<open>The messages the thread is done with: all it made, but the one it still holds.\<close>

definition handed_over :: "bridge \<Rightarrow> message list" where
  "handed_over s = (if fw_held (br_fw s) = None then br_made s else butlast (br_made s))"

definition client_side :: "bridge \<Rightarrow> message list" where
  "client_side s = br_received s @ ch_buf (fw_out (br_fw s))"

lemma hand_over_buffer:
  assumes "hand_over m fw = Ret fw'"
  shows "ch_buf (fw_out fw') = ch_buf (fw_out fw) \<or> ch_buf (fw_out fw') = ch_buf (fw_out fw) @ [m] \<or>
      ch_buf (fw_out fw') = tl (ch_buf (fw_out fw)) @ [m]"
    and "ch_closed (fw_out fw') = ch_closed (fw_out fw)"
    and "fw_policy fw = Block \<Longrightarrow> \<not> ch_closed (fw_out fw) \<Longrightarrow> ch_buf (fw_out fw') = ch_buf (fw_out fw) @ [m]"
  using assms
  by (auto simp: hand_over_def obind_eqs chan_defs split: back_pressure_policy.splits if_splits list.splits)

lemma subseq_hand_over:
  assumes "subseq (a @ b) s" "b' = b \<or> b' = b @ [m] \<or> b' = tl b @ [m]"
  shows "subseq (a @ b') (s @ [m])"
proof -
  have "subseq (a @ tl b) (a @ b)" by (cases b) (simp_all add: subseq_append' subseq_Cons')
  then have "subseq (a @ tl b) s" using assms(1) by (rule subseq_order.trans)
  then have "subseq ((a @ tl b) @ [m]) (s @ [m])" "subseq ((a @ b) @ [m]) (s @ [m])"
    using assms(1) by (blast intro: list_emb_append_mono subseq_order.refl)+
  moreover have "subseq (a @ b) (s @ [m])" using assms(1) by (rule subseq_rev_drop_many [of "a @ b" s "[m]"])
  ultimately show ?thesis using assms(2) by auto
qed

lemma client_op_side:
  "client_only (ClientOp x) \<Longrightarrow> received_items x c @ ch_buf (chan_step x c) = ch_buf c"
  by (cases "ch_buf c") (auto simp: chan_defs)

lemma client_side_step:
  assumes "frames_ok s" "client_only x"
  shows "handed_over (bridge_step x s) = handed_over s \<and> client_side (bridge_step x s) = client_side s \<or>
    (\<exists>m now fw'. x = Forward now \<and> fw_held (br_fw s) = Some m \<and> hand_over m (br_fw s) = Ret fw' \<and>
       br_fw (bridge_step x s) = fw' \<and> br_received (bridge_step x s) = br_received s \<and>
       handed_over (bridge_step x s) = handed_over s @ [m])"
proof (cases x)
  case (ClientOp y)
  then show ?thesis
    using assms(2) client_op_side [of y "fw_out (br_fw s)"] by (simp add: handed_over_def client_side_def)
next
  case (Forward now)
  show ?thesis
  proof (cases "forward_step now (br_in s, br_fw s)")
    case (Ret r)
    obtain c' fw' where r: "r = (c', fw')" by (cases r)
    from Ret [unfolded r] show ?thesis
    proof (cases rule: forward_step_cases)
      case over
      then show ?thesis using Forward Ret r
        by (simp add: handed_over_def client_side_def split: option.splits)
    next
      case (took f rest)
      then show ?thesis using Forward Ret r by (simp add: handed_over_def client_side_def)
    next
      case ended
      then show ?thesis using Forward Ret r
        by (simp add: handed_over_def client_side_def chan_close_def)
    next
      case (sent m)
      have "br_made s \<noteq> []" "last (br_made s) = m" using assms(1) sent(2) by (auto simp: frames_ok_def)
      then have "br_made s = butlast (br_made s) @ [m]" by (metis append_butlast_last_id)
      then show ?thesis
        using Forward Ret r sent hand_over_keeps [OF sent(3)] by (simp add: handed_over_def)
    qed
  qed (use Forward in \<open>simp_all add: handed_over_def client_side_def\<close>)
qed (simp_all add: handed_over_def client_side_def)

lemma client_subseq_step:
  assumes "frames_ok s" "client_only x" "subseq (client_side s) (handed_over s)"
  shows "subseq (client_side (bridge_step x s)) (handed_over (bridge_step x s))"
  using client_side_step [OF assms(1,2)]
proof (elim disjE exE conjE)
  fix m now fw'
  assume h: "hand_over m (br_fw s) = Ret fw'" "br_fw (bridge_step x s) = fw'"
    "br_received (bridge_step x s) = br_received s" "handed_over (bridge_step x s) = handed_over s @ [m]"
  then show ?thesis
    using subseq_hand_over [of "br_received s" "ch_buf (fw_out (br_fw s))" "handed_over s"] assms(3)
      hand_over_buffer(1) [OF h(1)]
    by (simp add: client_side_def)
qed (use assms(3) in simp)

lemma bridge_run_subseq:
  "frames_ok s \<Longrightarrow> subseq (client_side s) (handed_over s) \<Longrightarrow> \<forall>x\<in>set ops. client_only x \<Longrightarrow>
    frames_ok (fold bridge_step ops s) \<and>
    subseq (client_side (fold bridge_step ops s)) (handed_over (fold bridge_step ops s))"
proof (induction ops arbitrary: s)
  case (Cons x ops)
  then show ?case using frames_ok_step [of s x] client_subseq_step [of s x] by simp
qed simp

subsection \<open>The end of the thread\<close>

definition ended_ok :: "bridge \<Rightarrow> bool" where
  "ended_ok s \<longleftrightarrow> fw_running (br_fw s) \<or>
    (ch_closed (br_in s) \<and> ch_buf (br_in s) = [] \<and> ch_closed (fw_out (br_fw s)) \<and> fw_held (br_fw s) = None)"

lemma ended_ok_step:
  assumes "ended_ok s"
  shows "ended_ok (bridge_step x s)"
proof (cases x)
  case (Forward now)
  show ?thesis
  proof (cases "forward_step now (br_in s, br_fw s)")
    case (Ret r)
    obtain c' fw' where r: "r = (c', fw')" by (cases r)
    from Ret [unfolded r] show ?thesis
      using Forward Ret r assms
      by (cases rule: forward_step_cases) (auto simp: ended_ok_def chan_close_def dest: hand_over_keeps)
  qed (use Forward assms in simp_all)
next
  case (ClientOp y)
  then show ?thesis using assms chan_step_closed [of "fw_out (br_fw s)" y] by (auto simp: ended_ok_def)
qed (use assms in \<open>auto simp: ended_ok_def chan_close_def try_send_def\<close>)

text \<open>Under \<open>Block\<close>, while the client leaves the channel open, everything handed over is with the client.\<close>

definition lossless :: "bridge \<Rightarrow> bool" where
  "lossless s \<longleftrightarrow> fw_policy (br_fw s) = Block \<and> client_side s = handed_over s \<and>
     (fw_running (br_fw s) \<longrightarrow> \<not> ch_closed (fw_out (br_fw s)))"

lemma policy_step: "fw_policy (br_fw (bridge_step x s)) = fw_policy (br_fw s)"
proof (cases x)
  case (Forward now)
  show ?thesis
  proof (cases "forward_step now (br_in s, br_fw s)")
    case (Ret r)
    obtain c' fw' where r: "r = (c', fw')" by (cases r)
    from Ret [unfolded r] show ?thesis
      using Forward Ret r by (cases rule: forward_step_cases) (auto dest: hand_over_keeps)
  qed (use Forward in simp_all)
qed simp_all

lemma open_step:
  assumes "fw_running (br_fw s) \<longrightarrow> \<not> ch_closed (fw_out (br_fw s))" "client_only x" "x \<noteq> ClientOp CloseChan"
  shows "fw_running (br_fw (bridge_step x s)) \<longrightarrow> \<not> ch_closed (fw_out (br_fw (bridge_step x s)))"
proof (cases x)
  case (Forward now)
  show ?thesis
  proof (cases "forward_step now (br_in s, br_fw s)")
    case (Ret r)
    obtain c' fw' where r: "r = (c', fw')" by (cases r)
    from Ret [unfolded r] show ?thesis
      using Forward Ret r assms(1)
      by (cases rule: forward_step_cases) (auto dest: hand_over_keeps hand_over_buffer(2))
  qed (use Forward assms(1) in simp_all)
next
  case (ClientOp y)
  then show ?thesis
    using assms by (auto simp: chan_defs split: list.splits)
qed (use assms(1) in simp_all)

lemma lossless_step:
  assumes "frames_ok s" "lossless s" "client_only x" "x \<noteq> ClientOp CloseChan"
  shows "lossless (bridge_step x s)"
proof -
  have "client_side (bridge_step x s) = handed_over (bridge_step x s)"
    using client_side_step [OF assms(1,3)]
  proof (elim disjE exE conjE)
    fix m now fw'
    assume h: "x = Forward now" "fw_held (br_fw s) = Some m" "hand_over m (br_fw s) = Ret fw'"
      "br_fw (bridge_step x s) = fw'"
      "br_received (bridge_step x s) = br_received s" "handed_over (bridge_step x s) = handed_over s @ [m]"
    have "fw_running (br_fw s)"
    proof (rule ccontr)
      assume "\<not> fw_running (br_fw s)"
      then have "br_fw (bridge_step x s) = br_fw s" using h(1) by (simp add: forward_step_def)
      then show False using h(2-4) hand_over_keeps [OF h(3)] by simp
    qed
    then have "ch_buf (fw_out fw') = ch_buf (fw_out (br_fw s)) @ [m]"
      using hand_over_buffer(3) [OF h(3)] assms(2) by (simp add: lossless_def)
    then show ?thesis using h(4-6) assms(2) by (simp add: client_side_def lossless_def)
  qed (use assms(2) in \<open>simp add: lossless_def\<close>)
  then show ?thesis
    using assms(2-4) open_step [of s x] policy_step [of x s] by (simp add: lossless_def)
qed

lemma bridge_run_lossless:
  "frames_ok s \<Longrightarrow> ended_ok s \<Longrightarrow> lossless s \<Longrightarrow> \<forall>x\<in>set ops. client_only x \<and> x \<noteq> ClientOp CloseChan \<Longrightarrow>
    frames_ok (fold bridge_step ops s) \<and> ended_ok (fold bridge_step ops s) \<and> lossless (fold bridge_step ops s)"
proof (induction ops arbitrary: s)
  case (Cons x ops)
  then show ?case using frames_ok_step [of s x] ended_ok_step [of s x] lossless_step [of s x] by simp
qed simp

text \<open>Steps the thread has left once its channel of frames is closed.\<close>

definition steps_left :: "bridge \<Rightarrow> nat" where
  "steps_left s = (if fw_running (br_fw s)
     then 2 * length (ch_buf (br_in s)) + (if fw_held (br_fw s) = None then 1 else 2) else 0)"

definition draining :: "bridge \<Rightarrow> bool" where
  "draining s \<longleftrightarrow> ch_closed (br_in s) \<and> fw_policy (br_fw s) \<noteq> Block \<and> chan_ok (fw_out (br_fw s))"

lemma hand_over_returns:
  assumes "fw_policy fw \<noteq> Block" "chan_ok (fw_out fw)"
  obtains fw' where "hand_over m fw = Ret fw'" "chan_ok (fw_out fw')"
proof (cases "fw_policy fw")
  case DropNewest
  then show thesis using that assms(2) chan_ok_try_send [of "fw_out fw" m] by (simp add: hand_over_def)
next
  case DropOldest
  obtain r c' where "send_drop_oldest m (fw_out fw) = Ret (r, c')" "chan_ok c'"
    by (rule chan_ok_drop_oldest_returns [OF assms(2)])
  then show thesis using that DropOldest by (simp add: hand_over_def)
next
  case Block
  then show thesis using assms(1) by simp
qed

lemma draining_step:
  assumes "draining s" "fw_running (br_fw s)"
  shows "draining (bridge_step (Forward now) s) \<and> steps_left (bridge_step (Forward now) s) + 1 = steps_left s"
proof (cases "fw_held (br_fw s)")
  case (Some m)
  obtain fw' where h: "hand_over m (br_fw s) = Ret fw'" "chan_ok (fw_out fw')"
    using hand_over_returns [of "br_fw s" m] assms(1) by (auto simp: draining_def)
  then show ?thesis
    using assms Some hand_over_keeps [OF h(1)] by (simp add: forward_step_def draining_def steps_left_def)
next
  case None
  then show ?thesis
    using assms
    by (cases "ch_buf (br_in s)")
      (simp_all add: forward_step_def take_frame_def chan_recv_def recv_ready_def draining_def steps_left_def Let_def)
qed

lemma draining_run:
  "draining s \<Longrightarrow> steps_left s \<le> n \<Longrightarrow>
    \<not> fw_running (br_fw (fold bridge_step (replicate n (Forward now)) s))"
proof (induction n arbitrary: s)
  case 0
  then show ?case by (simp add: steps_left_def split: if_splits)
next
  case (Suc n)
  show ?case
  proof (cases "fw_running (br_fw s)")
    case True
    then show ?thesis
      using Suc.IH [of "bridge_step (Forward now) s"] draining_step [OF Suc.prems(1) True, of now] Suc.prems(2)
      by simp
  next
    case False
    then have "bridge_step (Forward now) s = s"
      by (auto simp: forward_step_def intro!: bridge.equality split: option.splits)
    then show ?thesis
      using Suc.IH [OF Suc.prems(1)] False by (simp add: steps_left_def)
  qed
qed

lemma hand_over_chan_ok:
  assumes "chan_ok (fw_out fw)" "hand_over m fw = Ret fw'"
  shows "chan_ok (fw_out fw')"
proof (cases "fw_policy fw")
  case DropNewest
  then show ?thesis using assms chan_ok_try_send by (auto simp: hand_over_def)
next
  case DropOldest
  then obtain r c where "send_drop_oldest m (fw_out fw) = Ret (r, c)" "fw' = fw\<lparr>fw_out := c, fw_held := None\<rparr>"
    using assms(2) by (auto simp: hand_over_def obind_eq_Ret)
  then show ?thesis using chan_ok_send_drop_oldest [OF assms(1)] by simp
next
  case Block
  then obtain r c where "chan_send m (fw_out fw) = Ret (r, c)" "fw' = fw\<lparr>fw_out := c, fw_held := None\<rparr>"
    using assms(2) by (auto simp: hand_over_def obind_eq_Ret)
  then show ?thesis using chan_ok_send [OF assms(1)] by simp
qed

lemma out_ok_step: "chan_ok (fw_out (br_fw s)) \<Longrightarrow> chan_ok (fw_out (br_fw (bridge_step x s)))"
proof (cases x)
  case (Forward now)
  assume ok: "chan_ok (fw_out (br_fw s))"
  show ?thesis
  proof (cases "forward_step now (br_in s, br_fw s)")
    case (Ret r)
    obtain c' fw' where r: "r = (c', fw')" by (cases r)
    from Ret [unfolded r] show ?thesis
      using Forward Ret r ok by (cases rule: forward_step_cases) (auto intro: hand_over_chan_ok)
  qed (use Forward ok in simp_all)
next
  case (ClientOp y)
  assume "chan_ok (fw_out (br_fw s))"
  then show ?thesis
    using ClientOp bchan.bound_step [of y "fw_out (br_fw s)"] bchan.bounded [of "fw_out (br_fw s)" y]
    by (simp add: chan_ok_def)
qed simp_all

lemma bridge_start_ok:
  "ended_ok (bridge_start d e p)" "lossless (bridge_start d e Block)"
  "subseq (client_side (bridge_start d e p)) (handed_over (bridge_start d e p))"
  by (simp_all add: ended_ok_def lossless_def bridge_start_def client_side_def handed_over_def new_chan_def)

subsection \<open>Properties\<close>

text \<open>C36: sending over the adapter. Every valid frame bridged as a message onto an open in-process bus is
  registered as it is: the next header for its identifier that returns gives back the same
  identifier, data and checksum type, with the checksum of the bus; so a frame whose checksum
  verifies comes back unchanged.\<close>

theorem adapter_send_transparent:
  assumes "bus_ok b" and "\<not> b_closed b" and "validate_frame f = Inr ()"
    and "adapter_send publish publish_classic (to_message f) b = (err, b1)"
    and "send_header (f_id f) b1 = Ret ((g, e), b2)"
  shows "err = ok_code \<and> \<not> is_error e \<and> f_id g = f_id f \<and> f_data g = f_data f \<and>
    f_checksum_type g = f_checksum_type f \<and>
    (verify_checksum (protect_id (f_id f)) (f_data f) (f_checksum f) (f_checksum_type f) \<longrightarrow> g = f)"
proof -
  have v: "f_id f \<le> kLINMaxID" "f_data f \<noteq> []" "is_diag (f_id f) \<longrightarrow> f_checksum_type f = Classic"
    using assms(3) by (auto simp: validate_frame_ok valid_frame_def)
  have o: "bus_open b" using assms(2) by (simp add: bus_open_def)
  have fm: "from_message (to_message f) = Inr f" using v(1) by (simp add: from_to_message kLINMaxID_def)
  have "err = ok_code \<and> \<not> is_error e \<and> g = answer_frame (f_id f) (f_data f) (f_checksum_type f)"
  proof (cases "f_checksum_type f")
    case Classic
    then have p: "publish_classic (f_id f) (f_data f) b = (err, b1)"
      using assms(4) fm by (simp add: adapter_send_def)
    then show ?thesis
      using vbus.pub_classic_header [OF assms(1) o v(1,2)] assms(5)
        vbus.pub_classic_ok [OF assms(1), of "f_id f" "f_data f"] o v(1) Classic by simp
  next
    case Enhanced
    then have nd: "\<not> is_diag (f_id f)" using v(3) by auto
    then have p: "publish (f_id f) (f_data f) b = (err, b1)"
      using assms(4) fm Enhanced by (simp add: adapter_send_def is_diag_def)
    then show ?thesis
      using vbus.pub_header [OF assms(1) o v(1,2)] assms(5)
        vbus.pub_ok [OF assms(1), of "f_id f" "f_data f"] o v(1) Enhanced nd by simp
  qed
  then show ?thesis by (auto simp: answer_frame_def verify_checksum_def)
qed

theorem adapter_send_transparent_witness:
  "\<exists>b1 g b2 e. adapter_send publish publish_classic
       (to_message \<lparr>f_id = 5, f_data = [7], f_checksum = 0, f_checksum_type = Classic\<rparr>) new_bus = (ok_code, b1) \<and>
     send_header 5 b1 = Ret ((g, e), b2) \<and> f_data g = [7] \<and> f_checksum_type g = Classic"
proof -
  let ?f = "\<lparr>f_id = 5, f_data = [7], f_checksum = 0, f_checksum_type = Classic\<rparr>"
  have v: "validate_frame ?f = Inr ()"
    by (simp add: validate_frame_ok valid_frame_def lin_consts is_diag_def)
  have s: "adapter_send publish publish_classic (to_message ?f) new_bus = publish_classic 5 [7] new_bus"
    by (simp add: adapter_send_def from_to_message)
  obtain err b1 where p: "publish_classic 5 [7] new_bus = (err, b1)" by (cases "publish_classic 5 [7] new_bus")
  have "b_subs (snd (publish_classic 5 [7] new_bus)) = []"
    by (simp add: publish_classic_def do_publish_def new_bus_def Let_def)
  then have "no_block_subs b1" using p by (simp add: no_block_subs_def)
  have "bus_ok b1" using publish_ok(2) [OF bus_ok_new, of 5 "[7]"] p by simp
  from this \<open>no_block_subs b1\<close> obtain r b2 where h: "send_header 5 b1 = Ret (r, b2)" by (rule send_header_returns)
  obtain g e where r: "r = (g, e)" by (cases r)
  have o: "\<not> b_closed new_bus" by (simp add: new_bus_def)
  show ?thesis
    using adapter_send_transparent [OF bus_ok_new o v _ , of err b1 g e b2] s p h r by auto
qed

text \<open>The errors of the adapter. A message whose identifier or checksum type does not parse is refused
  with \<open>ErrPayloadTooLarge\<close> and leaves the bus alone; any other is accepted by an open bus, whatever
  the length of its payload, and refused with \<open>ErrClosed\<close> by a closed one.\<close>

theorem adapter_send_errors:
  assumes "bus_ok b"
  shows "(case from_message m of
      Inl _ \<Rightarrow> adapter_send publish publish_classic m b = (ErrPayloadTooLarge, b)
    | Inr f \<Rightarrow> fst (adapter_send publish publish_classic m b) = (if b_closed b then ErrClosed else ok_code))"
proof (cases "from_message m")
  case (Inl e)
  then show ?thesis by (simp add: adapter_send_def ErrPayloadTooLarge_def)
next
  case (Inr f)
  then have "f_id f \<le> kLINMaxID" using from_message_id [of m f] by (simp add: kLINMaxID_def)
  then have "fst (do_publish (f_id f) (f_data f) ct b) = (if b_closed b then ErrClosed else ok_code)" for ct
    by (simp add: do_publish_def Let_def not_less [symmetric])
  then show ?thesis using Inr by (simp add: adapter_send_def publish_def publish_classic_def)
qed

theorem adapter_send_errors_witness:
  "fst (adapter_send publish publish_classic (to_message \<lparr>f_id = 5, f_data = replicate 100 1,
      f_checksum = 0, f_checksum_type = Enhanced\<rparr>) new_bus) = ok_code"
  using adapter_send_errors [OF bus_ok_new, of "to_message \<lparr>f_id = 5, f_data = replicate 100 1,
      f_checksum = 0, f_checksum_type = Enhanced\<rparr>"]
  by (simp add: from_to_message new_bus_def)

text \<open>C22: a subscription numbers what it sees. In any interleaving of arriving frames, the closing of the bus,
  the steps of the forwarding thread and the client's calls, under every policy: the messages made
  so far are those of the frames taken, in order, numbered 1, 2, 3, \<dots>; the frames taken and those
  still queued are all that arrived; and what the client receives is a subsequence of the messages made.\<close>

theorem subscription_numbers_in_order:
  assumes "\<forall>x\<in>set ops. client_only x" and "s = fold bridge_step ops (bridge_start d e policy)"
  shows "\<exists>taken. br_arrived s = taken @ ch_buf (br_in s) \<and>
    length (br_made s) = length taken \<and>
    (\<forall>k<length taken. \<exists>now. br_made s ! k =
       (to_message (taken ! k))\<lparr>m_timestamp := now, m_seq := of_nat (Suc k)\<rparr>) \<and>
    subseq (br_received s) (br_made s)"
proof -
  have ok: "frames_ok s" and sub: "subseq (client_side s) (handed_over s)"
    using bridge_run_subseq [OF frames_ok_start bridge_start_ok(3) assms(1)] assms(2) by simp_all
  have "subseq (br_received s) (client_side s)" by (simp add: client_side_def subseq_rev_drop_many)
  moreover have "subseq (handed_over s) (br_made s)"
    by (auto simp: handed_over_def intro: prefix_imp_subseq prefixeq_butlast)
  ultimately have "subseq (br_received s) (br_made s)" using sub by (meson subseq_order.trans)
  then show ?thesis using ok unfolding frames_ok_def numbered_def by blast
qed

theorem subscription_numbers_in_order_witness:
  "\<exists>taken. br_arrived (fold bridge_step [Arrive default_frame, Forward 7, Forward 8, ClientOp TryRecv]
       (bridge_start 64 1 DropNewest)) = taken @ [] \<and> length taken = 1"
  using subscription_numbers_in_order [OF _ refl, of "[Arrive default_frame, Forward 7, Forward 8, ClientOp TryRecv]" 64 1 DropNewest]
  by (simp add: bridge_start_def new_chan_def try_send_def chan_size_def chan_push_def forward_step_def
      take_frame_def chan_recv_def recv_ready_def hand_over_def try_recv_def Let_def)

definition demo_ops :: "bridge_op list" where
  "demo_ops = [Arrive default_frame, Forward 7, BusCloses, Forward 8, ClientOp TryRecv, Forward 9]"

text \<open>C37: the \<open>Block\<close> policy of a subscription loses nothing on its own channel. While the client does not
  close it, the messages received, those still buffered and the one being sent are exactly the
  messages made, in order; and once the thread has ended its channel is closed and every frame that
  had arrived was received or is still there to be received.\<close>

theorem subscription_block_lossless:
  assumes "\<forall>x\<in>set ops. client_only x \<and> x \<noteq> ClientOp CloseChan"
    and "s = fold bridge_step ops (bridge_start d e Block)"
  shows "br_received s @ ch_buf (fw_out (br_fw s)) @ (case fw_held (br_fw s) of None \<Rightarrow> [] | Some m \<Rightarrow> [m]) = br_made s
    \<and> (fw_running (br_fw s) \<or>
       ch_closed (fw_out (br_fw s)) \<and>
       map m_payload (br_received s @ ch_buf (fw_out (br_fw s))) = map f_data (br_arrived s))"
proof -
  have ok: "frames_ok s" "ended_ok s" "lossless s"
    using bridge_run_lossless [OF frames_ok_start bridge_start_ok(1,2) assms(1)] assms(2) by simp_all
  obtain gone where g: "br_arrived s = gone @ ch_buf (br_in s)" "length (br_made s) = length gone"
      "\<forall>k<length gone. numbered k (gone ! k) (br_made s ! k)"
    and h: "\<forall>m. fw_held (br_fw s) = Some m \<longrightarrow> br_made s \<noteq> [] \<and> last (br_made s) = m"
    using ok(1) unfolding frames_ok_def by blast
  have 1: "br_received s @ ch_buf (fw_out (br_fw s)) @ (case fw_held (br_fw s) of None \<Rightarrow> [] | Some m \<Rightarrow> [m]) = br_made s"
  proof (cases "fw_held (br_fw s)")
    case None
    then show ?thesis using ok(3) by (simp add: lossless_def client_side_def handed_over_def)
  next
    case (Some m)
    then have "br_made s \<noteq> []" "last (br_made s) = m" using h by auto
    then have "br_made s = butlast (br_made s) @ [m]" by (metis append_butlast_last_id)
    moreover have "br_received s @ ch_buf (fw_out (br_fw s)) = butlast (br_made s)"
      using ok(3) Some by (simp add: lossless_def client_side_def handed_over_def)
    ultimately show ?thesis using Some by (metis append_assoc option.simps(5))
  qed
  have "map m_payload (br_made s) = map f_data gone"
    using g(2,3) by (intro nth_equalityI) (auto simp: numbered_def to_message_def)
  then have "map m_payload (br_received s @ ch_buf (fw_out (br_fw s))) = map f_data (br_arrived s)"
    if "\<not> fw_running (br_fw s)"
  proof -
    have "br_received s @ ch_buf (fw_out (br_fw s)) = br_made s" "br_arrived s = gone"
      using 1 ok(2) g(1) that by (simp_all add: ended_ok_def)
    with \<open>map m_payload (br_made s) = map f_data gone\<close> show ?thesis by (simp only:)
  qed
  then show ?thesis using 1 ok(2) by (auto simp: ended_ok_def simp del: map_append)
qed

theorem subscription_block_lossless_witness:
  "\<exists>s. s = fold bridge_step demo_ops (bridge_start 64 1 Block) \<and>
   br_received s @ ch_buf (fw_out (br_fw s)) @ (case fw_held (br_fw s) of None \<Rightarrow> [] | Some m \<Rightarrow> [m]) = br_made s"
proof (intro exI conjI)
  let ?s = "fold bridge_step demo_ops (bridge_start 64 1 Block)"
  have "\<forall>x\<in>set demo_ops. client_only x \<and> x \<noteq> ClientOp CloseChan" by (simp add: demo_ops_def)
  from subscription_block_lossless [OF this refl, of 64 1]
  show "br_received ?s @ ch_buf (fw_out (br_fw ?s)) @ (case fw_held (br_fw ?s) of None \<Rightarrow> [] | Some m \<Rightarrow> [m]) = br_made ?s"
    by (rule conjunct1)
qed (rule refl)

text \<open>C38: the forwarding thread ends. Under the two dropping policies, once the bus has closed the channel of
  frames, the thread ends and closes its own channel after at most two steps for each frame still
  queued and two more, whatever the client has done.\<close>

theorem subscription_thread_ends:
  assumes "s = fold bridge_step ops (bridge_start d e policy)" and "0 < e" and "policy \<noteq> Block"
    and "ch_closed (br_in s)"
  shows "(let s' = fold bridge_step (replicate (2 * length (ch_buf (br_in s)) + 2) (Forward now)) s
     in \<not> fw_running (br_fw s') \<and> ch_closed (fw_out (br_fw s')) \<and> ch_buf (br_in s') = [])"
proof -
  have "ended_ok s"
    unfolding assms(1) by (rule fold_invariant [where I = ended_ok]) (simp_all add: bridge_start_ok ended_ok_step)
  then have ended: "ended_ok (fold bridge_step xs s)" for xs
    by (rule fold_invariant [where I = ended_ok]) (simp add: ended_ok_step)
  have "chan_ok (fw_out (br_fw s))"
    unfolding assms(1)
    by (rule fold_invariant [where I = "\<lambda>s. chan_ok (fw_out (br_fw s))"])
       (simp_all add: bridge_start_def assms(2) out_ok_step)
  moreover have "fw_policy (br_fw s) = policy"
    unfolding assms(1)
    by (rule fold_invariant [where I = "\<lambda>s. fw_policy (br_fw s) = policy"])
       (simp_all add: bridge_start_def policy_step)
  ultimately have "draining s" using assms(3,4) by (simp add: draining_def)
  moreover have "steps_left s \<le> 2 * length (ch_buf (br_in s)) + 2" by (simp add: steps_left_def)
  ultimately have "\<not> fw_running (br_fw (fold bridge_step (replicate (2 * length (ch_buf (br_in s)) + 2) (Forward now)) s))"
    by (rule draining_run)
  then show ?thesis
    using ended [of "replicate (2 * length (ch_buf (br_in s)) + 2) (Forward now)"] by (simp add: Let_def ended_ok_def)
qed

theorem subscription_thread_ends_witness:
  "\<not> fw_running (br_fw (fold bridge_step (replicate 2 (Forward 9))
     (fold bridge_step [BusCloses] (bridge_start 64 1 DropNewest))))"
proof -
  let ?s = "fold bridge_step [BusCloses] (bridge_start 64 1 DropNewest)"
  have c: "ch_closed (br_in ?s)" and q: "ch_buf (br_in ?s) = []"
    by (simp_all add: bridge_start_def new_chan_def chan_close_def)
  have "\<not> fw_running (br_fw (fold bridge_step (replicate (2 * length (ch_buf (br_in ?s)) + 2) (Forward 9)) ?s))"
    using subscription_thread_ends [OF refl _ _ c, of 9] unfolding Let_def by simp
  then show ?thesis unfolding q by (simp only: list.size mult_0_right add_0 not_False_eq_True)
qed

end
