(* ===== verification/BusRefinement.thy ===== *)
theory BusRefinement
  imports VirtualBus
begin

text \<open>
  What the bus promises, without its data structures: a table of responses, a list of listeners, and a
  queue per subscription ever made. No channel indices, no counters, no loops. The bus refines it:
  every run of calls gives the same results and ends in the state the specification has.
\<close>

subsection \<open>The specification\<close>

record bus_spec =
  bs_table :: "u8 \<rightharpoonup> bytes \<times> checksum_type"
  bs_open :: bool
  bs_listeners :: "(filter_rule list \<times> back_pressure_policy) list"
  bs_queues :: "frame chan list"

definition spec_init :: bus_spec where
  "spec_init = \<lparr>bs_table = Map.empty, bs_open = True, bs_listeners = [], bs_queues = []\<rparr>"

definition hears :: "filter_rule list \<Rightarrow> frame \<Rightarrow> bool" where
  "hears fs f \<longleftrightarrow> fs = [] \<or> (\<exists>fl\<in>set fs. filter_matches fl f)"

definition hand_frame :: "frame \<Rightarrow> filter_rule list \<times> back_pressure_policy \<Rightarrow> frame chan \<Rightarrow> frame chan" where
  "hand_frame f l q = (if hears (fst l) f then offered (snd l) f q else q)"

definition holds_up :: "frame \<Rightarrow> filter_rule list \<times> back_pressure_policy \<Rightarrow> frame chan \<Rightarrow> bool" where
  "holds_up f l q \<longleftrightarrow> hears (fst l) f \<and> snd l = Block \<and> \<not> ch_closed q \<and> ch_capacity q \<le> length (ch_buf q)"

definition spec_publish :: "u8 \<Rightarrow> bytes \<Rightarrow> checksum_type \<Rightarrow> bus_spec \<Rightarrow> error_code \<times> bus_spec" where
  "spec_publish i d ct a =
    (if i > kLINMaxID then (lin_make_error_code invalid_frame, a)
     else if \<not> bs_open a then (ErrClosed, a)
     else (ok_code, a\<lparr>bs_table := (bs_table a)(i := registered i d ct)\<rparr>))"

definition spec_header :: "u8 \<Rightarrow> bus_spec \<Rightarrow> ((frame \<times> error_code) \<times> bus_spec) outcome" where
  "spec_header i a =
    (if i > kLINMaxID then Ret ((default_frame, lin_make_error_code invalid_frame), a)
     else if \<not> bs_open a then Ret ((default_frame, ErrClosed), a)
     else case bs_table a i of
       None \<Rightarrow> Ret ((default_frame, lin_make_error_code no_response), a)
     | Some (d, ct) \<Rightarrow>
         let f = answer_frame i d ct
         in if list_ex (\<lambda>(l, q). holds_up f l q) (zip (bs_listeners a) (bs_queues a)) then Blocks
            else Ret ((f, ok_code), a\<lparr>bs_queues := map2 (hand_frame f) (bs_listeners a) (bs_queues a)\<rparr>))"

definition spec_subscribe ::
  "filter_rule list \<Rightarrow> subscriber_option list \<Rightarrow> bus_spec \<Rightarrow> (nat option \<times> error_code) \<times> bus_spec" where
  "spec_subscribe fs opts a =
    (if \<not> bs_open a then ((None, ErrClosed), a)
     else
       let cfg = apply_options opts
       in ((Some (length (bs_queues a)), ok_code),
           a\<lparr>bs_listeners := bs_listeners a @ [(fs, back_pressure cfg)],
             bs_queues := bs_queues a @ [new_chan (nat (effective_depth cfg kDefaultChanDepth))]\<rparr>))"

definition spec_close :: "bus_spec \<Rightarrow> bus_spec" where
  "spec_close a = (if bs_open a then a\<lparr>bs_open := False, bs_listeners := [], bs_queues := map chan_close (bs_queues a)\<rparr> else a)"

subsection \<open>Calls and their results\<close>

datatype bus_result = Code error_code | Answer frame error_code | Handle "nat option" error_code | Items "frame list"

fun bus_call :: "bus_op \<Rightarrow> bus \<Rightarrow> (bus_result \<times> bus) outcome" where
  "bus_call (Publish i d) b = (let (e, b') = publish i d b in Ret (Code e, b'))"
| "bus_call (PublishClassic i d) b = (let (e, b') = publish_classic i d b in Ret (Code e, b'))"
| "bus_call (SendHeader i) b = obind (send_header i b) (\<lambda>((f, e), b'). Ret (Answer f e, b'))"
| "bus_call (Subscribe fs opts) b = (let ((h, e), b') = subscribe fs opts b in Ret (Handle h e, b'))"
| "bus_call (SetSchedule es) b = (let (e, b') = set_schedule es b in Ret (Code e, b'))"
| "bus_call CloseBus b = (let (e, b') = bus_close b in Ret (Code e, b'))"
| "bus_call (Client i x) b =
    Ret (Items (if i < length (b_chans b) then received_items x (b_chans b ! i) else []), client_chan i x b)"

fun spec_call :: "bus_op \<Rightarrow> bus_spec \<Rightarrow> (bus_result \<times> bus_spec) outcome" where
  "spec_call (Publish i d) a = (let (e, a') = spec_publish i d Enhanced a in Ret (Code e, a'))"
| "spec_call (PublishClassic i d) a = (let (e, a') = spec_publish i d Classic a in Ret (Code e, a'))"
| "spec_call (SendHeader i) a = obind (spec_header i a) (\<lambda>((f, e), a'). Ret (Answer f e, a'))"
| "spec_call (Subscribe fs opts) a = (let ((h, e), a') = spec_subscribe fs opts a in Ret (Handle h e, a'))"
| "spec_call (SetSchedule es) a = Ret (Code (if bs_open a then ok_code else ErrClosed), a)"
| "spec_call CloseBus a = Ret (Code ok_code, spec_close a)"
| "spec_call (Client i x) a =
    Ret (if i < length (bs_queues a)
         then (Items (received_items x (bs_queues a ! i)), a\<lparr>bs_queues := (bs_queues a)[i := chan_step x (bs_queues a ! i)]\<rparr>)
         else (Items [], a))"

subsection \<open>Simulation\<close>

text \<open>
  A machine whose every call gives, through an abstraction of its state, what a specification's call
  gives, and keeps an invariant: then whole runs do.
\<close>

fun run_calls :: "('op \<Rightarrow> 's \<Rightarrow> ('r \<times> 's) outcome) \<Rightarrow> 'op list \<Rightarrow> 's \<Rightarrow> ('r list \<times> 's) outcome" where
  "run_calls call [] s = Ret ([], s)"
| "run_calls call (x # xs) s =
    obind (call x s) (\<lambda>(r, s'). obind (run_calls call xs s') (\<lambda>(rs, t). Ret (r # rs, t)))"

definition abstracted :: "('s \<Rightarrow> 't) \<Rightarrow> ('r \<times> 's) outcome \<Rightarrow> ('r \<times> 't) outcome" where
  "abstracted f m = obind m (\<lambda>(r, s). Ret (r, f s))"

lemma abstracted_simps [simp]:
  "abstracted f (Ret (r, s)) = Ret (r, f s)" "abstracted f Blocks = Blocks" "abstracted f UB = UB"
  by (simp_all add: abstracted_def)

locale simulation =
  fixes call :: "'op \<Rightarrow> 's \<Rightarrow> ('r \<times> 's) outcome"
    and spec :: "'op \<Rightarrow> 't \<Rightarrow> ('r \<times> 't) outcome"
    and view :: "'s \<Rightarrow> 't"
    and good :: "'s \<Rightarrow> bool"
  assumes call_view: "good s \<Longrightarrow> spec x (view s) = abstracted view (call x s)"
    and call_good: "good s \<Longrightarrow> call x s = Ret (r, s') \<Longrightarrow> good s'"
begin

lemma run_view: "good s \<Longrightarrow> run_calls spec xs (view s) = abstracted view (run_calls call xs s)"
proof (induction xs arbitrary: s)
  case (Cons x xs)
  show ?case
  proof (cases "call x s")
    case (Ret rs)
    obtain r s' where rs: "rs = (r, s')" by (cases rs)
    have "good s'" using call_good [OF Cons.prems Ret [unfolded rs]] .
    then have "run_calls spec xs (view s') = abstracted view (run_calls call xs s')" by (rule Cons.IH)
    then show ?thesis
      using Ret rs call_view [OF Cons.prems, of x] by (cases "run_calls call xs s'") (auto split: prod.split)
  qed (use call_view [OF Cons.prems, of x] in simp_all)
qed simp

lemma run_good: "good s \<Longrightarrow> run_calls call xs s = Ret (rs, s') \<Longrightarrow> good s'"
  by (induction xs arbitrary: s rs) (auto simp: obind_eqs dest: call_good)

end

subsection \<open>Abstraction\<close>

definition bus_abs :: "bus \<Rightarrow> bus_spec" where
  "bus_abs b =
    \<lparr>bs_table = bus_responses b, bs_open = \<not> b_closed b,
     bs_listeners = map (\<lambda>s. (sb_filters s, sb_policy s)) (b_subs b), bs_queues = b_chans b\<rparr>"



lemma bus_abs_count [simp]: "bus_abs (count_error b) = bus_abs b" "bus_abs (count_written f b) = bus_abs b"
  by (simp_all add: bus_abs_def bus_responses_def)

lemma hears_matches_any: "hears fs f = matches_any fs f"
  by (simp add: hears_def matches_any_def list_ex_iff)

subsection \<open>Each call\<close>

named_theorems abs_call \<open>the abstraction commutes with each call\<close>

lemma publish_abs [abs_call]:
  "spec_publish i d ct (bus_abs b) = (fst (do_publish i d ct b), bus_abs (snd (do_publish i d ct b)))"
  by (auto simp: spec_publish_def do_publish_def Let_def bus_abs_def bus_responses_def registered_def is_diag_def
      not_le [symmetric])

lemma subscribe_abs [abs_call]:
  "spec_subscribe fs opts (bus_abs b) = (fst (subscribe fs opts b), bus_abs (snd (subscribe fs opts b)))"
  by (simp add: spec_subscribe_def subscribe_def Let_def bus_abs_def bus_responses_def)

lemma set_schedule_abs [abs_call]:
  "bus_abs (snd (set_schedule es b)) = bus_abs b" "fst (set_schedule es b) = (if bs_open (bus_abs b) then ok_code else ErrClosed)"
  by (simp_all add: set_schedule_def bus_abs_def bus_responses_def)

lemma close_abs [abs_call]: "bus_ok b \<Longrightarrow> bus_abs (snd (bus_close b)) = spec_close (bus_abs b)"
  using bus_close_chans [of b]
  by (cases "b_closed b") (simp_all add: bus_abs_def spec_close_def bus_responses_def bus_close_def Let_def)

lemma client_abs [abs_call]:
  "bus_abs (client_chan i x b) = (if i < length (b_chans b) then (bus_abs b)\<lparr>bs_queues := (b_chans b)[i := chan_step x (b_chans b ! i)]\<rparr> else bus_abs b)"
  by (simp add: bus_abs_def client_chan_def bus_responses_def list_update_beyond)

text \<open>On an open bus the subscriptions and the channels are the two sides of one list.\<close>

lemma subs_index:
  assumes "bus_ok b" "\<not> b_closed b"
  shows "length (b_subs b) = length (b_chans b)" "i < length (b_chans b) \<Longrightarrow> sb_ch (b_subs b ! i) = i"
proof -
  have m: "map sb_ch (b_subs b) = [0..<length (b_chans b)]" using assms by (simp add: bus_ok_def)
  then have "length (map sb_ch (b_subs b)) = length [0..<length (b_chans b)]" by (rule arg_cong)
  then show l: "length (b_subs b) = length (b_chans b)" by simp
  assume "i < length (b_chans b)"
  then show "sb_ch (b_subs b ! i) = i" using m l by (metis add_0 nth_map nth_upt)
qed

lemma broadcast_abs:
  assumes "bus_ok b" "\<not> b_closed b"
  shows "b_chans (fold (delivered f) (b_subs b) b) =
      map2 (hand_frame f) (map (\<lambda>s. (sb_filters s, sb_policy s)) (b_subs b)) (b_chans b)"
    and "(\<exists>s\<in>set (b_subs b). must_wait f s (b_chans b ! sb_ch s)) \<longleftrightarrow>
      list_ex (\<lambda>(l, q). holds_up f l q) (zip (map (\<lambda>s. (sb_filters s, sb_policy s)) (b_subs b)) (b_chans b))"
proof -
  note ix = subs_index [OF assms]
  show "b_chans (fold (delivered f) (b_subs b) b) =
      map2 (hand_frame f) (map (\<lambda>s. (sb_filters s, sb_policy s)) (b_subs b)) (b_chans b)"
  proof (rule nth_equalityI)
    fix i assume "i < length (b_chans (fold (delivered f) (b_subs b) b))"
    then have i: "i < length (b_chans b)" by simp
    then have "b_chans (fold (delivered f) (b_subs b) b) ! i = chan_after f (b_subs b ! i) (b_chans b ! i)"
      using fold_delivered_chan [OF bus_ok_subs [OF assms(1)], of "b_subs b ! i" f] ix by simp
    then show "b_chans (fold (delivered f) (b_subs b) b) ! i =
        map2 (hand_frame f) (map (\<lambda>s. (sb_filters s, sb_policy s)) (b_subs b)) (b_chans b) ! i"
      using i ix(1) by (simp add: chan_after_def hand_frame_def hears_matches_any)
  qed (simp add: ix(1))
  have "(\<exists>s\<in>set (b_subs b). must_wait f s (b_chans b ! sb_ch s)) \<longleftrightarrow>
      (\<exists>i<length (b_chans b). must_wait f (b_subs b ! i) (b_chans b ! i))"
    using ix by (metis in_set_conv_nth)
  also have "\<dots> \<longleftrightarrow> list_ex (\<lambda>(l, q). holds_up f l q) (zip (map (\<lambda>s. (sb_filters s, sb_policy s)) (b_subs b)) (b_chans b))"
    by (auto simp: list_ex_length ix(1) must_wait_def holds_up_def hears_matches_any chan_size_def)
  finally show "(\<exists>s\<in>set (b_subs b). must_wait f s (b_chans b ! sb_ch s)) \<longleftrightarrow>
      list_ex (\<lambda>(l, q). holds_up f l q) (zip (map (\<lambda>s. (sb_filters s, sb_policy s)) (b_subs b)) (b_chans b))" .
qed

lemma header_abs [abs_call]:
  assumes "bus_ok b"
  shows "spec_header i (bus_abs b) = abstracted bus_abs (send_header i b)"
proof (cases "kLINMaxID < i \<or> b_closed b \<or> b_responses b i = None")
  case True
  then show ?thesis
    by (auto simp: spec_header_def send_header_closed_form [OF assms]) (simp_all add: bus_abs_def bus_responses_def)
next
  case False
  then obtain e where e: "b_responses b i = Some e" and i: "\<not> kLINMaxID < i" and op: "\<not> b_closed b" by auto
  define f where "f = response_frame i e"
  have ff: "answer_frame i (re_data e) (re_checksum_type e) = f" by (simp add: f_def answer_frame_def response_frame_def)
  define w where "w = count_written f b"
  have w: "bus_ok w" "\<not> b_closed w" "b_subs w = b_subs b" "b_chans w = b_chans b"
    using assms op by (simp_all add: w_def)
  have abs: "bus_abs (fold (delivered f) (b_subs b) w) = (bus_abs b)\<lparr>bs_queues := b_chans (fold (delivered f) (b_subs b) w)\<rparr>"
    by (simp add: bus_abs_def bus_responses_def w_def)
  have "spec_header i (bus_abs b) =
     (if list_ex (\<lambda>(l, q). holds_up f l q) (zip (bs_listeners (bus_abs b)) (bs_queues (bus_abs b))) then Blocks
      else Ret ((f, ok_code), (bus_abs b)\<lparr>bs_queues := map2 (hand_frame f) (bs_listeners (bus_abs b)) (bs_queues (bus_abs b))\<rparr>))"
    using i op e ff by (simp add: spec_header_def Let_def) (simp add: bus_abs_def bus_responses_def)
  then show ?thesis
    using broadcast_abs [OF w(1,2), of f] i op e
    by (simp add: send_header_closed_form [OF assms] f_def [symmetric] w_def [symmetric] w(3,4) abs)
       (simp add: bus_abs_def)
qed

subsection \<open>Runs\<close>

lemma call_step: "bus_call x b = Ret (r, b') \<Longrightarrow> bus_step x b = Ret b'"
  by (cases x) (auto simp: obind_eqs split: prod.splits)

lemma call_abs: "bus_ok b \<Longrightarrow> spec_call x (bus_abs b) = abstracted bus_abs (bus_call x b)"
proof (cases x)
  case (SendHeader i)
  assume ok: "bus_ok b"
  then show ?thesis
    using SendHeader header_abs [OF ok, of i] by (cases "send_header i b") (auto split: prod.split)
next
  case CloseBus
  assume "bus_ok b"
  then show ?thesis using CloseBus close_abs [of b] bus_close_simps(2) [of b] by (cases "bus_close b") simp
next
  case (SetSchedule es)
  then show ?thesis using set_schedule_abs [of es b] by (cases "set_schedule es b") simp
next
  case (Client i y)
  then show ?thesis by (simp add: client_abs) (simp add: bus_abs_def)
qed (auto simp: abs_call publish_def publish_classic_def split: prod.split)

lemma call_ok: "bus_ok b \<Longrightarrow> bus_call x b = Ret (r, b') \<Longrightarrow> bus_ok b'"
  using call_step bus_step_ok by blast

interpretation bus_sim: simulation bus_call spec_call bus_abs bus_ok
  by unfold_locales (fact call_abs, fact call_ok)

lemma bus_abs_new: "bus_abs new_bus = spec_init"
  by (simp add: bus_abs_def new_bus_def spec_init_def bus_responses_def)

subsection \<open>Properties\<close>

text \<open>C2: the bus implements its specification. Any sequence of calls on a new bus, by any clients, headers
  and receptions included, returns the results the specification returns, call by call, waits where it
  waits, and ends in a state whose abstraction is the specification's state: the responses registered,
  whether the bus is open, the filters and policies in force, and every queue's contents.\<close>

theorem bus_refines_spec:
  "abstracted bus_abs (run_calls bus_call xs new_bus) = run_calls spec_call xs spec_init"
  using bus_sim.run_view [OF bus_ok_new, of xs] by (simp add: bus_abs_new)

end
