(* ===== verification/BusLossless.thy ===== *)
theory BusLossless
  imports BusThreads
begin

text \<open>
  A subscription under \<open>Block\<close> loses nothing, however the headers of \<open>src/virtual/bus.cpp\<close> overlap:
  what its holder has received, and what is still in its channel, are the matching frames of all
  headers, each once, in the order in which the loops came to it.
\<close>

subsection \<open>What a holder receives\<close>

fun taken_by :: "nat \<Rightarrow> bus_event \<Rightarrow> shared_bus \<Rightarrow> frame list" where
  "taken_by i (Call (Client j x)) s = (if j = i then received_items x (b_chans (lv_bus s) ! i) else [])"
| "taken_by i _ s = []"

primrec taken :: "nat \<Rightarrow> bus_event list \<Rightarrow> shared_bus \<Rightarrow> frame list" where
  "taken i [] s = []"
| "taken i (e # es) s = (case live_step e s of Ret s' \<Rightarrow> taken_by i e s @ taken i es s' | _ \<Rightarrow> [])"

text \<open>The holder of the channel \<open>i\<close> does not send on it.\<close>

fun only_receives :: "nat \<Rightarrow> bus_event \<Rightarrow> bool" where
  "only_receives i (Call (Client j x)) \<longleftrightarrow> j = i \<longrightarrow> x = Recv \<or> x = TryRecv \<or> x = CloseChan"
| "only_receives i _ \<longleftrightarrow> True"

subsection \<open>Channels and subscriptions of an open bus\<close>

lemma bus_step_chan:
  assumes "bus_step x b = Ret b'" "takes_lock x" "i < length (b_chans b)" "\<not> b_closed b'"
  shows "b_chans b' ! i = b_chans b ! i"
  using assms by (cases x) (auto simp: table_call_chans subscribe_def Let_def nth_append)

lemma bus_step_subs:
  "bus_step x b = Ret b' \<Longrightarrow> takes_lock x \<Longrightarrow> \<not> b_closed b' \<Longrightarrow> prefix (b_subs b) (b_subs b')"
  by (cases x) (auto simp: subscribe_def Let_def)

lemma open_channel_open_bus: "live_ok s \<Longrightarrow> i < length (b_chans (lv_bus s)) \<Longrightarrow> \<not> ch_closed (b_chans (lv_bus s) ! i) \<Longrightarrow> \<not> b_closed (lv_bus s)"
  by (auto simp: live_ok_def bus_ok_def)

lemma live_step_subs:
  assumes "live_step e s = Ret s'" "\<not> b_closed (lv_bus s')"
  shows "prefix (b_subs (lv_bus s)) (b_subs (lv_bus s'))"
  using assms(1)
proof (cases rule: live_step_cases)
  case (locked x)
  then show ?thesis using bus_step_subs assms(2) by blast
next
  case (offered k t ts)
  then show ?thesis by (simp add: deliver_subs)
qed simp_all

lemma chan_after_block:
  "sb_policy t = Block \<Longrightarrow> \<not> ch_closed c \<Longrightarrow> \<not> must_wait f t c \<Longrightarrow>
    ch_buf (chan_after f t c) = ch_buf c @ filter (matches_any (sb_filters t)) [f]"
  by (auto simp: chan_after_def offered_def must_wait_def chan_push_def)

lemma receiving:
  "\<not> ch_closed c \<Longrightarrow> x = Recv \<or> x = TryRecv \<or> x = CloseChan \<Longrightarrow> ch_buf c = received_items x c @ ch_buf (chan_step x c)"
  by (elim disjE) (auto simp: chan_defs split: list.split)

subsection \<open>Step by step\<close>

lemma block_step_lossless:
  assumes ok: "live_ok s" and step: "live_step e s = Ret s'"
    and t: "t \<in> set (b_subs (lv_bus s))" "sb_policy t = Block" "sb_ch t = i"
    and open_after: "\<not> ch_closed (b_chans (lv_bus s') ! i)" and e: "only_receives i e"
  shows "ch_buf (b_chans (lv_bus s) ! i) @ filter (matches_any (sb_filters t)) (offered_by i e s) =
      taken_by i e s @ ch_buf (b_chans (lv_bus s') ! i) \<and>
    t \<in> set (b_subs (lv_bus s')) \<and> \<not> ch_closed (b_chans (lv_bus s) ! i)"
proof -
  have subs: "subs_ok (b_subs (lv_bus s)) (b_chans (lv_bus s))" using ok bus_ok_subs by (simp add: live_ok_def)
  then have i: "i < length (b_chans (lv_bus s))" using t(1,3) by (auto simp: subs_ok_def)
  have "i < length (b_chans (lv_bus s'))" using live_step_chans_grow [OF ok step] i by simp
  then have "\<not> b_closed (lv_bus s')" using open_channel_open_bus [OF live_step_ok [OF ok step]] open_after by blast
  then have stays: "t \<in> set (b_subs (lv_bus s'))"
    using live_step_subs [OF step] t(1) set_mono_prefix by blast
  have "ch_buf (b_chans (lv_bus s) ! i) @ filter (matches_any (sb_filters t)) (offered_by i e s) =
      taken_by i e s @ ch_buf (b_chans (lv_bus s') ! i) \<and> \<not> ch_closed (b_chans (lv_bus s) ! i)"
    using step
  proof (cases rule: live_step_cases)
    case error
    have "offered_by i e s = []" using error(3) by (cases e) auto
    moreover have "taken_by i e s = []"
    proof (cases e)
      case (Call x)
      then show ?thesis using error(4) by (cases x) auto
    qed simp
    ultimately show ?thesis using error open_after by simp
  next
    case (opened j r)
    then show ?thesis using open_after by simp
  next
    case (locked x)
    have "b_chans (lv_bus s') ! i = b_chans (lv_bus s) ! i"
      using bus_step_chan [OF locked(4,2) i] \<open>\<not> b_closed (lv_bus s')\<close> by simp
    moreover have "taken_by i e s = []" using locked(1,2) by (cases x) simp_all
    ultimately show ?thesis using locked(1) open_after by simp
  next
    case (client j y)
    show ?thesis
    proof (cases "j = i")
      case True
      then have y: "y = Recv \<or> y = TryRecv \<or> y = CloseChan" using e client(1) by simp
      have "\<not> ch_closed (chan_step y (b_chans (lv_bus s) ! i))"
        using open_after client(2) True i by (simp add: client_chan_def)
      then have "\<not> ch_closed (b_chans (lv_bus s) ! i)" using chan_step_closed by blast
      then show ?thesis
        using receiving [OF _ y] client True i by (simp add: client_chan_def)
    next
      case False
      then show ?thesis using client open_after by (simp add: client_chan_def)
    qed
  next
    case (returned k)
    then show ?thesis using open_after by simp
  next
    case (offered k u us)
    note b' = offered_bus [OF ok offered(2-5)] and u = live_ok_todo [OF ok offered(2-4)]
    show ?thesis
    proof (cases "sb_ch u = i")
      case True
      have "distinct (map sb_ch (b_subs (lv_bus s)))" using subs by (simp add: subs_ok_def)
      then have "u = t" using True t(1,3) u(1) by (auto simp: distinct_map dest: inj_onD)
      have after: "b_chans (lv_bus s') ! i = chan_after (hc_frame (lv_calls s ! k)) t (b_chans (lv_bus s) ! i)"
        using b'(1) i True \<open>u = t\<close> by simp
      then have "\<not> ch_closed (b_chans (lv_bus s) ! i)" using open_after by simp
      then show ?thesis
        using chan_after_block [OF t(2)] b'(2) after offered(1,4) True \<open>u = t\<close> by simp
    next
      case False
      then show ?thesis using offered b'(1) open_after by simp
    qed
  qed
  with stays show ?thesis by blast
qed

lemma bus_step_closed_chan:
  assumes "bus_ok b" "bus_step x b = Ret b'" "takes_lock x" "i < length (b_chans b)" "ch_closed (b_chans b ! i)"
  shows "ch_closed (b_chans b' ! i)"
  using assms
  by (cases x) (auto simp: table_call_chans subscribe_def Let_def nth_append bus_close_chans chan_close_def)

lemma closed_step:
  assumes ok: "live_ok s" and step: "live_step e s = Ret s'"
    and i: "i < length (b_chans (lv_bus s))" and "ch_closed (b_chans (lv_bus s) ! i)"
  shows "ch_closed (b_chans (lv_bus s') ! i)"
  using step
proof (cases rule: live_step_cases)
  case (locked x)
  then show ?thesis using bus_step_closed_chan [OF _ locked(4,2) i] assms(1,4) by (simp add: live_ok_def)
next
  case (client j y)
  then show ?thesis using assms(4) i chan_step_closed by (cases "j = i") (auto simp: client_chan_def)
next
  case (offered k t ts)
  then show ?thesis
    using offered_bus(1) [OF ok offered(2-5)] assms(4) i by (cases "sb_ch t = i") auto
qed (use assms(4) in simp_all)

lemma closed_run:
  assumes "live_run es s = Ret s'" "live_ok s" "i < length (b_chans (lv_bus s))" "ch_closed (b_chans (lv_bus s) ! i)"
  shows "ch_closed (b_chans (lv_bus s') ! i)"
proof -
  define closed where "closed s \<longleftrightarrow> i < length (b_chans (lv_bus s)) \<and> ch_closed (b_chans (lv_bus s) ! i)" for s :: shared_bus
  have "closed s" using assms(3,4) by (simp add: closed_def)
  moreover have "closed t'" if "live_ok t" "closed t" "live_step e t = Ret t'" for e t t'
    using that closed_step [OF that(1,3)] live_step_chans_grow [OF that(1,3)] by (simp add: closed_def)
  ultimately have "closed s'" using live_safe.run_good_invariant [where P = closed, OF assms(2) _ assms(1)] by blast
  then show ?thesis by (simp add: closed_def)
qed

lemma block_run_lossless:
  "live_run es s = Ret s' \<Longrightarrow> live_ok s \<Longrightarrow> t \<in> set (b_subs (lv_bus s)) \<Longrightarrow> sb_policy t = Block \<Longrightarrow> sb_ch t = i \<Longrightarrow>
    \<not> ch_closed (b_chans (lv_bus s') ! i) \<Longrightarrow> list_all (only_receives i) es \<Longrightarrow>
    ch_buf (b_chans (lv_bus s) ! i) @ filter (matches_any (sb_filters t)) (offers i es s) =
      taken i es s @ ch_buf (b_chans (lv_bus s') ! i)"
proof (induction es arbitrary: s)
  case (Cons e es)
  then obtain s1 where s1: "live_step e s = Ret s1" "live_run es s1 = Ret s'" by (auto simp: obind_eqs)
  have ok1: "live_ok s1" by (rule live_step_ok [OF Cons.prems(2) s1(1)])
  have i: "i < length (b_chans (lv_bus s))"
    using bus_ok_subs Cons.prems(2,3,5) by (auto simp: live_ok_def subs_ok_def)
  have "i < length (b_chans (lv_bus s1))" using live_step_chans_grow [OF Cons.prems(2) s1(1)] i by simp
  then have open1: "\<not> ch_closed (b_chans (lv_bus s1) ! i)" using closed_run [OF s1(2) ok1] Cons.prems(6) by blast
  have e: "only_receives i e" "list_all (only_receives i) es" using Cons.prems(7) by simp_all
  note step = block_step_lossless [OF Cons.prems(2) s1(1) Cons.prems(3-5) open1 e(1)]
  have "ch_buf (b_chans (lv_bus s1) ! i) @ filter (matches_any (sb_filters t)) (offers i es s1) =
      taken i es s1 @ ch_buf (b_chans (lv_bus s') ! i)"
    using step by (intro Cons.IH [OF s1(2) ok1 _ Cons.prems(4-6) e(2)]) blast
  then show ?case
    using step s1(1) by (simp flip: append_assoc) (simp add: append_assoc)
qed simp

text \<open>C8: however headers overlap with each other and with everything else, a subscription under Block
  whose channel is not closed loses nothing: once all headers have returned, what its holder has
  received and what is in its channel are together, as a multiset, the frames of all headers that
  its filters match, and the holder receives them in the order in which they were put in.\<close>

theorem block_subscription_lossless:
  assumes "bus_ok b" "t \<in> set (b_subs b)" "sb_policy t = Block" "ch_buf (b_chans b ! sb_ch t) = []"
    and "live_run es (alone b) = Ret s" "\<not> lock_shared s" "\<not> ch_closed (b_chans (lv_bus s) ! sb_ch t)"
    and "list_all (only_receives (sb_ch t)) es"
  shows "taken (sb_ch t) es (alone b) @ ch_buf (b_chans (lv_bus s) ! sb_ch t) =
      filter (matches_any (sb_filters t)) (offers (sb_ch t) es (alone b)) \<and>
    mset (taken (sb_ch t) es (alone b) @ ch_buf (b_chans (lv_bus s) ! sb_ch t)) =
      mset (filter (matches_any (sb_filters t)) (map hc_frame (lv_calls s)))"
proof -
  have ok: "live_ok (alone b)" using assms(1) by simp
  have i: "sb_ch t < length (b_chans b)" using bus_ok_subs [OF assms(1)] assms(2) by (simp add: subs_ok_def)
  have eq: "taken (sb_ch t) es (alone b) @ ch_buf (b_chans (lv_bus s) ! sb_ch t) =
      filter (matches_any (sb_filters t)) (offers (sb_ch t) es (alone b))"
    using block_run_lossless [OF assms(5) ok _ assms(3) refl assms(7,8)] assms(2,4) by simp
  have "mset (offers (sb_ch t) es (alone b)) = mset (map hc_frame (lv_calls s))"
    by (rule offered_once [OF assms(1) i assms(5,6)])
  with eq show ?thesis by (simp only: mset_filter simp_thms)
qed

definition patient_listener :: "bus_op list" where
  "patient_listener = [Subscribe [] [with_channel_depth 1, with_back_pressure Block], Publish 1 [0x11], Publish 2 [0x22]]"

definition overlapping_pair :: "bus_event list" where
  "overlapping_pair = [Call (SendHeader 1), Call (SendHeader 2), Turn 1, Call (Client 0 Recv), Turn 0, Turn 0, Turn 1]"

theorem block_subscription_lossless_witness:
  "\<exists>b s. bus_run patient_listener new_bus = Ret b \<and> live_run overlapping_pair (alone b) = Ret s \<and>
     map f_id (taken 0 overlapping_pair (alone b)) = [2] \<and> ids_on 0 (lv_bus s) = [1] \<and>
     mset (taken 0 overlapping_pair (alone b) @ ch_buf (b_chans (lv_bus s) ! 0)) = mset (map hc_frame (lv_calls s))"
proof -
  have "when_ret (bus_run patient_listener new_bus) (\<lambda>b. b_subs b \<noteq> [] \<and> sb_policy (hd (b_subs b)) = Block \<and>
      sb_ch (hd (b_subs b)) = 0 \<and> sb_filters (hd (b_subs b)) = [] \<and> ch_buf (b_chans b ! 0) = [] \<and>
      map f_id (taken 0 overlapping_pair (alone b)) = [2] \<and>
      when_ret (live_run overlapping_pair (alone b)) (\<lambda>s. \<not> lock_shared s \<and> \<not> ch_closed (b_chans (lv_bus s) ! 0) \<and>
        ids_on 0 (lv_bus s) = [1]))"
    by code_simp
  then obtain b s where b: "bus_run patient_listener new_bus = Ret b" "b_subs b \<noteq> []" "sb_policy (hd (b_subs b)) = Block"
      "sb_ch (hd (b_subs b)) = 0" "sb_filters (hd (b_subs b)) = []" "ch_buf (b_chans b ! 0) = []"
      "map f_id (taken 0 overlapping_pair (alone b)) = [2]"
    and s: "live_run overlapping_pair (alone b) = Ret s" "\<not> lock_shared s" "\<not> ch_closed (b_chans (lv_bus s) ! 0)"
      "ids_on 0 (lv_bus s) = [1]"
    unfolding when_ret_iff by (elim exE conjE) (rule that)
  have all: "matches_any [] = (\<lambda>_. True)" by (simp add: matches_any_def fun_eq_iff)
  have rec: "list_all (only_receives 0) overlapping_pair" by (simp add: overlapping_pair_def)
  define t where "t = hd (b_subs b)"
  note t = b(3-5) [folded t_def]
  have "t \<in> set (b_subs b)" using b(2) by (simp add: t_def)
  from block_subscription_lossless [OF bus_run_ok [OF bus_ok_new b(1)] this t(1), unfolded t(2), OF b(6) s(1-3) rec]
  have "mset (taken 0 overlapping_pair (alone b) @ ch_buf (b_chans (lv_bus s) ! 0)) = mset (filter (\<lambda>_. True) (map hc_frame (lv_calls s)))"
    unfolding t(3) all by (rule conjunct2)
  then have "mset (taken 0 overlapping_pair (alone b) @ ch_buf (b_chans (lv_bus s) ! 0)) = mset (map hc_frame (lv_calls s))"
    by (metis filter_True)
  with b(1,7) s(1,4) show ?thesis by (intro exI [of _ b] exI [of _ s] conjI)
qed

end
