(* ===== verification/BusProvenance.thy ===== *)
theory BusProvenance
  imports BusLossless E2EOrder
begin

text \<open>
  Where the frames come from that a holder of a channel of the bus (\<open>src/virtual/bus.cpp\<close>) receives:
  whatever the threads do, each carries data that some call brought in under its identifier. With
  end-to-end protection (\<open>src/safety/e2e.cpp\<close>) on top, a receiver behind any subscription hands out a
  beginning of what was sent.
\<close>

subsection \<open>What a call brings in\<close>

fun op_brings :: "frame chan_op \<Rightarrow> (u8 \<times> bytes) list" where
  "op_brings (Send f) = [(f_id f, f_data f)]"
| "op_brings (TrySend f) = [(f_id f, f_data f)]"
| "op_brings (SendDropOldest f) = [(f_id f, f_data f)]"
| "op_brings _ = []"

fun brings :: "bus_event \<Rightarrow> (u8 \<times> bytes) list" where
  "brings (Call (Publish i d)) = (if d = [] then [] else [(i, d)])"
| "brings (Call (PublishClassic i d)) = (if d = [] then [] else [(i, d)])"
| "brings (Call (Client c x)) = op_brings x"
| "brings _ = []"

subsection \<open>Everything on the bus is from such a call\<close>

text \<open>For a set of identifiers with data: all frames and responses of the bus are from it.\<close>

definition known :: "(u8 \<times> bytes) set \<Rightarrow> frame \<Rightarrow> bool" where
  "known K f \<longleftrightarrow> (f_id f, f_data f) \<in> K"

definition chan_known :: "(u8 \<times> bytes) set \<Rightarrow> frame chan \<Rightarrow> bool" where
  "chan_known K c \<longleftrightarrow> (\<forall>f\<in>set (ch_buf c). known K f)"

definition bus_known :: "(u8 \<times> bytes) set \<Rightarrow> bus \<Rightarrow> bool" where
  "bus_known K b \<longleftrightarrow> (\<forall>i r. b_responses b i = Some r \<longrightarrow> (i, re_data r) \<in> K) \<and> list_all (chan_known K) (b_chans b)"

definition all_known :: "(u8 \<times> bytes) set \<Rightarrow> shared_bus \<Rightarrow> bool" where
  "all_known K s \<longleftrightarrow> bus_known K (lv_bus s) \<and> (\<forall>c\<in>set (lv_calls s). known K (hc_frame c))"

lemma chan_known_step:
  "chan_known K c \<Longrightarrow> set (op_brings x) \<subseteq> K \<Longrightarrow> chan_known K (chan_step x c) \<and> (\<forall>f\<in>set (received_items x c). known K f)"
  by (cases x; cases "ch_buf c") (auto simp: chan_known_def known_def chan_defs)

lemma chan_known_offered: "chan_known K c \<Longrightarrow> known K f \<Longrightarrow> chan_known K (chan_after f t c)"
  by (cases "ch_buf c") (auto simp: chan_known_def chan_after_def offered_def chan_push_def)

lemma bus_known_count [simp]:
  "bus_known K (count_error b) = bus_known K b" "bus_known K (count_written f b) = bus_known K b"
  by (simp_all add: bus_known_def)

lemma locked_known:
  assumes "bus_known K b" "bus_ok b" "bus_step x b = Ret b'" "takes_lock x" "set (brings (Call x)) \<subseteq> K"
  shows "bus_known K b'"
proof (cases x)
  case (Publish i d)
  then show ?thesis
    using assms by (auto simp: bus_known_def publish_def do_publish_def Let_def split: if_splits)
next
  case (PublishClassic i d)
  then show ?thesis
    using assms by (auto simp: bus_known_def publish_classic_def do_publish_def Let_def split: if_splits)
next
  case (Subscribe fs opts)
  then show ?thesis
    using assms by (auto simp: bus_known_def subscribe_def Let_def chan_known_def new_chan_def split: if_splits)
next
  case (SetSchedule es)
  then show ?thesis using assms by (auto simp: bus_known_def set_schedule_def split: if_splits)
next
  case CloseBus
  then show ?thesis
    using assms by (auto simp: bus_known_def bus_close_chans chan_known_def chan_close_def list_all_iff)
qed (use assms in simp_all)

lemma live_step_known:
  assumes "live_ok s" "all_known K s" "live_step e s = Ret s'" "set (brings e) \<subseteq> K"
  shows "all_known K s'"
  using assms(3)
  proof (cases rule: live_step_cases)
    case (opened j r)
    then have "known K (response_frame j r)"
      using assms(2) by (simp add: all_known_def bus_known_def known_def response_frame_def)
    then show ?thesis using assms(2) opened(5,6) by (auto simp: all_known_def)
  next
    case (locked x)
    then show ?thesis
      using locked_known [OF _ _ locked(4,2)] assms(1,2,4) by (simp add: all_known_def live_ok_def)
  next
    case (client j y)
    then have y: "set (op_brings y) \<subseteq> K" using assms(4) by simp
    have "list_all (chan_known K) (b_chans (lv_bus s))" using assms(2) by (simp add: all_known_def bus_known_def)
    then have "list_all (chan_known K) ((b_chans (lv_bus s))[j := chan_step y (b_chans (lv_bus s) ! j)])"
      if "j < length (b_chans (lv_bus s))"
      using that chan_known_step [OF _ y] by (auto simp: list_all_length nth_list_update)
    then show ?thesis
      using assms(2) client(2,3)
      by (cases "j < length (b_chans (lv_bus s))")
        (auto simp: all_known_def bus_known_def client_chan_def list_update_beyond)
  next
    case (returned k)
    then show ?thesis using assms(2) by (auto simp: all_known_def dest!: set_update_subset_insert [THEN subsetD])
  next
    case (offered k t ts)
    note b' = offered_bus(1) [OF assms(1) offered(2-5)]
    have f: "known K (hc_frame (lv_calls s ! k))" using assms(2) offered(2) by (simp add: all_known_def)
    have "list_all (chan_known K) (b_chans (lv_bus s'))"
      using assms(2) chan_known_offered [OF _ f] live_ok_todo(2) [OF assms(1) offered(2-4)] unfolding b'
      by (auto simp: all_known_def bus_known_def list_all_length nth_list_update)
    then show ?thesis
      using assms(2) f offered(6) b'
      by (auto simp: all_known_def bus_known_def dest!: set_update_subset_insert [THEN subsetD])
  qed (use assms(2) in \<open>simp add: all_known_def\<close>)

lemma taken_by_known:
  assumes "all_known K s" "set (brings e) \<subseteq> K" "i < length (b_chans (lv_bus s))" "f \<in> set (taken_by i e s)"
  shows "known K f"
proof -
  obtain x where x: "e = Call (Client i x)" "f \<in> set (received_items x (b_chans (lv_bus s) ! i))"
    using assms(4) by (cases "(i, e, s)" rule: taken_by.cases) (auto split: if_splits)
  have "chan_known K (b_chans (lv_bus s) ! i)"
    using assms(1,3) by (simp add: all_known_def bus_known_def list_all_length)
  then show ?thesis using chan_known_step [of K _ x] x assms(2) by simp
qed

lemma taken_known:
  "live_run es s = Ret s' \<Longrightarrow> live_ok s \<Longrightarrow> all_known K s \<Longrightarrow> i < length (b_chans (lv_bus s)) \<Longrightarrow>
   \<forall>e\<in>set es. set (brings e) \<subseteq> K \<Longrightarrow> f \<in> set (taken i es s) \<Longrightarrow> known K f"
proof (induction es arbitrary: s)
  case (Cons e es)
  obtain s1 where s1: "live_step e s = Ret s1" "live_run es s1 = Ret s'"
    using Cons.prems(1) by (rule live.run_ConsE)
  have e: "set (brings e) \<subseteq> K" using Cons.prems(5) by simp
  show ?case
  proof (cases "f \<in> set (taken_by i e s)")
    case True
    then show ?thesis using taken_by_known [OF Cons.prems(3) e Cons.prems(4)] by blast
  next
    case False
    then have "f \<in> set (taken i es s1)" using Cons.prems(6) s1(1) by simp
    moreover have "i < length (b_chans (lv_bus s1))"
      using live_step_chans_grow [OF Cons.prems(2) s1(1)] Cons.prems(4) by simp
    ultimately show ?thesis
      using Cons.IH [OF s1(2) live_step_ok [OF Cons.prems(2) s1(1)] live_step_known [OF Cons.prems(2,3) s1(1) e]] Cons.prems(5)
      by simp
  qed
qed simp

lemma run_known:
  assumes "live_run es (alone new_bus) = Ret s" "\<forall>e\<in>set es. set (brings e) \<subseteq> K"
  shows "live_ok s \<and> all_known K s"
proof (rule live_safe.run_good_invariant [where P = "all_known K", OF _ _ assms(1)])
  show "live_ok (alone new_bus)" by (simp add: bus_ok_new)
  show "all_known K (alone new_bus)" by (simp add: all_known_def bus_known_def new_bus_def)
qed (use live_step_known assms(2) in blast)

text \<open>A subscriber, and one message published and sent to it.\<close>

lemma one_message_run:
  assumes "m \<noteq> []"
  shows "\<exists>s s' f. live_run [Call (Subscribe [] [])] (alone new_bus) = Ret s \<and> length (b_chans (lv_bus s)) = 1 \<and>
    live_run [Call (Publish 5 m), Call (SendHeader 5), Turn 0, Call (Client 0 Recv)] s = Ret s' \<and>
    taken 0 [Call (Publish 5 m), Call (SendHeader 5), Turn 0, Call (Client 0 Recv)] s = [f] \<and> f_id f = 5 \<and> f_data f = m"
  using assms
  by (simp add: live_call_def alone_def lock_shared_def subscribe_def publish_def do_publish_def Let_def
      new_bus_def begin_header_def kLINMaxID_def header_turn_def deliver_def matches_any_def apply_options_def
      effective_depth_def kDefaultChanDepth_def count_defs try_send_def client_chan_def chan_defs new_chan_def default_config_def obind_def)

subsection \<open>Properties\<close>

text \<open>Where frames come from. What the holder of a channel receives, from the moment the channel
  exists, was brought in under the frame's identifier by a call of \<open>publish\<close>, or by a client that sent
  on the channel itself.\<close>

theorem received_was_published:
  assumes "live_run es (alone new_bus) = Ret s" "i < length (b_chans (lv_bus s))" "live_run es' s = Ret s'"
    and "f \<in> set (taken i es' s)"
  shows "\<exists>e\<in>set (es @ es'). (f_id f, f_data f) \<in> set (brings e)"
proof -
  define K where "K = (\<Union>e\<in>set (es @ es'). set (brings e))"
  have "live_ok s \<and> all_known K s" by (rule run_known [OF assms(1)]) (auto simp: K_def)
  then have "known K f"
    by (intro taken_known [OF assms(3) _ _ assms(2) _ assms(4)]) (auto simp: K_def)
  then show ?thesis by (auto simp: known_def K_def)
qed

text \<open>C13: end-to-end protection over the bus used by several threads. Let every message published under
  an identifier be one of a stream of fewer than $2^{32}$ protected messages, by any threads, in any
  order, with headers of any number and overlap, and subscribers of any policy that lose frames. A
  receiver in step that is fed what one subscriber receives under that identifier hands out a
  beginning of the payloads sent, in order, each once.\<close>

theorem e2e_over_threads:
  assumes "live_run es (alone new_bus) = Ret s" "i < length (b_chans (lv_bus s))" "live_run es' s = Ret s'"
    and "\<forall>e\<in>set (es @ es'). \<forall>d. (j, d) \<in> set (brings e) \<longrightarrow> d \<in> set (fst (protect_all p payloads))"
    and "r_cfg r = p_cfg p" "\<not> r_first r" "p_seq p = r_last_seq r + 1" "length payloads < 2 ^ 32"
  shows "prefix (handed_out (fst (unwrap_all r (map f_data (filter (\<lambda>f. f_id f = j) (taken i es' s)))))) payloads"
proof -
  have "f_data f \<in> set (fst (protect_all p payloads))" if "f \<in> set (taken i es' s)" "f_id f = j" for f
    using received_was_published [OF assms(1-3) that(1)] assms(4) that(2) by blast
  then have "set (map f_data (filter (\<lambda>f. f_id f = j) (taken i es' s))) \<subseteq> set (fst (protect_all p payloads))"
    by auto
  from handed_out_longest [OF assms(5-8) this] show ?thesis by (metis take_is_prefix)
qed

theorem e2e_over_threads_witness:
  "\<exists>s s' f. live_run [Call (Subscribe [] [])] (alone new_bus) = Ret s \<and>
     live_run [Call (Publish 5 (fst (protect demo_protector [1]))), Call (SendHeader 5), Turn 0, Call (Client 0 Recv)] s = Ret s' \<and>
     taken 0 [Call (Publish 5 (fst (protect demo_protector [1]))), Call (SendHeader 5), Turn 0, Call (Client 0 Recv)] s = [f] \<and>
     prefix (handed_out (fst (unwrap_all demo_receiver [f_data f]))) [[1]]"
proof -
  define m where "m = fst (protect demo_protector [1])"
  let ?es = "[Call (Publish 5 m), Call (SendHeader 5), Turn 0, Call (Client 0 Recv)]"
  have "m \<noteq> []" unfolding m_def by (metis length_protect list.size(3) add_is_0 zero_neq_numeral)
  from one_message_run [OF this] obtain s s' f where s: "live_run [Call (Subscribe [] [])] (alone new_bus) = Ret s"
    "length (b_chans (lv_bus s)) = 1" "live_run ?es s = Ret s'" "taken 0 ?es s = [f]" "f_id f = 5" by blast
  have c: "0 < length (b_chans (lv_bus s))" using s(2) by simp
  have "set (fst (protect_all demo_protector [[1]])) = {m}" by (simp add: m_def split_beta)
  then have published: "\<forall>e\<in>set ([Call (Subscribe [] [])] @ ?es). \<forall>d. (5, d) \<in> set (brings e) \<longrightarrow>
      d \<in> set (fst (protect_all demo_protector [[1]]))"
    by simp
  show ?thesis
    using e2e_over_threads [OF s(1) c s(3) published demo_in_step] s unfolding m_def by auto
qed

end
