(* ===== verification/BusDelivery.thy ===== *)
theory BusDelivery
  imports BusLossless
begin

text \<open>
  What the delivery loops of \<open>src/virtual/bus.cpp\<close> do to the channel of a subscription, however they
  overlap: the operations the channel undergoes in a run, each with the call of \<open>send_header\<close> that
  makes it, and the proof that its contents are what these operations leave and that every header
  makes exactly the one its subscription asks for.
\<close>

subsection \<open>The operations of a run on a channel\<close>

text \<open>Whether a subscription is meant to have a frame, and how its policy puts one in.\<close>

definition wants_frame :: "subscription \<Rightarrow> frame \<Rightarrow> bool" where
  "wants_frame t f \<longleftrightarrow> sb_filters t = [] \<or> (\<exists>fl\<in>set (sb_filters t). fl_all fl \<or> fl_id fl = f_id f)"

fun send_op :: "back_pressure_policy \<Rightarrow> frame \<Rightarrow> frame chan_op" where
  "send_op DropNewest f = TrySend f"
| "send_op DropOldest f = SendDropOldest f"
| "send_op Block f = Send f"

text \<open>
  The operations of one step on the channel \<open>i\<close>. Those of the \<open>k\<close>-th call of \<open>send_header\<close> come with
  \<open>Some k\<close>, those of the channel's holder and of the bus's \<open>close\<close> with \<open>None\<close>.
\<close>

fun ops_by :: "nat \<Rightarrow> bus_event \<Rightarrow> shared_bus \<Rightarrow> (nat option \<times> frame chan_op) list" where
  "ops_by i (Turn k) s =
    (case hc_todo (lv_calls s ! k) of
       [] \<Rightarrow> []
     | t # ts \<Rightarrow>
         if sb_ch t = i \<and> wants_frame t (hc_frame (lv_calls s ! k))
         then [(Some k, send_op (sb_policy t) (hc_frame (lv_calls s ! k)))] else [])"
| "ops_by i (Call (Client j x)) s = (if j = i then [(None, x)] else [])"
| "ops_by i (Call CloseBus) s = (if b_closed (lv_bus s) then [] else [(None, CloseChan)])"
| "ops_by i _ s = []"

primrec ops_on :: "nat \<Rightarrow> bus_event list \<Rightarrow> shared_bus \<Rightarrow> (nat option \<times> frame chan_op) list" where
  "ops_on i [] s = []"
| "ops_on i (e # es) s = (case live_step e s of Ret s' \<Rightarrow> ops_by i e s @ ops_on i es s' | _ \<Rightarrow> [])"

definition ops_of_header :: "nat \<Rightarrow> (nat option \<times> frame chan_op) list \<Rightarrow> frame chan_op list" where
  "ops_of_header k xs = map snd (filter (\<lambda>(by_call, _). by_call = Some k) xs)"

lemma ops_of_header_simps [simp]:
  "ops_of_header k [] = []" "ops_of_header k (xs @ ys) = ops_of_header k xs @ ops_of_header k ys"
  "ops_of_header k ((c, x) # xs) = (if c = Some k then x # ops_of_header k xs else ops_of_header k xs)"
  by (simp_all add: ops_of_header_def)

lemma wants_frame_iff: "matches_any (sb_filters t) f \<longleftrightarrow> wants_frame t f"
  by (auto simp: matches_any_def wants_frame_def filter_matches_def list_ex_iff eq_commute [of "fl_id _"])

lemma ops_by_cases:
  obtains (turn) k where "e = Turn k" | (client) j x where "e = Call (Client j x)" | (close_bus) "e = Call CloseBus"
  | (other) x where "e = Call x" "\<And>j y. x \<noteq> Client j y" "x \<noteq> CloseBus" "ops_by i e s = []"
proof (cases e)
  case (Call x)
  then show thesis using client close_bus other by (cases x) auto
qed (rule turn)

subsection \<open>The channel follows its operations\<close>

lemma send_op_step:
  assumes "chan_ok c" "\<not> must_wait f t c"
  shows "chan_after f t c = (if wants_frame t f then chan_step (send_op (sb_policy t) f) c else c)"
proof (cases "wants_frame t f")
  case True
  then show ?thesis
    using assms
    by (cases "sb_policy t"; cases "ch_buf c")
       (auto simp: chan_after_def wants_frame_iff offered_def must_wait_def chan_ok_def chan_defs)
qed (simp add: chan_after_def wants_frame_iff)

lemma locked_chan:
  "bus_step x b = Ret b' \<Longrightarrow> takes_lock x \<Longrightarrow> x \<noteq> CloseBus \<Longrightarrow> i < length (b_chans b) \<Longrightarrow> b_chans b' ! i = b_chans b ! i"
  by (cases x) (auto simp: table_call_chans subscribe_def Let_def nth_append)

lemma close_step_chan:
  assumes "live_ok s" "live_step (Call CloseBus) s = Ret s'" "i < length (b_chans (lv_bus s))"
  shows "b_chans (lv_bus s') ! i = fold chan_step (map snd (ops_by i (Call CloseBus) s)) (b_chans (lv_bus s) ! i)"
proof -
  have bus: "bus_ok (lv_bus s)" using assms(1) by (simp add: live_ok_def)
  have "lv_bus s' = snd (bus_close (lv_bus s))"
    using assms(2) by (auto simp: live_call_def obind_eqs split: if_splits)
  then show ?thesis
    using bus_close_chans [OF bus] assms(3) by (cases "b_closed (lv_bus s)") (simp_all add: bus_close_def)
qed

lemma chan_follows_step:
  assumes ok: "live_ok s" and step: "live_step e s = Ret s'" and i: "i < length (b_chans (lv_bus s))"
  shows "b_chans (lv_bus s') ! i = fold chan_step (map snd (ops_by i e s)) (b_chans (lv_bus s) ! i)"
proof (cases rule: ops_by_cases [where e = e and i = i and s = s])
  case close_bus
  then show ?thesis using close_step_chan [OF ok _ i] step by simp
next
  case (client j x)
  then have "lv_bus s' = client_chan j x (lv_bus s)"
    using step by (auto simp: live_call_def obind_eqs)
  then show ?thesis using client i by (cases "j = i") (simp_all add: client_chan_def)
next
  case (other x)
  from step show ?thesis
  proof (cases rule: live_step_cases)
    case (locked y)
    then show ?thesis using locked_chan [OF locked(4,2) _ i] other by simp
  qed (use other in simp_all)
next
  case (turn k)
  from step show ?thesis
  proof (cases rule: live_step_cases)
    case error
    then show ?thesis using turn by blast
  next
    case (offered j t ts)
    note b' = offered_bus [OF ok offered(2-5)] and t = live_ok_todo [OF ok offered(2-4)]
    then show ?thesis
      using offered(1,4) i send_op_step [OF t(3) b'(2)] by (cases "sb_ch t = i") auto
  qed (use turn in simp_all)
qed

lemma chan_follows_run:
  "live_run es s = Ret s' \<Longrightarrow> live_ok s \<Longrightarrow> i < length (b_chans (lv_bus s)) \<Longrightarrow>
    b_chans (lv_bus s') ! i = fold chan_step (map snd (ops_on i es s)) (b_chans (lv_bus s) ! i)"
proof (induction es arbitrary: s)
  case (Cons e es)
  then obtain s1 where s1: "live_step e s = Ret s1" "live_run es s1 = Ret s'" by (auto simp: obind_eqs)
  have "i < length (b_chans (lv_bus s1))"
    using live_step_chans_grow [OF Cons.prems(2) s1(1)] Cons.prems(3) by simp
  from Cons.IH [OF s1(2) live_step_ok [OF Cons.prems(2) s1(1)] this] show ?case
    using chan_follows_step [OF Cons.prems(2) s1(1) Cons.prems(3)] s1(1) by simp
qed simp

subsection \<open>One operation for each header\<close>

text \<open>
  What the \<open>k\<close>-th call owes a subscription, as long as it has not come to it.
\<close>

definition owed :: "subscription \<Rightarrow> nat \<Rightarrow> shared_bus \<Rightarrow> frame chan_op list" where
  "owed t k s =
    (if k < length (lv_calls s) \<and> wants_frame t (hc_frame (lv_calls s ! k))
     then [send_op (sb_policy t) (hc_frame (lv_calls s ! k))] else [])"

definition still_owed :: "subscription \<Rightarrow> nat \<Rightarrow> shared_bus \<Rightarrow> frame chan_op list" where
  "still_owed t k s = (if k < length (lv_calls s) \<and> t \<in> set (hc_todo (lv_calls s ! k)) then owed t k s else [])"

definition keeps_sub :: "subscription \<Rightarrow> shared_bus \<Rightarrow> bool" where
  "keeps_sub t s \<longleftrightarrow> sb_ch t < length (b_chans (lv_bus s)) \<and> (b_closed (lv_bus s) \<or> t \<in> set (b_subs (lv_bus s)))"

lemma keeps_sub_step:
  assumes "live_ok s" "keeps_sub t s" "live_step e s = Ret s'"
  shows "keeps_sub t s'"
proof (cases "b_closed (lv_bus s')")
  case False
  then have "\<not> b_closed (lv_bus s)" "prefix (b_subs (lv_bus s)) (b_subs (lv_bus s'))"
    using live_step_closed [OF assms(1,3)] live_step_subs [OF assms(3)] by blast+
  then show ?thesis
    using assms(2) live_step_chans_grow [OF assms(1,3)] set_mono_prefix unfolding keeps_sub_def by fastforce
qed (use assms(2) live_step_chans_grow [OF assms(1,3)] in \<open>simp add: keeps_sub_def\<close>)

lemma same_subscription:
  assumes "live_ok s" "t \<in> set (b_subs (lv_bus s))" "u \<in> set (b_subs (lv_bus s))" "sb_ch t = sb_ch u"
  shows "t = u"
proof -
  have "distinct (map sb_ch (b_subs (lv_bus s)))"
    using assms(1) bus_ok_subs by (auto simp: live_ok_def subs_ok_def)
  then show ?thesis using assms(2-4) by (auto simp: distinct_map dest: inj_onD)
qed

lemma header_step_ops:
  assumes ok: "live_ok s" and keeps: "keeps_sub t s" and step: "live_step e s = Ret s'"
  shows "ops_of_header k (ops_by (sb_ch t) e s) @ still_owed t k s' =
    (if k < length (lv_calls s) then still_owed t k s else owed t k s')"
  using step
proof (cases rule: live_step_cases)
  case error
  then have "ops_of_header k (ops_by (sb_ch t) e s) = []"
    by (cases rule: ops_by_cases [where e = e and i = "sb_ch t" and s = s]) auto
  then show ?thesis using error by (simp add: still_owed_def owed_def)
next
  case (opened j r)
  have "t \<in> set (b_subs (lv_bus s))" using keeps opened(2) by (simp add: keeps_sub_def)
  then show ?thesis
    using opened by (auto simp: still_owed_def owed_def nth_append less_Suc_eq)
next
  case (locked x)
  then have "ops_of_header k (ops_by (sb_ch t) e s) = []" by (cases x) auto
  then show ?thesis using locked by (simp add: still_owed_def owed_def)
next
  case (client j y)
  then show ?thesis by (simp add: still_owed_def owed_def)
next
  case (returned j)
  then show ?thesis by (cases "j = k") (auto simp: still_owed_def owed_def)
next
  case (offered j u us)
  note u = live_ok_todo [OF ok offered(2-4)]
  have t: "t \<in> set (b_subs (lv_bus s))"
    using keeps live_ok_subs(2) [OF ok offered(2,3)] by (simp add: keeps_sub_def)
  have eq: "sb_ch u = sb_ch t \<longleftrightarrow> u = t" using same_subscription [OF ok u(1) t] by blast
  have "t \<notin> set us" if "u = t" using u(4) that by auto
  then show ?thesis
    using offered eq by (cases "j = k") (auto simp: still_owed_def owed_def)
qed

lemma owed_stays:
  "live_run es s = Ret s' \<Longrightarrow> k < length (lv_calls s) \<Longrightarrow> owed t k s' = owed t k s"
proof (induction es arbitrary: s)
  case (Cons e es)
  then obtain s1 where s1: "live_step e s = Ret s1" "live_run es s1 = Ret s'" by (auto simp: obind_eqs)
  note step = live_step_place [OF s1(1) Cons.prems(2)]
  show ?case using Cons.IH [OF s1(2) step(1)] step Cons.prems(2) by (simp add: owed_def)
qed simp

lemma header_run_ops:
  "live_run es s = Ret s' \<Longrightarrow> live_ok s \<Longrightarrow> keeps_sub t s \<Longrightarrow>
    ops_of_header k (ops_on (sb_ch t) es s) @ still_owed t k s' =
      (if k < length (lv_calls s) then still_owed t k s else owed t k s')"
proof (induction es arbitrary: s)
  case Nil
  then show ?case by (simp add: still_owed_def owed_def)
next
  case (Cons e es)
  then obtain s1 where s1: "live_step e s = Ret s1" "live_run es s1 = Ret s'" by (auto simp: obind_eqs)
  have later: "ops_of_header k (ops_on (sb_ch t) es s1) @ still_owed t k s' =
      (if k < length (lv_calls s1) then still_owed t k s1 else owed t k s')"
    using Cons.IH [OF s1(2) live_step_ok [OF Cons.prems(2) s1(1)] keeps_sub_step [OF Cons.prems(2,3) s1(1)]] .
  note now = header_step_ops [OF Cons.prems(2,3) s1(1), of k]
  have grow: "k < length (lv_calls s1)" if "k < length (lv_calls s)"
    using live_step_place(1) [OF s1(1) that] .
  show ?case
  proof (cases "k < length (lv_calls s1)")
    case True
    then show ?thesis using now later owed_stays [OF s1(2) True] s1(1) by simp
  next
    case False
    then have "ops_of_header k (ops_by (sb_ch t) e s) = []"
      using now grow by (auto simp: owed_def split: if_splits)
    then show ?thesis using False grow later s1(1) by auto
  qed
qed

subsection \<open>The property\<close>

text \<open>C7: however the loops of several headers overlap with each other and with everything else, the
  channel of a subscription that existed at the start is at every moment exactly what its operations
  so far leave of it, one after the other: those of its holder, the \<open>close\<close> of the bus, and those of
  the headers. A header that still has to come to the subscription has made none; one that is past
  it, as every header is that has returned, has made exactly the one operation the subscription's
  policy asks for (\<open>try_send\<close> or \<open>send_drop_oldest\<close> or \<open>send\<close>) with its frame if the filters let the
  frame through, and none if they do not.\<close>

theorem every_header_offered_once:
  assumes "bus_ok b" "t \<in> set (b_subs b)" "live_run es (alone b) = Ret s"
  shows "b_chans (lv_bus s) ! sb_ch t = fold chan_step (map snd (ops_on (sb_ch t) es (alone b))) (b_chans b ! sb_ch t) \<and>
    (\<forall>k < length (lv_calls s).
       let f = hc_frame (lv_calls s ! k); ops = ops_of_header k (ops_on (sb_ch t) es (alone b))
       in if t \<in> set (hc_todo (lv_calls s ! k)) then ops = [] \<and> \<not> hc_returned (lv_calls s ! k)
          else ops =
            (if wants_frame t f
             then [case sb_policy t of DropNewest \<Rightarrow> TrySend f | DropOldest \<Rightarrow> SendDropOldest f | Block \<Rightarrow> Send f]
             else []))"
proof -
  have ok: "live_ok (alone b)" using assms(1) by simp
  have i: "sb_ch t < length (b_chans b)" using bus_ok_subs [OF assms(1)] assms(2) by (simp add: subs_ok_def)
  have keeps: "keeps_sub t (alone b)" using i assms(2) by (simp add: keeps_sub_def)
  have policy: "send_op p f = (case p of DropNewest \<Rightarrow> TrySend f | DropOldest \<Rightarrow> SendDropOldest f | Block \<Rightarrow> Send f)" for p f
    by (cases p) simp_all
  have made: "ops_of_header k (ops_on (sb_ch t) es (alone b)) = (if t \<in> set (hc_todo (lv_calls s ! k)) then [] else owed t k s)"
    if "k < length (lv_calls s)" for k
    using header_run_ops [OF assms(3) ok keeps, of k] that by (auto simp: still_owed_def split: if_splits)
  have returned: "\<not> hc_returned (lv_calls s ! k)" if "k < length (lv_calls s)" "t \<in> set (hc_todo (lv_calls s ! k))" for k
    using live_ok_calls [OF live_run_ok [OF ok assms(3)] nth_mem [OF that(1)]] that(2) by auto
  show ?thesis
    using chan_follows_run [OF assms(3) ok] i made returned by (auto simp: owed_def Let_def policy)
qed

text \<open>Two subscriptions, one for the identifier 1 only, and two headers that cross.\<close>

definition choosy_listener :: "bus_op list" where
  "choosy_listener = [Subscribe [\<lparr>fl_id = 1, fl_all = False\<rparr>] [], Subscribe [] [], Publish 1 [0x11], Publish 2 [0x22]]"

definition crossing_headers :: "bus_event list" where
  "crossing_headers = [Call (SendHeader 1), Call (SendHeader 2), Turn 1, Turn 0, Turn 0, Turn 1, Turn 0, Turn 1]"

theorem every_header_offered_once_witness:
  "\<exists>b s. bus_run choosy_listener new_bus = Ret b \<and> live_run crossing_headers (alone b) = Ret s \<and>
     ids_on 0 (lv_bus s) = [1] \<and>
     ops_of_header 0 (ops_on 0 crossing_headers (alone b)) = [TrySend (hc_frame (lv_calls s ! 0))] \<and>
     ops_of_header 1 (ops_on 0 crossing_headers (alone b)) = []"
proof -
  have "when_ret (bus_run choosy_listener new_bus) (\<lambda>b. b_subs b \<noteq> [] \<and> sb_ch (hd (b_subs b)) = 0 \<and>
      sb_policy (hd (b_subs b)) = DropNewest \<and>
      when_ret (live_run crossing_headers (alone b)) (\<lambda>s. \<not> lock_shared s \<and> length (lv_calls s) = 2 \<and>
        ids_on 0 (lv_bus s) = [1] \<and> matches_any (sb_filters (hd (b_subs b))) (hc_frame (lv_calls s ! 0)) \<and>
        \<not> matches_any (sb_filters (hd (b_subs b))) (hc_frame (lv_calls s ! 1))))"
    by code_simp
  then obtain b s where b: "bus_run choosy_listener new_bus = Ret b" "b_subs b \<noteq> []" "sb_ch (hd (b_subs b)) = 0"
      "sb_policy (hd (b_subs b)) = DropNewest"
    and s: "live_run crossing_headers (alone b) = Ret s" "\<not> lock_shared s" "length (lv_calls s) = 2"
      "ids_on 0 (lv_bus s) = [1]" "wants_frame (hd (b_subs b)) (hc_frame (lv_calls s ! 0))"
      "\<not> wants_frame (hd (b_subs b)) (hc_frame (lv_calls s ! 1))"
    unfolding when_ret_iff wants_frame_iff by (elim exE conjE) (rule that)
  have "hd (b_subs b) \<in> set (b_subs b)" using b(2) by simp
  note once = every_header_offered_once [OF bus_run_ok [OF bus_ok_new b(1)] this s(1), THEN conjunct2, rule_format]
  have "live_ok s" using live_run_ok [OF _ s(1)] bus_run_ok [OF bus_ok_new b(1)] by simp
  then have "hc_todo (lv_calls s ! k) = []" if "k < 2" for k
    using nothing_left_to_serve s(2,3) that by simp
  then have "ops_of_header k (ops_on 0 crossing_headers (alone b)) =
      (if wants_frame (hd (b_subs b)) (hc_frame (lv_calls s ! k)) then [TrySend (hc_frame (lv_calls s ! k))] else [])"
    if "k < 2" for k
    using once [of k] that s(3) b(3,4) by (simp add: Let_def)
  from this [of 0] this [of 1] show ?thesis using b(1) s(1,4-6) by auto
qed

end
