(* ===== verification/CppDouble.thy ===== *)
theory CppDouble
  imports CppString
begin

text \<open>
  \<open>double\<close> as far as the code uses it: \<open>std::stod\<close>, and the conversion to an unsigned 64-bit
  integer. A \<open>double\<close> is a sign, a natural mantissa and a power of two, as IEEE 754 binary64 has
  them; reading rounds the exact value of the text to the nearest one, ties to even.
\<close>

subsection \<open>Values\<close>

datatype cdouble = Finite bool nat int | Infinite bool | NotANumber

definition double_zero :: cdouble where "double_zero = Finite False 0 0"

text \<open>The number of binary digits.\<close>

fun bit_length :: "nat \<Rightarrow> nat" where
  "bit_length n = (if n = 0 then 0 else Suc (bit_length (n div 2)))"

declare bit_length.simps [simp del]

text \<open>\<open>num / den\<close> in units of \<open>2 ^ e\<close>: quotient, remainder and divisor.\<close>

definition scaled :: "nat \<Rightarrow> nat \<Rightarrow> int \<Rightarrow> nat \<times> nat \<times> nat" where
  "scaled num den e =
    (let n = (if e < 0 then num * 2 ^ nat (- e) else num);
         d = (if e < 0 then den else den * 2 ^ nat e)
     in (n div d, n mod d, d))"

definition round_even :: "nat \<times> nat \<times> nat \<Rightarrow> nat" where
  "round_even qrd = (let (q, r, d) = qrd in if 2 * r > d \<or> (2 * r = d \<and> odd q) then q + 1 else q)"

text \<open>
  The nearest \<open>double\<close> to a positive rational, with the least exponent -1074. Nothing is the answer
  for a value that is too large, or too small to be kept with full precision: \<open>strtod\<close> sets
  \<open>ERANGE\<close> then, and \<open>std::stod\<close> throws.
\<close>

definition nearest :: "nat \<Rightarrow> nat \<Rightarrow> (nat \<times> int) option" where
  "nearest num den =
    (let e0 = int (bit_length num) - int (bit_length den) - 53;
         e1 = (if fst (scaled num den e0) \<ge> 2 ^ 53 then e0 + 1 else e0);
         e = max e1 (- 1074);
         m = round_even (scaled num den e);
         inexact = fst (snd (scaled num den e)) \<noteq> 0
     in if e > 971 \<or> (e = 971 \<and> m \<ge> 2 ^ 53) then None
        else if m < 2 ^ 52 \<and> inexact then None
        else Some (m, e))"

definition to_double :: "bool \<Rightarrow> nat \<Rightarrow> nat \<Rightarrow> std_exn + cdouble" where
  "to_double neg num den =
    (if num = 0 then Inr (Finite neg 0 0)
     else case nearest num den of None \<Rightarrow> Inl OutOfRange | Some (m, e) \<Rightarrow> Inr (Finite neg m e))"

subsection \<open>Reading\<close>

definition digits_of :: "nat \<Rightarrow> string \<Rightarrow> string" where
  "digits_of base s = takeWhile (\<lambda>c. digit_val base c \<noteq> None) s"

text \<open>Digits with an optional fraction: all digits, the number of those after the point, the rest.\<close>

definition mantissa :: "nat \<Rightarrow> string \<Rightarrow> (string \<times> nat \<times> string) option" where
  "mantissa base s =
    (let a = digits_of base s;
         r = drop (length a) s;
         point = (r \<noteq> [] \<and> hd r = CHR ''.'');
         f = (if point then digits_of base (tl r) else []);
         r' = (if point then drop (length f) (tl r) else r)
     in if a = [] \<and> f = [] then None else Some (a @ f, length f, r'))"

text \<open>An exponent with the given mark, or 0 when there is none.\<close>

definition exponent :: "char \<Rightarrow> string \<Rightarrow> int" where
  "exponent mark s =
    (if s = [] \<or> to_lower (hd s) \<noteq> mark then 0
     else
       let t = tl s;
           neg = (t \<noteq> [] \<and> hd t = CHR ''-'');
           t' = (if t \<noteq> [] \<and> (hd t = CHR ''-'' \<or> hd t = CHR ''+'') then tl t else t);
           k = int (digits_value 10 (digits_of 10 t'))
       in if neg then - k else k)"

definition scale :: "bool \<Rightarrow> nat \<Rightarrow> nat \<Rightarrow> int \<Rightarrow> std_exn + cdouble" where
  "scale neg base m k =
    (if k < 0 then to_double neg m (base ^ nat (- k)) else to_double neg (m * base ^ nat k) 1)"

text \<open>
  \<open>std::stod\<close>: white space, a sign, then infinity, a NaN, a hexadecimal number or a decimal one,
  and anything after it.
\<close>

definition stod :: "string \<Rightarrow> std_exn + cdouble" where
  "stod s =
    (let s1 = dropWhile is_space s;
         neg = (s1 \<noteq> [] \<and> hd s1 = CHR ''-'');
         s2 = (if s1 \<noteq> [] \<and> (hd s1 = CHR ''-'' \<or> hd s1 = CHR ''+'') then tl s1 else s1);
         low = map to_lower s2;
         hex = (if take 2 low = ''0x'' then mantissa 16 (drop 2 s2) else None)
     in if take 3 low = ''inf'' then Inr (Infinite neg)
        else if take 3 low = ''nan'' then Inr NotANumber
        else case hex of
          Some (ds, k, r) \<Rightarrow> scale neg 2 (digits_value 16 ds) (exponent (CHR ''p'') r - 4 * int k)
        | None \<Rightarrow>
            (case mantissa 10 s2 of
               None \<Rightarrow> Inl InvalidArgument
             | Some (ds, k, r) \<Rightarrow> scale neg 10 (digits_value 10 ds) (exponent (CHR ''e'') r - int k)))"

subsection \<open>Conversion\<close>

text \<open>
  \<open>static_cast<uint64_t>\<close> of a \<open>double\<close> drops the fraction; it is undefined when what is left does
  not fit.
\<close>

definition double_to_u64 :: "cdouble \<Rightarrow> u64 outcome" where
  "double_to_u64 d =
    (case d of
       Finite neg m e \<Rightarrow>
         (let t = (if e < 0 then m div 2 ^ nat (- e) else m * 2 ^ nat e)
          in if neg \<and> t \<noteq> 0 \<or> 2 ^ 64 \<le> t then UB else Ret (of_nat t))
     | _ \<Rightarrow> UB)"

subsection \<open>Small integers are exact\<close>

lemma bit_length_bounds: "0 < n \<Longrightarrow> 2 ^ (bit_length n - 1) \<le> n \<and> n < 2 ^ bit_length n \<and> 0 < bit_length n"
proof (induction n rule: bit_length.induct)
  case (1 n)
  show ?case
  proof (cases "n div 2 = 0")
    case True
    then have "n = 1" using 1(2) by simp
    then show ?thesis by (simp add: bit_length.simps)
  next
    case False
    define k where "k = bit_length (n div 2)"
    have k: "2 ^ (k - 1) \<le> n div 2" "n div 2 < 2 ^ k" "0 < k"
      using 1(1) [of ] 1(2) False by (auto simp: k_def)
    have b: "bit_length n = Suc k" using 1(2) by (subst bit_length.simps) (simp add: k_def)
    have "(2 :: nat) ^ k = 2 * 2 ^ (k - 1)" using k(3) by (cases k) simp_all
    then have "2 ^ k \<le> n" "n < 2 * 2 ^ k" using k(1,2) by linarith+
    then show ?thesis by (simp add: b)
  qed
qed

lemma nearest_exact:
  assumes "0 < n" "n < 2 ^ 53"
  shows "nearest n 1 = Some (n * 2 ^ (53 - bit_length n), int (bit_length n) - 53)"
proof -
  define a where "a = bit_length n"
  have a: "2 ^ (a - 1) \<le> n" "n < 2 ^ a" "0 < a" using bit_length_bounds [OF assms(1)] by (simp_all add: a_def)
  have "(2 :: nat) ^ (a - 1) < 2 ^ 53" using a(1) assms(2) by (rule le_less_trans)
  then have "a - 1 < 53" by (rule power_less_imp_less_exp [rotated]) simp
  then have a53: "a \<le> 53" using a(3) by simp
  have b1: "bit_length 1 = 1" by (simp add: bit_length.simps)
  have e0: "fst (scaled n 1 (int a - 1 - 53)) = n * 2 ^ (54 - a)"
    using a53 by (simp add: scaled_def nat_diff_distrib' algebra_simps Let_def)
  have "(2 :: nat) ^ 53 = 2 ^ (a - 1) * 2 ^ (54 - a)" using a(3) a53 by (simp flip: power_add)
  also have "\<dots> \<le> n * 2 ^ (54 - a)" using a(1) by (rule mult_le_mono1)
  finally have ge: "fst (scaled n 1 (int a - 1 - 53)) \<ge> 2 ^ 53" by (simp only: e0)
  have e1: "scaled n 1 (int a - 53) = (n * 2 ^ (53 - a), 0, 1)"
    using a53 by (cases "a = 53") (simp_all add: scaled_def Let_def nat_diff_distrib')
  have "(2 :: nat) ^ 52 = 2 ^ (a - 1) * 2 ^ (53 - a)" using a(3) a53 by (simp flip: power_add)
  also have "\<dots> \<le> n * 2 ^ (53 - a)" using a(1) by (rule mult_le_mono1)
  finally have m: "\<not> n * 2 ^ (53 - a) < 2 ^ 52" by simp
  have "int a - 53 = max (int a - 1 - 53 + 1) (- 1074)" using a(3) by simp
  then show ?thesis
    using ge m a53 unfolding nearest_def a_def [symmetric] b1
    by (simp add: Let_def e1 [unfolded One_nat_def] round_even_def)
qed

lemma scale_exact:
  assumes "n < 2 ^ 53"
  obtains m e where "scale False 10 n 0 = Inr (Finite False m e)" "double_to_u64 (Finite False m e) = Ret (of_nat n)"
proof (cases "n = 0")
  case True
  then show thesis
    using that [of 0 0] by (simp add: scale_def to_double_def double_to_u64_def)
next
  case False
  define a where "a = bit_length n"
  have a: "2 ^ (a - 1) \<le> n" "0 < a" using bit_length_bounds [of n] False by (simp_all add: a_def)
  have "(2 :: nat) ^ (a - 1) < 2 ^ 53" using a(1) assms by (rule le_less_trans)
  then have "a - 1 < 53" by (rule power_less_imp_less_exp [rotated]) simp
  then have a53: "a \<le> 53" using a(2) by simp
  have n64: "\<not> 2 ^ 64 \<le> n" using assms by simp
  have "scale False 10 n 0 = Inr (Finite False (n * 2 ^ (53 - a)) (int a - 53))"
    using nearest_exact [of n] False assms by (simp add: scale_def to_double_def a_def)
  moreover have "double_to_u64 (Finite False (n * 2 ^ (53 - a)) (int a - 53)) = Ret (of_nat n)"
    using a53 n64 by (cases "a = 53") (simp_all add: double_to_u64_def nat_diff_distrib' Let_def)
  ultimately show thesis by (rule that)
qed

end
