(* ===== verification/Ldf.thy ===== *)
theory Ldf
  imports Lin CppDouble "HOL-Library.Signed_Division"
begin

text \<open>
  The LDF database of \<open>include/lin/ldf/parser.hpp\<close> and the first part of \<open>src/ldf/parser.cpp\<close>: the
  accessors, and the extraction of signal values from a frame's payload.
\<close>

subsection \<open>Data\<close>

record signal_ref =
  sr_name :: string
  sr_offset :: int

record ldf_frame =
  lf_name :: string
  lf_id :: u8
  lf_publisher :: string
  lf_length :: int
  lf_signals :: "signal_ref list"

definition empty_ldf_frame :: ldf_frame where
  "empty_ldf_frame = \<lparr>lf_name = '''', lf_id = 0, lf_publisher = '''', lf_length = 0, lf_signals = []\<rparr>"

record signal =
  sg_name :: string
  sg_width :: int
  sg_init :: u64
  sg_publisher :: string
  sg_subscribers :: "string list"
  sg_scale :: cdouble
  sg_offset :: cdouble
  sg_unit :: string
  sg_min :: cdouble
  sg_max :: cdouble

definition empty_signal :: signal where
  "empty_signal = \<lparr>sg_name = '''', sg_width = 0, sg_init = 0, sg_publisher = '''', sg_subscribers = [],
     sg_scale = Finite False 1 0, sg_offset = double_zero, sg_unit = '''', sg_min = double_zero,
     sg_max = double_zero\<rparr>"

record ldf_db =
  protocol_version :: string
  language_version :: string
  db_speed :: cdouble
  master_node :: string
  slave_nodes :: "string list"
  db_frames :: "u8 \<rightharpoonup> ldf_frame"
  db_signals :: "string \<rightharpoonup> signal"
  db_schedules :: "string \<rightharpoonup> schedule_entry list"

definition empty_db :: ldf_db where
  "empty_db = \<lparr>protocol_version = '''', language_version = '''', db_speed = double_zero,
     master_node = '''', slave_nodes = [], db_frames = Map.empty, db_signals = Map.empty,
     db_schedules = Map.empty\<rparr>"

subsection \<open>Accessors\<close>

definition db_frame :: "ldf_db \<Rightarrow> u8 \<Rightarrow> ldf_frame option" where
  "db_frame db i = db_frames db i"

definition db_signal :: "ldf_db \<Rightarrow> string \<Rightarrow> signal option" where
  "db_signal db n = db_signals db n"

text \<open>The two accessors that return a copy of a whole table.\<close>

definition db_all_frames :: "ldf_db \<Rightarrow> u8 \<rightharpoonup> ldf_frame" where
  "db_all_frames db = db_frames db"

definition db_all_signals :: "ldf_db \<Rightarrow> string \<rightharpoonup> signal" where
  "db_all_signals db = db_signals db"

definition db_schedule :: "ldf_db \<Rightarrow> string \<Rightarrow> schedule_entry list" where
  "db_schedule db n = (case db_schedules db n of None \<Rightarrow> [] | Some es \<Rightarrow> es)"

subsection \<open>Decoding\<close>

text \<open>
  The inner loop of \<open>decode\<close> from bit \<open>i\<close> on, with \<open>n\<close> bits to go. Positions are \<open>int\<close>, with the
  division and remainder of C, which truncate towards zero. Undefined are: an overflowing position,
  an index before the payload, a shift by a negative amount, and a shift by 64 or more.
\<close>

fun decode_bits :: "bytes \<Rightarrow> int \<Rightarrow> nat \<Rightarrow> nat \<Rightarrow> u64 \<Rightarrow> u64 outcome" where
  "decode_bits data offset i 0 val = Ret val"
| "decode_bits data offset i (Suc n) val =
    (let k = offset + int i
     in if k < - (2 ^ 31) \<or> 2 ^ 31 \<le> k then UB
        else
          let byte_idx = k sdiv 8; bit_idx = k smod 8
          in if byte_idx \<ge> int32_of_int (int (length data)) then Ret val
             else if byte_idx < 0 \<or> bit_idx < 0 then UB
             else if (data ! nat byte_idx) AND push_bit (nat bit_idx) 1 \<noteq> 0 then
               (if 64 \<le> i then UB else decode_bits data offset (Suc i) n (val OR push_bit i 1))
             else decode_bits data offset (Suc i) n val)"

fun decode_refs :: "ldf_db \<Rightarrow> bytes \<Rightarrow> signal_ref list \<Rightarrow> (string \<rightharpoonup> u64) \<Rightarrow> (string \<rightharpoonup> u64) outcome" where
  "decode_refs db data [] result = Ret result"
| "decode_refs db data (r # refs) result =
    (case db_signals db (sr_name r) of
       None \<Rightarrow> decode_refs db data refs result
     | Some sg \<Rightarrow>
         obind (decode_bits data (sr_offset r) 0 (nat (sg_width sg)) 0) (\<lambda>val.
           decode_refs db data refs (result(sr_name r \<mapsto> val))))"

definition decode :: "ldf_db \<Rightarrow> u8 \<Rightarrow> bytes \<Rightarrow> (string \<rightharpoonup> u64) outcome" where
  "decode db i data =
    (case db_frames db i of
       None \<Rightarrow> Ret Map.empty
     | Some fr \<Rightarrow> decode_refs db data (lf_signals fr) Map.empty)"

subsection \<open>A payload as a number\<close>

text \<open>The reference for the Intel bit order: the payload as a little-endian number.\<close>

fun le_value :: "bytes \<Rightarrow> nat" where
  "le_value [] = 0"
| "le_value (b # bs) = unat b + 256 * le_value bs"

lemma bit_le_value: "bit (le_value data) n \<longleftrightarrow> n < 8 * length data \<and> bit (data ! (n div 8)) (n mod 8)"
proof (induction data arbitrary: n)
  case (Cons b bs)
  have "unat b AND push_bit 8 (le_value bs) = 0"
    by (rule bit_eqI) (auto simp: bit_and_iff bit_push_bit_iff bit_unsigned_iff dest: bit_imp_le_length)
  then have "unat b + push_bit 8 (le_value bs) = unat b OR push_bit 8 (le_value bs)"
    by (rule disjunctive_add_eq_or)
  then have "le_value (b # bs) = unat b OR push_bit 8 (le_value bs)"
    by (simp add: push_bit_eq_mult mult.commute)
  then have "bit (le_value (b # bs)) n \<longleftrightarrow> (n < 8 \<and> bit b n) \<or> (8 \<le> n \<and> bit (le_value bs) (n - 8))"
    by (auto simp: bit_simps dest: bit_imp_le_length)
  also have "\<dots> \<longleftrightarrow> n < 8 * length (b # bs) \<and> bit ((b # bs) ! (n div 8)) (n mod 8)"
  proof (cases "n < 8")
    case False
    then have "n div 8 = Suc ((n - 8) div 8)" "(n - 8) mod 8 = n mod 8"
      by (simp_all add: div_if [of n 8] mod_if [of n 8])
    then show ?thesis using False Cons.IH [of "n - 8"] by auto
  qed (auto simp: Cons.IH)
  finally show ?case .
qed simp

lemma and_push_bit_1: "(w AND push_bit n 1 \<noteq> (0 :: u8)) \<longleftrightarrow> bit w n"
proof -
  have "bit (w AND push_bit n 1) m \<longleftrightarrow> m = n \<and> bit w n" for m
    unfolding bit_and_iff bit_push_bit_iff by (auto simp: bit_1_iff dest: bit_imp_le_length)
  then show ?thesis by (metis bit_0_eq bot_apply bot_bool_def bit_eq_iff)
qed

lemma and_exp: "w AND 2 ^ n = (0 :: u8) \<longleftrightarrow> \<not> bit w n"
  using and_push_bit_1 [of w n] by (simp, blast)

lemma int32_small: "0 \<le> i \<Longrightarrow> i < 2 ^ 31 \<Longrightarrow> int32_of_int i = i"
  by (simp add: int32_of_int_def sint_sbintrunc' signed_take_bit_int_eq_self)

lemma decode_bits_bits:
  assumes "0 \<le> offset" "offset + int (i + n) \<le> 2 ^ 31" "i + n \<le> 64" "length data < 2 ^ 31"
  shows "\<exists>v. decode_bits data offset i n val = Ret v \<and>
    (\<forall>j. bit v j \<longleftrightarrow> bit val j \<or> (i \<le> j \<and> j < i + n \<and> bit (le_value data) (nat offset + j)))"
  using assms(2,3)
proof (induction n arbitrary: i val)
  case (Suc n)
  define k where "k = nat offset + i"
  have k: "offset + int i = int k" using assms(1) by (simp add: k_def)
  have small: "\<not> int k < - (2 ^ 31)" "\<not> 2 ^ 31 \<le> int k" using Suc.prems(1) k by simp_all
  have quo: "int k sdiv 8 = int (k div 8)" "int k smod 8 = int (k mod 8)"
    by (cases "k = 0"; simp add: signed_divide_int_eq_divide_int signed_modulo_int_eq_modulo_int zdiv_int zmod_int)+
  have len: "int32_of_int (int (length data)) = int (length data)"
    using assms(4) by (intro int32_small) simp_all
  have out: "decode_bits data offset i (Suc n) val =
      (if length data \<le> k div 8 then Ret val
       else if bit (data ! (k div 8)) (k mod 8)
         then decode_bits data offset (Suc i) n (val OR push_bit i 1)
         else decode_bits data offset (Suc i) n val)"
    using small Suc.prems(2) by (simp add: Let_def k quo len and_exp)
  show ?case
  proof (cases "length data \<le> k div 8")
    case True
    then have "\<not> bit (le_value data) (nat offset + j)" if "i \<le> j" for j
      using that by (auto simp: bit_le_value k_def)
    then show ?thesis using out True by auto
  next
    case False
    define b where "b = bit (data ! (k div 8)) (k mod 8)"
    have here: "bit (le_value data) k \<longleftrightarrow> b" using False by (auto simp: bit_le_value b_def)
    define val' where "val' = (if b then val OR push_bit i 1 else val)"
    obtain v where v: "decode_bits data offset (Suc i) n val' = Ret v"
      "\<forall>j. bit v j \<longleftrightarrow> bit val' j \<or> (Suc i \<le> j \<and> j < Suc i + n \<and> bit (le_value data) (nat offset + j))"
      using Suc.IH [of "Suc i" val'] Suc.prems by auto
    have vb: "bit val' j \<longleftrightarrow> bit val j \<or> (j = i \<and> b)" for j
      using Suc.prems(2) unfolding val'_def by (auto simp: bit_or_iff bit_exp_iff possible_bit_word)
    have "bit v j \<longleftrightarrow> bit val j \<or> (i \<le> j \<and> j < i + Suc n \<and> bit (le_value data) (nat offset + j))" for j
    proof (cases "j = i")
      case True
      have "bit v i \<longleftrightarrow> bit val' i" using spec [OF v(2), of i] by simp
      then show ?thesis using True vb [of i] here by (simp add: k_def)
    next
      case False
      have r: "Suc i \<le> j \<and> j < Suc i + n \<longleftrightarrow> i \<le> j \<and> j < i + Suc n" using False by auto
      have "bit val' j \<longleftrightarrow> bit val j" using vb [of j] False by simp
      then show ?thesis using spec [OF v(2), of j] r by blast
    qed
    moreover have "decode_bits data offset i (Suc n) val = Ret v"
      unfolding out using False v(1) by (cases b) (simp_all add: val'_def flip: b_def)
    ultimately show ?thesis by blast
  qed
qed auto

text \<open>What \<open>decode\<close> promises for one signal: the bits of the payload from the offset on, as a number.\<close>

definition signal_value :: "bytes \<Rightarrow> int \<Rightarrow> int \<Rightarrow> u64" where
  "signal_value data offset width = of_nat (take_bit (nat width) (drop_bit (nat offset) (le_value data)))"

lemma decode_bits_value:
  assumes "0 \<le> offset" "offset + width \<le> 2 ^ 31" "0 \<le> width" "width \<le> 64" "length data < 2 ^ 31"
  shows "decode_bits data offset 0 (nat width) 0 = Ret (signal_value data offset width)"
proof -
  obtain v where v: "decode_bits data offset 0 (nat width) 0 = Ret v"
    "\<forall>j. bit v j \<longleftrightarrow> bit (0 :: u64) j \<or> (0 \<le> j \<and> j < 0 + nat width \<and> bit (le_value data) (nat offset + j))"
    using decode_bits_bits [of offset 0 "nat width" data 0] assms nat_le_iff [of width 64] by auto
  have "v = signal_value data offset width"
    using assms(4) by (intro bit_word_eqI) (simp add: v(2) signal_value_def bit_simps)
  with v(1) show ?thesis by simp
qed

subsection \<open>Decoding a frame\<close>

text \<open>The last reference to a signal name in a frame, which is the one whose value stays in the result.\<close>

definition last_ref :: "signal_ref list \<Rightarrow> string \<Rightarrow> signal_ref option" where
  "last_ref refs n = map_of (rev (map (\<lambda>r. (sr_name r, r)) refs)) n"

lemma last_ref_simps:
  "last_ref [] n = None"
  "last_ref (r # refs) n =
    (case last_ref refs n of Some r' \<Rightarrow> Some r' | None \<Rightarrow> if sr_name r = n then Some r else None)"
  by (auto simp: last_ref_def map_add_def split: option.split)

lemma last_ref_name: "last_ref refs n = Some r \<Longrightarrow> r \<in> set refs \<and> sr_name r = n"
  by (auto simp: last_ref_def dest: map_of_SomeD)

text \<open>Positions that stay within \<open>int\<close>, as all do whose offsets and widths come from the parser of a sane file.\<close>

definition refs_sane :: "ldf_db \<Rightarrow> signal_ref list \<Rightarrow> bool" where
  "refs_sane db refs \<longleftrightarrow>
    (\<forall>r\<in>set refs. \<forall>sg. db_signals db (sr_name r) = Some sg \<longrightarrow>
       0 \<le> sr_offset r \<and> sr_offset r + sg_width sg \<le> 2 ^ 31 \<and> 0 \<le> sg_width sg \<and> sg_width sg \<le> 64)"

definition ref_value :: "ldf_db \<Rightarrow> bytes \<Rightarrow> signal_ref \<Rightarrow> u64 option" where
  "ref_value db data r =
    map_option (\<lambda>sg. signal_value data (sr_offset r) (sg_width sg)) (db_signals db (sr_name r))"

lemma decode_refs_value:
  assumes "refs_sane db refs" "length data < 2 ^ 31"
  shows "\<exists>m. decode_refs db data refs result = Ret m \<and>
    (\<forall>n. m n = (case last_ref refs n of
       None \<Rightarrow> result n
     | Some r \<Rightarrow> if db_signals db n = None then result n else ref_value db data r))"
  using assms(1)
proof (induction refs arbitrary: result)
  case Nil
  then show ?case by (simp add: last_ref_simps)
next
  case (Cons r refs)
  have sane: "refs_sane db refs" using Cons.prems by (simp add: refs_sane_def)
  show ?case
  proof (cases "db_signals db (sr_name r)")
    case None
    obtain m where "decode_refs db data refs result = Ret m"
      "\<forall>n. m n = (case last_ref refs n of
         None \<Rightarrow> result n | Some r \<Rightarrow> if db_signals db n = None then result n else ref_value db data r)"
      using Cons.IH [OF sane] by blast
    then show ?thesis using None by (auto simp: last_ref_simps split: option.split)
  next
    case (Some sg)
    define v where "v = signal_value data (sr_offset r) (sg_width sg)"
    have "decode_bits data (sr_offset r) 0 (nat (sg_width sg)) 0 = Ret v"
      unfolding v_def using Cons.prems Some assms(2)
      by (intro decode_bits_value) (auto simp: refs_sane_def)
    moreover obtain m where m: "decode_refs db data refs (result(sr_name r \<mapsto> v)) = Ret m"
      "\<forall>n. m n = (case last_ref refs n of
         None \<Rightarrow> (result(sr_name r \<mapsto> v)) n
       | Some r' \<Rightarrow> if db_signals db n = None then (result(sr_name r \<mapsto> v)) n else ref_value db data r')"
      using Cons.IH [OF sane] by blast
    ultimately have "decode_refs db data (r # refs) result = Ret m" using Some by simp
    moreover have "m n = (case last_ref (r # refs) n of
       None \<Rightarrow> result n
     | Some r' \<Rightarrow> if db_signals db n = None then result n else ref_value db data r')" for n
      using m(2) Some by (auto simp: last_ref_simps ref_value_def v_def split: option.split)
    ultimately show ?thesis by blast
  qed
qed

subsection \<open>Properties\<close>

text \<open>C20: Decoding is exact. For a frame of the database whose positions are not negative and stay within
  \<open>int\<close>, with signals of at most 64 bits, \<open>decode\<close> is defined, and gives exactly one value for each
  name the frame refers to and the database declares: the bits of the payload, read as a
  little-endian number, from the offset on and as many as the signal is wide, with zeros beyond
  the payload's end. Of two references to one name the last one counts.\<close>

theorem decode_exact:
  assumes "db_frames db i = Some fr" and "refs_sane db (lf_signals fr)" and "length data < 2 ^ 31"
  shows "\<exists>m. decode db i data = Ret m \<and>
    (\<forall>n. m n =
      (case (last_ref (lf_signals fr) n, db_signals db n) of
         (Some r, Some sg) \<Rightarrow>
           Some (of_nat (le_value data div 2 ^ nat (sr_offset r) mod 2 ^ nat (sg_width sg)))
       | _ \<Rightarrow> None))"
proof -
  obtain m where m: "decode_refs db data (lf_signals fr) Map.empty = Ret m"
    "\<forall>n. m n = (case last_ref (lf_signals fr) n of
       None \<Rightarrow> Map.empty n
     | Some r \<Rightarrow> if db_signals db n = None then Map.empty n else ref_value db data r)"
    using decode_refs_value [OF assms(2,3)] by blast
  have "m n = (case (last_ref (lf_signals fr) n, db_signals db n) of
         (Some r, Some sg) \<Rightarrow>
           Some (of_nat (le_value data div 2 ^ nat (sr_offset r) mod 2 ^ nat (sg_width sg)))
       | _ \<Rightarrow> None)" for n
    using m(2) last_ref_name [of "lf_signals fr" n]
    by (auto simp: ref_value_def signal_value_def drop_bit_eq_div take_bit_eq_mod split: option.split)
  with m(1) show ?thesis using assms(1) by (auto simp: decode_def)
qed

definition demo_db :: ldf_db where
  "demo_db = empty_db
    \<lparr>db_frames := [0x10 \<mapsto> empty_ldf_frame\<lparr>lf_id := 0x10, lf_signals := [\<lparr>sr_name = ''Speed'', sr_offset = 4\<rparr>]\<rparr>],
     db_signals := [''Speed'' \<mapsto> empty_signal\<lparr>sg_name := ''Speed'', sg_width := 8\<rparr>]\<rparr>"

theorem decode_exact_witness:
  "\<exists>m. decode demo_db 0x10 [0x21, 0x43] = Ret m \<and> m ''Speed'' = Some 0x32 \<and> m ''Other'' = None"
proof -
  have f: "db_frames demo_db 0x10 = Some (empty_ldf_frame\<lparr>lf_id := 0x10, lf_signals := [\<lparr>sr_name = ''Speed'', sr_offset = 4\<rparr>]\<rparr>)"
    and s: "db_signals demo_db = [''Speed'' \<mapsto> empty_signal\<lparr>sg_name := ''Speed'', sg_width := 8\<rparr>]"
    by (simp_all add: demo_db_def)
  have "refs_sane demo_db (lf_signals (empty_ldf_frame\<lparr>lf_id := 0x10, lf_signals := [\<lparr>sr_name = ''Speed'', sr_offset = 4\<rparr>]\<rparr>))"
    by (simp add: refs_sane_def s empty_signal_def)
  then obtain m where m: "decode demo_db 0x10 [0x21, 0x43] = Ret m"
    "\<forall>n. m n =
      (case (last_ref [\<lparr>sr_name = ''Speed'', sr_offset = 4\<rparr>] n, db_signals demo_db n) of
         (Some r, Some sg) \<Rightarrow>
           Some (of_nat (le_value [0x21, 0x43] div 2 ^ nat (sr_offset r) mod 2 ^ nat (sg_width sg)))
       | _ \<Rightarrow> None)"
    using decode_exact [OF f, of "[0x21, 0x43]"] by auto
  then show ?thesis by (simp add: last_ref_simps s empty_signal_def)
qed

text \<open>A negative offset makes decoding undefined. A reference to a declared signal of at least one bit at
  an offset of -8 or less always reads before the payload; at -7 to -1 it shifts by a negative amount
  as soon as there is a payload. The parser accepts such offsets.\<close>

theorem decode_negative_offset:
  assumes "db_frames db i = Some fr" and "lf_signals fr = r # rs" and "db_signals db (sr_name r) = Some sg"
    and "0 < sg_width sg" and "sr_offset r < 0" and "- (2 ^ 31) \<le> sr_offset r"
    and "sr_offset r \<le> - 8 \<or> data \<noteq> []" and "length data < 2 ^ 31"
  shows "decode db i data = UB"
proof -
  obtain n where n: "nat (sg_width sg) = Suc n" using assms(4) by (metis gr0_implies_Suc zero_less_nat_eq)
  define j where "j = nat (- sr_offset r)"
  have j: "sr_offset r = - int j" "0 < j" using assms(5) by (simp_all add: j_def)
  have quo: "int j sdiv 8 = int (j div 8)" "int j smod 8 = int (j mod 8)"
    using j(2) by (simp_all add: signed_divide_int_eq_divide_int signed_modulo_int_eq_modulo_int zdiv_int zmod_int)
  have len: "int32_of_int (int (length data)) = int (length data)"
    using assms(8) by (intro int32_small) simp_all
  have "\<not> int (length data) \<le> - int (j div 8)"
    using assms(7) j by (cases "8 \<le> j") (auto simp: div_le_dividend)
  moreover have "- int (j div 8) < 0 \<or> - int (j mod 8) < 0"
    using j(2) by (metis div_mult_mod_eq add.right_neutral mult_zero_left neg_less_0_iff_less of_nat_0_less_iff not_gr_zero)
  ultimately have "decode_bits data (sr_offset r) 0 (Suc n) 0 = UB"
    using j assms(6) by (simp add: Let_def quo len)
  then show ?thesis using assms(1-3) by (simp add: decode_def n)
qed

theorem decode_negative_offset_witness:
  "decode (demo_db\<lparr>db_frames := [0x10 \<mapsto> empty_ldf_frame\<lparr>lf_id := 0x10, lf_signals := [\<lparr>sr_name = ''Speed'', sr_offset = - 8\<rparr>]\<rparr>]\<rparr>)
     0x10 [] = UB"
  using decode_negative_offset [of "demo_db\<lparr>db_frames := [0x10 \<mapsto> empty_ldf_frame\<lparr>lf_id := 0x10, lf_signals := [\<lparr>sr_name = ''Speed'', sr_offset = - 8\<rparr>]\<rparr>]\<rparr>"
      "0x10" "empty_ldf_frame\<lparr>lf_id := 0x10, lf_signals := [\<lparr>sr_name = ''Speed'', sr_offset = - 8\<rparr>]\<rparr>"
      "\<lparr>sr_name = ''Speed'', sr_offset = - 8\<rparr>" "[]" "empty_signal\<lparr>sg_name := ''Speed'', sg_width := 8\<rparr>" "[]"]
  by (simp add: demo_db_def empty_signal_def)

end
