(* ===== verification/LdfParser.thy ===== *)
theory LdfParser
  imports Ldf
begin

text \<open>
  The parser of LDF files, \<open>src/ldf/parser.cpp\<close> from the helpers on. The state of \<open>struct Parser\<close>,
  its lines and the position in them, is the list of the lines from that position on. Every reader
  of a number is inside a \<open>try\<close> block of the code, so the exceptions of \<open>std::stoll\<close>, \<open>std::stoull\<close>
  and \<open>std::stod\<close> leave the old value; a conversion that is undefined is not an exception, and the
  outcome of the whole parse is \<open>UB\<close> then.
\<close>

subsection \<open>Helpers\<close>

definition ldf_blank :: "char \<Rightarrow> bool" where
  "ldf_blank c \<longleftrightarrow> c = CHR '' '' \<or> c = CHR 0x09 \<or> c = CHR 0x0D \<or> c = CHR 0x0A"

definition trim :: "string \<Rightarrow> string" where
  "trim s =
    (case find_if (\<lambda>c. \<not> ldf_blank c) s of
       None \<Rightarrow> []
     | Some l \<Rightarrow> substr l (the (find_last_if (\<lambda>c. \<not> ldf_blank c) s) - l + 1) s)"

definition strip_comment :: "string \<Rightarrow> string" where
  "strip_comment line = (case find_sub ''//'' line of Some pos \<Rightarrow> trim (take pos line) | None \<Rightarrow> trim line)"

definition strip_semicolon :: "string \<Rightarrow> string" where
  "strip_semicolon s =
    (let r = trim s; r' = (if r \<noteq> [] \<and> last r = CHR '';'' then butlast r else r) in trim r')"

fun first_double :: "string list \<Rightarrow> cdouble" where
  "first_double [] = double_zero"
| "first_double (tok # toks) =
    (case stod (strip_semicolon tok) of Inr d \<Rightarrow> d | Inl _ \<Rightarrow> first_double toks)"

definition extract_float_value :: "string \<Rightarrow> cdouble" where
  "extract_float_value line = first_double (stream_words line)"

definition extract_quoted_value :: "string \<Rightarrow> string" where
  "extract_quoted_value line =
    (case find_if (\<lambda>c. c = CHR 0x22) line of
       None \<Rightarrow> []
     | Some start \<Rightarrow>
         (case find_from (\<lambda>c. c = CHR 0x22) (start + 1) line of
            None \<Rightarrow> []
          | Some e \<Rightarrow> substr (start + 1) (e - start - 1) line))"

definition hex_prefixed :: "string \<Rightarrow> bool" where
  "hex_prefixed t \<longleftrightarrow> 2 < length t \<and> (take 2 t = ''0x'' \<or> take 2 t = ''0X'')"

definition parse_int :: "string \<Rightarrow> std_exn + int" where
  "parse_int s =
    (let t = strip_semicolon s in if hex_prefixed t then stoll 16 (drop 2 t) else stoll 10 t)"

definition parse_uint :: "string \<Rightarrow> (std_exn + u64) outcome" where
  "parse_uint s =
    (let t = strip_semicolon s
     in if hex_prefixed t then Ret (stoull 16 (drop 2 t))
        else case stod t of
          Inr d \<Rightarrow> obind (double_to_u64 d) (\<lambda>v. Ret (Inr v))
        | Inl _ \<Rightarrow> Ret (stoull 10 t))"

subsection \<open>Lines\<close>

definition peek :: "string list \<Rightarrow> string" where
  "peek ls = (case ls of [] \<Rightarrow> [] | l # _ \<Rightarrow> l)"

definition skip_brace :: "string list \<Rightarrow> string list" where
  "skip_brace ls = (if peek ls \<noteq> [] \<and> hd (peek ls) = CHR ''{'' then tl ls else ls)"

text \<open>\<open>line.substr(0, n) == p\<close> for a text \<open>p\<close> of length \<open>n\<close>.\<close>

definition starts :: "string \<Rightarrow> string \<Rightarrow> bool" where
  "starts p line \<longleftrightarrow> take (length p) line = p"

text \<open>The pieces between commas, trimmed.\<close>

definition comma_parts :: "string \<Rightarrow> string list" where
  "comma_parts s = map trim (getlines (CHR '','') s)"

definition nonempty_parts :: "string \<Rightarrow> string list" where
  "nonempty_parts s = filter (\<lambda>p. p \<noteq> []) (comma_parts s)"

subsection \<open>Nodes\<close>

definition node_line :: "string \<Rightarrow> ldf_db \<Rightarrow> ldf_db" where
  "node_line line db =
    (if starts ''Master:'' line then
       (let rest = trim (drop 7 line);
            master_part = (case find_if (\<lambda>c. c = CHR '','') rest of Some comma \<Rightarrow> take comma rest | None \<Rightarrow> rest)
        in db\<lparr>master_node := strip_semicolon master_part\<rparr>)
     else if starts ''Slaves:'' line then
       db\<lparr>slave_nodes := slave_nodes db @ nonempty_parts (strip_semicolon (trim (drop 7 line)))\<rparr>
     else db)"

fun nodes_loop :: "string list \<Rightarrow> ldf_db \<Rightarrow> string list \<times> ldf_db" where
  "nodes_loop [] db = ([], db)"
| "nodes_loop (l # ls) db = (if l = ''}'' then (ls, db) else nodes_loop ls (node_line l db))"

definition parse_nodes :: "string list \<Rightarrow> ldf_db \<Rightarrow> string list \<times> ldf_db" where
  "parse_nodes ls db = nodes_loop (skip_brace ls) db"

subsection \<open>Signals\<close>

definition clamp_width :: "int \<Rightarrow> int" where
  "clamp_width w = (if w < 0 then 0 else if w > 64 then 64 else w)"

definition signal_line :: "string \<Rightarrow> ldf_db \<Rightarrow> ldf_db outcome" where
  "signal_line l db =
    (let line = strip_semicolon l
     in case find_if (\<lambda>c. c = CHR '':'') line of
          None \<Rightarrow> Ret db
        | Some colon \<Rightarrow>
            (let name = trim (take colon line);
                 parts = comma_parts (trim (drop (colon + 1) line))
             in if length parts < 3 then Ret db
                else
                  (let width = clamp_width (or_keep (map_sum id int32_of_int (parse_int (parts ! 0))) 0)
                   in obind (parse_uint (parts ! 1)) (\<lambda>init.
                        let sig = empty_signal\<lparr>sg_name := name, sg_width := width, sg_init := or_keep init 0,
                              sg_publisher := trim (parts ! 2),
                              sg_subscribers := concat (map nonempty_parts (drop 3 parts))\<rparr>
                        in Ret (db\<lparr>db_signals := (db_signals db)(name \<mapsto> sig)\<rparr>)))))"

fun signals_loop :: "string list \<Rightarrow> ldf_db \<Rightarrow> (string list \<times> ldf_db) outcome" where
  "signals_loop [] db = Ret ([], db)"
| "signals_loop (l # ls) db =
    (if l = ''}'' then Ret (ls, db) else obind (signal_line l db) (\<lambda>db'. signals_loop ls db'))"

definition parse_signals :: "string list \<Rightarrow> ldf_db \<Rightarrow> (string list \<times> ldf_db) outcome" where
  "parse_signals ls db = signals_loop (skip_brace ls) db"

subsection \<open>Frames\<close>

text \<open>The header of a frame, up to its last opening brace; none without a colon.\<close>

definition frame_header :: "string \<Rightarrow> ldf_frame option" where
  "frame_header line =
    (let hdr = (case find_last_if (\<lambda>c. c = CHR ''{'') line of Some brace \<Rightarrow> trim (take brace line) | None \<Rightarrow> line)
     in case find_if (\<lambda>c. c = CHR '':'') hdr of
          None \<Rightarrow> None
        | Some colon \<Rightarrow>
            (let fr = empty_ldf_frame\<lparr>lf_name := trim (take colon hdr)\<rparr>;
                 parts = comma_parts (trim (drop (colon + 1) hdr))
             in Some (if 3 \<le> length parts then
                        fr\<lparr>lf_id := or_keep (map_sum id word_of_int (parse_int (parts ! 0))) 0,
                           lf_publisher := trim (parts ! 1),
                           lf_length := or_keep (map_sum id int32_of_int (parse_int (parts ! 2))) 0\<rparr>
                      else fr)))"

definition ref_line :: "string \<Rightarrow> signal_ref list" where
  "ref_line l =
    (let inner = strip_semicolon l
     in case find_if (\<lambda>c. c = CHR '','') inner of
          None \<Rightarrow> []
        | Some comma \<Rightarrow>
            [\<lparr>sr_name = trim (take comma inner),
              sr_offset = or_keep (map_sum id int32_of_int (parse_int (trim (drop (comma + 1) inner)))) 0\<rparr>])"

fun refs_loop :: "string list \<Rightarrow> signal_ref list \<Rightarrow> string list \<times> signal_ref list" where
  "refs_loop [] refs = ([], refs)"
| "refs_loop (l # ls) refs = (if l = ''}'' then (ls, refs) else refs_loop ls (refs @ ref_line l))"

lemma refs_loop_le: "refs_loop ls refs = (ls', refs') \<Longrightarrow> length ls' \<le> length ls"
  by (induction ls refs rule: refs_loop.induct) (auto split: if_splits)

function frames_loop :: "string list \<Rightarrow> ldf_db \<Rightarrow> string list \<times> ldf_db" where
  "frames_loop [] db = ([], db)"
| "frames_loop (l # ls) db =
    (if l = ''}'' then (ls, db)
     else if find_if (\<lambda>c. c = CHR ''{'') l = None then frames_loop ls db
     else case frame_header l of
       None \<Rightarrow> frames_loop ls db
     | Some fr \<Rightarrow>
         (case refs_loop ls [] of (ls', refs) \<Rightarrow>
            frames_loop ls' (db\<lparr>db_frames := (db_frames db)(lf_id fr \<mapsto> fr\<lparr>lf_signals := refs\<rparr>)\<rparr>)))"
  by pat_completeness auto
termination
  by (relation "measure (length \<circ> fst)") (auto dest!: refs_loop_le [OF sym])

definition parse_frames :: "string list \<Rightarrow> ldf_db \<Rightarrow> string list \<times> ldf_db" where
  "parse_frames ls db = frames_loop (skip_brace ls) db"

subsection \<open>Schedule tables\<close>

text \<open>\<open>std::map\<close> is walked in ascending order: the least identifier of a frame with that name, or 0xFF.\<close>

definition frame_named :: "ldf_db \<Rightarrow> string \<Rightarrow> u8" where
  "frame_named db n =
    (case find (\<lambda>i. case db_frames db i of None \<Rightarrow> False | Some fr \<Rightarrow> lf_name fr = n) (map word_of_nat [0..<256]) of
       Some i \<Rightarrow> i
     | None \<Rightarrow> 0xFF)"

text \<open>The word after the first word \<open>delay\<close>, in any case of letters, if there is one.\<close>

fun delay_word :: "string list \<Rightarrow> string option" where
  "delay_word (p # q # ps) = (if map to_lower p = ''delay'' then Some q else delay_word (q # ps))"
| "delay_word _ = None"

definition entry_line :: "string \<Rightarrow> ldf_db \<Rightarrow> schedule_entry list outcome" where
  "entry_line l db =
    (let inner = strip_semicolon l
     in if starts ''AssignFrameId'' inner then Ret []
        else
          let parts = stream_words inner
          in if length parts < 3 then Ret []
             else case delay_word (tl parts) of
               None \<Rightarrow> Ret []
             | Some w \<Rightarrow>
                 obind (parse_uint w) (\<lambda>r.
                   let delay_ms = or_keep (map_sum id ucast r) 0; fid = frame_named db (parts ! 0)
                   in Ret (if fid \<le> kLINMaxID then [\<lparr>se_id = fid, se_delay_ms = delay_ms\<rparr>] else [])))"

fun entries_loop :: "string list \<Rightarrow> ldf_db \<Rightarrow> schedule_entry list \<Rightarrow> (string list \<times> schedule_entry list) outcome" where
  "entries_loop [] db es = Ret ([], es)"
| "entries_loop (l # ls) db es =
    (if l = ''}'' then Ret (ls, es) else obind (entry_line l db) (\<lambda>e. entries_loop ls db (es @ e)))"

lemma obind_cong [fundef_cong]:
  "m = m' \<Longrightarrow> (\<And>x. m' = Ret x \<Longrightarrow> f x = f' x) \<Longrightarrow> obind m f = obind m' f'"
  by (cases m') auto

lemma entries_loop_le: "entries_loop ls db es = Ret (ls', es') \<Longrightarrow> length ls' \<le> length ls"
  by (induction ls arbitrary: es) (auto simp: obind_eq_Ret le_SucI split: if_splits)

function tables_loop :: "string list \<Rightarrow> ldf_db \<Rightarrow> (string list \<times> ldf_db) outcome" where
  "tables_loop [] db = Ret ([], db)"
| "tables_loop (l # ls) db =
    (if l = ''}'' then Ret (ls, db)
     else if last l = CHR ''{'' then
       obind (entries_loop ls db []) (\<lambda>r. case r of (ls', es) \<Rightarrow>
         tables_loop ls' (db\<lparr>db_schedules := (db_schedules db)(trim (butlast l) \<mapsto> es)\<rparr>))
     else tables_loop ls db)"
  by pat_completeness auto
termination
  by (relation "measure (length \<circ> fst)") (auto dest!: entries_loop_le)

definition parse_schedule_tables :: "string list \<Rightarrow> ldf_db \<Rightarrow> (string list \<times> ldf_db) outcome" where
  "parse_schedule_tables ls db = tables_loop (skip_brace ls) db"

subsection \<open>The whole file\<close>

lemma skip_brace_le: "length (skip_brace ls) \<le> length ls"
  by (simp add: skip_brace_def)

lemma nodes_loop_le: "length (fst (nodes_loop ls db)) \<le> length ls"
  by (induction ls db rule: nodes_loop.induct) auto

lemma signals_loop_le: "signals_loop ls db = Ret (ls', db') \<Longrightarrow> length ls' \<le> length ls"
  by (induction ls arbitrary: db) (auto simp: obind_eq_Ret le_SucI split: if_splits)

lemma frames_loop_le: "length (fst (frames_loop ls db)) \<le> length ls"
proof (induction ls db rule: frames_loop.induct)
  case (2 l ls db)
  show ?case
  proof (cases "l = ''}'' \<or> find_if (\<lambda>c. c = CHR ''{'') l = None")
    case True
    then show ?thesis using 2(1) by (cases "l = ''}''") simp_all
  next
    case False
    obtain ls' refs where r: "refs_loop ls [] = (ls', refs)" by (cases "refs_loop ls []")
    from False have "l \<noteq> ''}''" "find_if (\<lambda>c. c = CHR ''{'') l \<noteq> None" by simp_all
    then show ?thesis
      using 2(2) 2(3) [OF _ _ _ r [symmetric]] refs_loop_le [OF r] r
      by (cases "frame_header l") (simp_all only: frames_loop.simps if_False option.case prod.case, simp_all)
  qed
qed simp

lemma tables_loop_le: "tables_loop ls db = Ret (ls', db') \<Longrightarrow> length ls' \<le> length ls"
proof (induction ls db rule: tables_loop.induct)
  case (2 l ls db)
  consider "l = ''}''" | "l \<noteq> ''}''" "last l \<noteq> CHR ''{''" | "l \<noteq> ''}''" "last l = CHR ''{''" by blast
  then show ?case
  proof cases
    case 3
    with 2(3) obtain ls1 es where e: "entries_loop ls db [] = Ret (ls1, es)"
      and t: "tables_loop ls1 (db\<lparr>db_schedules := (db_schedules db)(trim (butlast l) \<mapsto> es)\<rparr>) = Ret (ls', db')"
      by (auto simp: obind_eq_Ret)
    show ?thesis using 2(1) [OF 3 e refl t] entries_loop_le [OF e] by simp
  qed (use 2(2,3) in auto)
qed simp

text \<open>Every section reader leaves at most the lines it was given: the outer loop ends.\<close>

lemma parse_nodes_le: "length (fst (parse_nodes ls db)) \<le> length ls"
  using nodes_loop_le [of "skip_brace ls" db] skip_brace_le [of ls] by (simp add: parse_nodes_def)

lemma parse_signals_le: "parse_signals ls db = Ret (ls', db') \<Longrightarrow> length ls' \<le> length ls"
  using signals_loop_le skip_brace_le le_trans by (metis parse_signals_def)

lemma parse_frames_le: "length (fst (parse_frames ls db)) \<le> length ls"
  using frames_loop_le [of "skip_brace ls" db] skip_brace_le [of ls] by (simp add: parse_frames_def)

lemma parse_schedule_tables_le: "parse_schedule_tables ls db = Ret (ls', db') \<Longrightarrow> length ls' \<le> length ls"
  using tables_loop_le skip_brace_le le_trans by (metis parse_schedule_tables_def)

function parse_top :: "string list \<Rightarrow> ldf_db \<Rightarrow> ldf_db outcome" where
  "parse_top [] db = Ret db"
| "parse_top (line # ls) db =
    (if starts ''LIN_protocol_version'' line then
       parse_top ls (db\<lparr>protocol_version := extract_quoted_value line\<rparr>)
     else if starts ''LIN_language_version'' line then
       parse_top ls (db\<lparr>language_version := extract_quoted_value line\<rparr>)
     else if starts ''LIN_speed'' line then parse_top ls (db\<lparr>db_speed := extract_float_value line\<rparr>)
     else if starts ''Nodes'' line then
       (case parse_nodes ls db of (ls', db') \<Rightarrow> parse_top ls' db')
     else if starts ''Signals'' line then
       obind (parse_signals ls db) (\<lambda>r. case r of (ls', db') \<Rightarrow> parse_top ls' db')
     else if starts ''Frames'' line then
       (case parse_frames ls db of (ls', db') \<Rightarrow> parse_top ls' db')
     else if starts ''Schedule_tables'' line then
       obind (parse_schedule_tables ls db) (\<lambda>r. case r of (ls', db') \<Rightarrow> parse_top ls' db')
     else parse_top ls db)"
  by pat_completeness auto
termination
  by (relation "measure (length \<circ> fst)")
     (auto simp: less_Suc_eq_le parse_nodes_le parse_frames_le dest: parse_signals_le parse_schedule_tables_le)

definition parse_lines :: "string \<Rightarrow> string list" where
  "parse_lines r = filter (\<lambda>l. l \<noteq> []) (map strip_comment (getlines (CHR 0x0A) r))"

definition parse :: "string \<Rightarrow> ldf_db outcome" where
  "parse r = parse_top (parse_lines r) empty_db"

end
