(* ===== verification/LdfInvariant.thy ===== *)
theory LdfInvariant
  imports LdfParser
begin

text \<open>
  What every database built by the parser satisfies, one preservation lemma per line reader and
  section loop, and how \<open>parse_uint\<close> reads integers.
\<close>

subsection \<open>Trimming\<close>

lemma trim_strip: "trim s = strip ldf_blank s"
proof (cases "find_if (\<lambda>c. \<not> ldf_blank c) s")
  case None
  then have "\<forall>x\<in>set s. ldf_blank x" by (simp add: find_if_None)
  then have "strip ldf_blank s = []" by (simp add: strip_Nil_iff)
  then show ?thesis using None by (simp add: trim_def)
next
  case (Some l)
  then obtain r where "find_last_if (\<lambda>c. \<not> ldf_blank c) s = Some r"
    using find_last_if_Some_iff by metis
  then show ?thesis using Some substr_strip [OF Some] by (simp add: trim_def)
qed

lemma trim_id: "\<forall>c\<in>set s. \<not> ldf_blank c \<Longrightarrow> trim s = s"
  by (simp add: trim_strip strip_no_class)

lemma trim_around:
  "ys \<noteq> [] \<Longrightarrow> \<not> ldf_blank (hd ys) \<Longrightarrow> \<not> ldf_blank (last ys) \<Longrightarrow> \<forall>x\<in>set pre. ldf_blank x \<Longrightarrow>
    \<forall>x\<in>set post. ldf_blank x \<Longrightarrow> trim (pre @ ys @ post) = ys"
  by (simp add: trim_strip strip_around)

lemma trim_ends: "trim s \<noteq> [] \<Longrightarrow> \<not> ldf_blank (hd (trim s)) \<and> \<not> ldf_blank (last (trim s))"
proof -
  assume n: "trim s \<noteq> []"
  have front: "ys \<noteq> [] \<Longrightarrow> dropWhile P zs = ys \<Longrightarrow> \<not> P (hd ys)" for P and ys zs :: string
    using hd_dropWhile by blast
  have p: "dropWhile ldf_blank s = trim s @ rev (takeWhile ldf_blank (rev (dropWhile ldf_blank s)))"
    unfolding trim_strip by (rule dropWhile_strip)
  then have "hd (dropWhile ldf_blank s) = hd (trim s)" "dropWhile ldf_blank s \<noteq> []"
    using n by (metis hd_append2, metis append_is_Nil_conv)
  moreover have "\<not> ldf_blank (hd (dropWhile ldf_blank s))" by (rule front) (use calculation in simp_all)
  moreover have "dropWhile ldf_blank (rev (dropWhile ldf_blank s)) = rev (trim s)"
    by (simp add: trim_strip strip_def)
  then have "\<not> ldf_blank (hd (rev (trim s)))" using n by (intro front) simp_all
  ultimately show ?thesis using n by (simp add: hd_rev)
qed

lemma trim_trim [simp]: "trim (trim s) = trim s"
proof (cases "trim s = []")
  case True
  then show ?thesis by (simp add: trim_def [of "[]"])
next
  case False
  then show ?thesis using trim_around [of "trim s" "[]" "[]"] trim_ends [OF False] by simp
qed

lemma strip_semicolon_id: "\<forall>c\<in>set s. \<not> ldf_blank c \<Longrightarrow> CHR '';'' \<notin> set s \<Longrightarrow> strip_semicolon s = s"
proof -
  assume s: "\<forall>c\<in>set s. \<not> ldf_blank c" and n: "CHR '';'' \<notin> set s"
  have "s \<noteq> [] \<Longrightarrow> last s \<noteq> CHR '';''" using n last_in_set [of s] by metis
  then show ?thesis by (auto simp: strip_semicolon_def trim_id [OF s] Let_def)
qed

subsection \<open>The invariant\<close>

definition signals_ok :: "ldf_db \<Rightarrow> bool" where
  "signals_ok db \<longleftrightarrow>
    (\<forall>n sg. db_signals db n = Some sg \<longrightarrow> sg_name sg = n \<and> 0 \<le> sg_width sg \<and> sg_width sg \<le> 64)"

definition is_int32 :: "int \<Rightarrow> bool" where
  "is_int32 i \<longleftrightarrow> - (2 ^ 31) \<le> i \<and> i < 2 ^ 31"

definition frames_ok :: "ldf_db \<Rightarrow> bool" where
  "frames_ok db \<longleftrightarrow>
    (\<forall>i fr. db_frames db i = Some fr \<longrightarrow>
       lf_id fr = i \<and> is_int32 (lf_length fr) \<and> (\<forall>r\<in>set (lf_signals fr). is_int32 (sr_offset r)))"

definition entries_ok :: "ldf_db \<Rightarrow> schedule_entry list \<Rightarrow> bool" where
  "entries_ok db es \<longleftrightarrow> (\<forall>e\<in>set es. se_id e \<le> kLINMaxID \<and> db_frames db (se_id e) \<noteq> None)"

definition schedules_ok :: "ldf_db \<Rightarrow> bool" where
  "schedules_ok db \<longleftrightarrow> (\<forall>n es. db_schedules db n = Some es \<longrightarrow> entries_ok db es)"

definition db_ok :: "ldf_db \<Rightarrow> bool" where
  "db_ok db \<longleftrightarrow> signals_ok db \<and> frames_ok db \<and> schedules_ok db"

named_theorems ldf_inv \<open>preservation of the database invariant, one fact per reader\<close>

lemmas db_ok_defs = db_ok_def signals_ok_def frames_ok_def schedules_ok_def entries_ok_def

lemma is_int32_of_int [simp]: "is_int32 (int32_of_int i)"
  using sint_ge [of "word_of_int i :: u32"] sint_lt [of "word_of_int i :: u32"]
  by (simp add: is_int32_def int32_of_int_def)

lemma is_int32_zero [simp]: "is_int32 0" by (simp add: is_int32_def)

lemma is_int32_or_keep [simp]: "is_int32 (or_keep (map_sum f int32_of_int r) 0)"
  by (cases r) simp_all

lemma clamp_width_bounds: "0 \<le> clamp_width w" "clamp_width w \<le> 64"
  by (simp_all add: clamp_width_def)

lemma db_ok_empty: "db_ok empty_db"
  by (simp add: db_ok_defs empty_db_def)

lemma db_ok_header [ldf_inv]:
  "db_ok (db\<lparr>protocol_version := s\<rparr>) = db_ok db" "db_ok (db\<lparr>language_version := s\<rparr>) = db_ok db"
  "db_ok (db\<lparr>db_speed := d\<rparr>) = db_ok db" "db_ok (db\<lparr>master_node := s\<rparr>) = db_ok db"
  "db_ok (db\<lparr>slave_nodes := ns\<rparr>) = db_ok db"
  by (simp_all add: db_ok_defs)

lemma node_line_ok [ldf_inv]: "db_ok (node_line l db) = db_ok db"
  by (simp add: node_line_def Let_def ldf_inv)

lemma nodes_loop_ok [ldf_inv]: "db_ok (snd (nodes_loop ls db)) = db_ok db"
  by (induction ls db rule: nodes_loop.induct) (simp_all add: ldf_inv)

lemma signal_line_ok: "signal_line l db = Ret db' \<Longrightarrow> db_ok db \<Longrightarrow> db_ok db'"
  by (auto simp: signal_line_def Let_def obind_eq_Ret db_ok_defs clamp_width_bounds
      split: option.splits if_splits)

lemma signals_loop_ok: "signals_loop ls db = Ret (ls', db') \<Longrightarrow> db_ok db \<Longrightarrow> db_ok db'"
  by (induction ls arbitrary: db) (auto simp: obind_eq_Ret dest: signal_line_ok split: if_splits)

lemma frame_header_length: "frame_header l = Some fr \<Longrightarrow> is_int32 (lf_length fr)"
  by (auto simp: frame_header_def Let_def empty_ldf_frame_def split: option.splits if_splits)

lemma refs_loop_ok:
  "refs_loop ls refs = (ls', refs') \<Longrightarrow> \<forall>r\<in>set refs. is_int32 (sr_offset r) \<Longrightarrow> \<forall>r\<in>set refs'. is_int32 (sr_offset r)"
proof (induction ls refs rule: refs_loop.induct)
  case (2 l ls refs)
  have "\<forall>r\<in>set (ref_line l). is_int32 (sr_offset r)"
    by (auto simp: ref_line_def Let_def split: option.splits)
  then show ?case using 2 by (cases "l = ''}''") auto
qed simp

lemma add_frame_ok:
  assumes "db_ok db" "is_int32 (lf_length fr)" "\<forall>r\<in>set refs. is_int32 (sr_offset r)"
  shows "db_ok (db\<lparr>db_frames := (db_frames db)(lf_id fr \<mapsto> fr\<lparr>lf_signals := refs\<rparr>)\<rparr>)"
  using assms by (auto simp: db_ok_defs)

lemma frames_loop_ok: "db_ok db \<Longrightarrow> db_ok (snd (frames_loop ls db))"
proof (induction ls db rule: frames_loop.induct)
  case (2 l ls db)
  consider "l = ''}''" | "l \<noteq> ''}''" "find_if (\<lambda>c. c = CHR ''{'') l = None \<or> frame_header l = None"
    | fr where "l \<noteq> ''}''" "find_if (\<lambda>c. c = CHR ''{'') l \<noteq> None" "frame_header l = Some fr"
    by (cases "frame_header l") blast+
  then show ?case
  proof cases
    case 2
    then show ?thesis using "2.IH"(1,2) "2.prems" by (cases "find_if (\<lambda>c. c = CHR ''{'') l") auto
  next
    case 3
    obtain ls' refs where r: "refs_loop ls [] = (ls', refs)" by (cases "refs_loop ls []")
    have "db_ok (db\<lparr>db_frames := (db_frames db)(lf_id fr \<mapsto> fr\<lparr>lf_signals := refs\<rparr>)\<rparr>)"
      using "2.prems" frame_header_length [OF 3(3)] refs_loop_ok [OF r] by (intro add_frame_ok) simp_all
    then have "db_ok (snd (frames_loop ls' (db\<lparr>db_frames := (db_frames db)(lf_id fr \<mapsto> fr\<lparr>lf_signals := refs\<rparr>)\<rparr>)))"
      by (rule "2.IH"(3) [OF 3 r [symmetric]])
    then show ?thesis by (simp only: frames_loop.simps 3 r if_False option.case prod.case)
  qed (use "2.prems" in simp)
qed simp

lemma frame_named_in: "frame_named db n \<le> kLINMaxID \<Longrightarrow> db_frames db (frame_named db n) \<noteq> None"
proof -
  define P where "P = (\<lambda>i. case db_frames db i of None \<Rightarrow> False | Some fr \<Rightarrow> lf_name fr = n)"
  assume le: "frame_named db n \<le> kLINMaxID"
  then obtain i where i: "find P (map word_of_nat [0..<256]) = Some i"
    by (cases "find P (map word_of_nat [0..<256])") (simp_all add: frame_named_def P_def kLINMaxID_def)
  then have "P i" by (auto simp: find_Some_iff simp del: upt_rec_numeral)
  then show ?thesis using i by (auto simp: frame_named_def P_def split: option.splits)
qed

lemma entry_line_ok: "entry_line l db = Ret es \<Longrightarrow> entries_ok db es"
  by (auto simp: entry_line_def Let_def obind_eq_Ret entries_ok_def dest: frame_named_in
      split: if_splits option.splits)

lemma entries_loop_ok: "entries_loop ls db es = Ret (ls', es') \<Longrightarrow> entries_ok db es \<Longrightarrow> entries_ok db es'"
proof (induction ls arbitrary: es)
  case (Cons l ls)
  show ?case
  proof (cases "l = ''}''")
    case False
    then obtain e where e: "entry_line l db = Ret e" and r: "entries_loop ls db (es @ e) = Ret (ls', es')"
      using Cons.prems(1) by (auto simp: obind_eq_Ret)
    have "entries_ok db (es @ e)"
      using Cons.prems(2) entry_line_ok [OF e] unfolding entries_ok_def set_append by blast
    then show ?thesis by (rule Cons.IH [OF r])
  qed (use Cons.prems in simp)
qed simp

lemma tables_loop_ok: "tables_loop ls db = Ret (ls', db') \<Longrightarrow> db_ok db \<Longrightarrow> db_ok db'"
proof (induction ls db rule: tables_loop.induct)
  case (2 l ls db)
  consider "l = ''}''" | "l \<noteq> ''}''" "last l \<noteq> CHR ''{''" | "l \<noteq> ''}''" "last l = CHR ''{''" by blast
  then show ?case
  proof cases
    case 3
    with "2.prems"(1) obtain ls1 es where e: "entries_loop ls db [] = Ret (ls1, es)"
      and t: "tables_loop ls1 (db\<lparr>db_schedules := (db_schedules db)(trim (butlast l) \<mapsto> es)\<rparr>) = Ret (ls', db')"
      by (auto simp: obind_eq_Ret)
    have "entries_ok db es" using entries_loop_ok [OF e] by (simp add: entries_ok_def)
    then have "db_ok (db\<lparr>db_schedules := (db_schedules db)(trim (butlast l) \<mapsto> es)\<rparr>)"
      using "2.prems"(2) by (simp add: db_ok_defs)
    then show ?thesis by (rule "2.IH"(1) [OF 3 e refl t])
  qed (use 2(2) "2.prems" in auto)
qed simp

text \<open>One turn of the outer loop, and induction over its turns.\<close>

definition section_step :: "string \<Rightarrow> string list \<Rightarrow> ldf_db \<Rightarrow> (string list \<times> ldf_db) outcome" where
  "section_step line ls db =
    (if starts ''LIN_protocol_version'' line then Ret (ls, db\<lparr>protocol_version := extract_quoted_value line\<rparr>)
     else if starts ''LIN_language_version'' line then Ret (ls, db\<lparr>language_version := extract_quoted_value line\<rparr>)
     else if starts ''LIN_speed'' line then Ret (ls, db\<lparr>db_speed := extract_float_value line\<rparr>)
     else if starts ''Nodes'' line then Ret (parse_nodes ls db)
     else if starts ''Signals'' line then parse_signals ls db
     else if starts ''Frames'' line then Ret (parse_frames ls db)
     else if starts ''Schedule_tables'' line then parse_schedule_tables ls db
     else Ret (ls, db))"

lemma parse_top_turn:
  "parse_top (line # ls) db = obind (section_step line ls db) (\<lambda>r. case r of (ls', db') \<Rightarrow> parse_top ls' db')"
  by (simp add: section_step_def)

lemma section_step_cases:
  assumes "section_step line ls db = Ret (ls', db')"
  obtains (header) "ls' = ls" "db_ok db' = db_ok db" | (nodes) "parse_nodes ls db = (ls', db')"
  | (signals) "parse_signals ls db = Ret (ls', db')" | (frames) "parse_frames ls db = (ls', db')"
  | (tables) "parse_schedule_tables ls db = Ret (ls', db')"
  using assms that by (simp add: section_step_def ldf_inv split: if_splits) (auto simp: ldf_inv)

lemma section_step_le: "section_step line ls db = Ret (ls', db') \<Longrightarrow> length ls' \<le> length ls"
proof (elim section_step_cases)
  assume "parse_nodes ls db = (ls', db')"
  then show ?thesis using parse_nodes_le [of ls db] by simp
next
  assume "parse_frames ls db = (ls', db')"
  then show ?thesis using parse_frames_le [of ls db] by simp
qed (auto dest: parse_signals_le parse_schedule_tables_le)

lemma parse_top_induct [case_names last turn]:
  assumes "\<And>db. P [] db"
    and "\<And>line ls db. (\<And>ls' db'. section_step line ls db = Ret (ls', db') \<Longrightarrow> P ls' db') \<Longrightarrow> P (line # ls) db"
  shows "P ls db"
proof (induction "length ls" arbitrary: ls db rule: less_induct)
  case (less ls db)
  show ?case
  proof (cases ls)
    case (Cons line rest)
    show ?thesis unfolding Cons
    proof (rule assms(2))
      fix ls' db'
      assume "section_step line rest db = Ret (ls', db')"
      then have "length ls' < length ls" by (auto simp: Cons dest: section_step_le)
      then show "P ls' db'" by (rule less)
    qed
  qed (simp add: assms(1))
qed

lemma section_step_ok: "section_step line ls db = Ret (ls', db') \<Longrightarrow> db_ok db \<Longrightarrow> db_ok db'"
proof (elim section_step_cases)
  assume "parse_nodes ls db = (ls', db')" "db_ok db"
  then show ?thesis using nodes_loop_ok [of "skip_brace ls" db] by (simp add: parse_nodes_def)
next
  assume "parse_frames ls db = (ls', db')" "db_ok db"
  then show ?thesis using frames_loop_ok [of db "skip_brace ls"] by (simp add: parse_frames_def)
qed (auto simp: parse_signals_def parse_schedule_tables_def dest: signals_loop_ok tables_loop_ok)

lemma parse_top_ok: "parse_top ls db = Ret db' \<Longrightarrow> db_ok db \<Longrightarrow> db_ok db'"
proof (induction ls db rule: parse_top_induct)
  case (turn line ls db)
  obtain ls1 db1 where s: "section_step line ls db = Ret (ls1, db1)" and r: "parse_top ls1 db1 = Ret db'"
    using turn.prems(1) by (auto simp: parse_top_turn obind_eq_Ret simp del: parse_top.simps)
  show ?case using section_step_ok [OF s turn.prems(2)] by (rule turn.IH [OF s r])
qed simp

lemma parse_ok: "parse r = Ret db \<Longrightarrow> db_ok db"
  using parse_top_ok db_ok_empty by (auto simp: parse_def)

end
