(* ===== verification/LdfPrint.thy ===== *)
theory LdfPrint
  imports LdfInvariant
begin

text \<open>
  A canonical text of an LDF database, in the layout of the sample in the repository's tests
  (\<open>tests/test_ldf.cpp\<close>), and the lemmas that take the parser through it line by line. The printer is
  not code of the repository: it is the specification the parser is measured against.
\<close>

subsection \<open>Names and numbers\<close>

definition name_char :: "char \<Rightarrow> bool" where
  "name_char c \<longleftrightarrow>
    (let n = char_nat c in (48 \<le> n \<and> n \<le> 57) \<or> (65 \<le> n \<and> n \<le> 90) \<or> (97 \<le> n \<and> n \<le> 122) \<or> n = 95 \<or> n = 45 \<or> n = 46)"

text \<open>Letters, digits, underscores, hyphens and points.\<close>

definition name_ok :: "string \<Rightarrow> bool" where
  "name_ok s \<longleftrightarrow> s \<noteq> [] \<and> (\<forall>c\<in>set s. name_char c)"

lemma char_nat_lit [simp]: "char_nat (Char b0 b1 b2 b3 b4 b5 b6 b7) = of_char (Char b0 b1 b2 b3 b4 b5 b6 b7)"
  by (simp add: char_nat_def)

lemma name_char_not:
  assumes "name_char c"
  shows "\<not> ldf_blank c" "\<not> is_space c" "c \<noteq> CHR '','' " "c \<noteq> CHR '':''" "c \<noteq> CHR '';''" "c \<noteq> CHR ''{''"
    "c \<noteq> CHR ''}''" "c \<noteq> CHR ''/''" "c \<noteq> CHR 0x0A" "c \<noteq> CHR 0x22"
  using assms by (auto simp: name_char_def ldf_blank_def is_space_def Let_def)

lemma digit_name_char: "digit_val 10 c \<noteq> None \<Longrightarrow> name_char c"
  by (auto simp: digit_val_def name_char_def Let_def split: if_splits)

lemma decimal_name_ok: "name_ok (decimal n)"
proof -
  have "name_char c" if "c \<in> set (decimal n)" for c
    using that by (intro digit_name_char decimal_digits)
  then show ?thesis by (simp add: name_ok_def)
qed

lemma name_ok_ends: "name_ok s \<Longrightarrow> s \<noteq> [] \<and> name_char (hd s) \<and> name_char (last s)"
  by (auto simp: name_ok_def)

lemma trim_name [simp]: "name_ok s \<Longrightarrow> trim s = s"
  by (auto simp: name_ok_def name_char_not intro: trim_id)

lemma strip_semicolon_name [simp]: "name_ok s \<Longrightarrow> strip_semicolon s = s"
  by (rule strip_semicolon_id) (auto simp: name_ok_def dest: name_char_not)

lemma decimal_not_hex: "\<not> hex_prefixed (decimal n)"
proof
  assume h: "hex_prefixed (decimal n)"
  then have "decimal n ! 1 = CHR ''x'' \<or> decimal n ! 1 = CHR ''X''"
    by (cases "decimal n"; cases "tl (decimal n)") (auto simp: hex_prefixed_def)
  moreover have "decimal n ! 1 \<in> set (decimal n)" using h by (intro nth_mem) (simp add: hex_prefixed_def)
  then have "digit_val 10 (decimal n ! 1) \<noteq> None" by (rule decimal_digits)
  ultimately show False by (auto simp: digit_val_def)
qed

lemma stoll_decimal: "n < 2 ^ 63 \<Longrightarrow> stoll 10 (decimal n) = Inr (int n)"
  using strto_decimal [of "[]" n] by (simp add: stoll_def)

lemma parse_int_decimal: "n < 2 ^ 63 \<Longrightarrow> parse_int (decimal n) = Inr (int n)"
  by (simp add: parse_int_def decimal_name_ok decimal_not_hex stoll_decimal)

subsection \<open>Integers through \<open>double\<close>\<close>

lemma digits_of_decimal: "digits_of 10 (decimal n) = decimal n"
  unfolding digits_of_def by (rule takeWhile_eq_all_conv [THEN iffD2]) (intro ballI decimal_digits)

lemma mantissa_decimal: "mantissa 10 (decimal n) = Some (decimal n, 0, [])"
  by (simp add: mantissa_def digits_of_decimal Let_def)

text \<open>A digit starts neither a hexadecimal prefix's second character, nor infinity, nor a NaN.\<close>

lemma decimal_head:
  obtains c cs where "decimal n = c # cs" "digit_val 10 c \<noteq> None" "\<forall>d\<in>set cs. digit_val 10 d \<noteq> None"
proof (cases "decimal n")
  case (Cons c cs)
  then show thesis using that decimal_digits [of _ n] by simp
qed simp

lemma digit_lower: "digit_val 10 c \<noteq> None \<Longrightarrow> to_lower c = c"
  by (auto simp: digit_val_def to_lower_def Let_def split: if_splits)

lemma stod_decimal: "stod (decimal n) = scale False 10 n 0"
proof -
  obtain c cs where c: "decimal n = c # cs" "digit_val 10 c \<noteq> None" "\<forall>d\<in>set cs. digit_val 10 d \<noteq> None"
    by (rule decimal_head)
  have low: "map to_lower (decimal n) = decimal n"
    using c digit_lower by (auto intro: map_idI)
  have front: "dropWhile is_space (decimal n) = decimal n" "hd (decimal n) \<noteq> CHR ''-''" "hd (decimal n) \<noteq> CHR ''+''"
    using c digit_not_space digit_not_sign by auto
  have no: "take 2 (decimal n) \<noteq> ''0x''"
    using c(3) by (cases cs) (auto simp: c(1) digit_val_def)
  have no3: "take 3 (decimal n) \<noteq> ''inf''" "take 3 (decimal n) \<noteq> ''nan''"
    using c(2) by (auto simp: c(1) digit_val_def)
  show ?thesis
    by (simp add: stod_def front low no no3 mantissa_decimal decimal_value exponent_def)
qed

lemma parse_uint_small: "n < 2 ^ 53 \<Longrightarrow> parse_uint (decimal n) = Ret (Inr (of_nat n))"
proof -
  assume "n < 2 ^ 53"
  then obtain m e where "scale False 10 n 0 = Inr (Finite False m e)" "double_to_u64 (Finite False m e) = Ret (of_nat n)"
    by (rule scale_exact)
  then show ?thesis by (simp add: parse_uint_def decimal_name_ok decimal_not_hex stod_decimal)
qed

subsection \<open>Lists of names\<close>

fun comma_join :: "string list \<Rightarrow> string" where
  "comma_join [] = []"
| "comma_join [p] = p"
| "comma_join (p # q # ps) = p @ '', '' @ comma_join (q # ps)"

lemma comma_join_ends:
  "\<forall>p\<in>set ps. name_ok p \<Longrightarrow> ps \<noteq> [] \<Longrightarrow>
    comma_join ps \<noteq> [] \<and> name_char (hd (comma_join ps)) \<and> name_char (last (comma_join ps))"
  by (induction ps rule: comma_join.induct) (auto dest: name_ok_ends)

lemma comma_join_chars:
  "\<forall>p\<in>set ps. name_ok p \<Longrightarrow> c \<in> set (comma_join ps) \<Longrightarrow> name_char c \<or> c = CHR '','' \<or> c = CHR '' ''"
  by (induction ps rule: comma_join.induct) (auto simp: name_ok_def)

lemma comma_parts_join:
  assumes "\<forall>p\<in>set ps. name_ok p" "\<forall>c\<in>set pre. ldf_blank c" "ps \<noteq> []"
  shows "comma_parts (pre @ comma_join ps) = ps"
  using assms
proof (induction ps arbitrary: pre rule: comma_join.induct)
  have no: "CHR '','' \<notin> set (pre @ p)" if "name_ok p" "\<forall>c\<in>set pre. ldf_blank c" for pre p
  proof -
    have "\<not> ldf_blank (CHR '','')" "\<not> name_char (CHR '','')" by (simp_all add: ldf_blank_def name_char_def)
    then show ?thesis using that unfolding name_ok_def set_append by blast
  qed
  have tr: "trim (pre @ p) = p" if "name_ok p" "\<forall>c\<in>set pre. ldf_blank c" for pre p
    using that name_ok_ends [OF that(1)] trim_around [of p pre "[]"] by (simp add: name_char_not(1))
  {
    case (2 p)
    then have p: "name_ok p" and pre: "\<forall>c\<in>set pre. ldf_blank c" by simp_all
    have "getlines (CHR '','') (pre @ p) = [pre @ p]"
      using name_ok_ends [OF p] by (intro getlines_single no [OF p pre]) simp
    then show ?case using tr [OF p pre] by (simp add: comma_parts_def)
  next
    case (3 p q ps)
    then have p: "name_ok p" and pre: "\<forall>c\<in>set pre. ldf_blank c" by simp_all
    have "comma_parts (pre @ comma_join (p # q # ps)) = p # comma_parts ('' '' @ comma_join (q # ps))"
      using getlines_Cons [OF no [OF p pre], of "'' '' @ comma_join (q # ps)"] tr [OF p pre]
      by (simp add: comma_parts_def)
    also have "comma_parts ('' '' @ comma_join (q # ps)) = q # ps"
      using 3(2) by (intro 3(1)) (simp_all add: ldf_blank_def)
    finally show ?case .
  }
qed simp

lemma nonempty_parts_join:
  "\<forall>p\<in>set ps. name_ok p \<Longrightarrow> nonempty_parts (comma_join ps) = ps"
  using comma_parts_join [of ps "[]"]
  by (cases "ps = []") (auto simp: nonempty_parts_def comma_parts_def name_ok_def intro!: filter_True)

lemma nonempty_parts_name: "name_ok p \<Longrightarrow> nonempty_parts p = [p]"
  using nonempty_parts_join [of "[p]"] by simp

lemma strip_semicolon_line:
  "l \<noteq> [] \<Longrightarrow> \<not> ldf_blank (hd l) \<Longrightarrow> \<not> ldf_blank (last l) \<Longrightarrow> strip_semicolon (l @ '' ;'') = l"
  using trim_around [of l "[]" "'' ''"] trim_around [of "l @ '' ;''" "[]" "[]"]
  by (simp add: strip_semicolon_def Let_def ldf_blank_def butlast_append)

subsection \<open>The canonical text\<close>

record ldf_file =
  lf_protocol :: string
  lf_language :: string
  lf_speed :: string
  lf_master :: string
  lf_slaves :: "string list"
  lf_signal_list :: "signal list"
  lf_frame_list :: "ldf_frame list"
  lf_tables :: "(string \<times> schedule_entry list) list"

definition print_signal :: "signal \<Rightarrow> string" where
  "print_signal sg =
    sg_name sg @ '' : '' @ comma_join (decimal (nat (sg_width sg)) # decimal (unat (sg_init sg)) # sg_publisher sg # sg_subscribers sg) @ '' ;''"

definition print_ref :: "signal_ref \<Rightarrow> string" where
  "print_ref r = comma_join [sr_name r, decimal (nat (sr_offset r))] @ '' ;''"

definition print_frame :: "ldf_frame \<Rightarrow> string list" where
  "print_frame fr =
    (lf_name fr @ '' : '' @ comma_join [decimal (unat (lf_id fr)), lf_publisher fr, decimal (nat (lf_length fr))] @ '' {'')
      # map print_ref (lf_signals fr) @ [''}'']"

definition name_of_id :: "ldf_frame list \<Rightarrow> u8 \<Rightarrow> string" where
  "name_of_id frs i = (case find (\<lambda>fr. lf_id fr = i) frs of None \<Rightarrow> [] | Some fr \<Rightarrow> lf_name fr)"

definition print_entry :: "ldf_frame list \<Rightarrow> schedule_entry \<Rightarrow> string" where
  "print_entry frs e = name_of_id frs (se_id e) @ '' delay '' @ decimal (unat (se_delay_ms e)) @ '' ms ;''"

definition print_table :: "ldf_frame list \<Rightarrow> string \<times> schedule_entry list \<Rightarrow> string list" where
  "print_table frs t = (fst t @ '' {'') # map (print_entry frs) (snd t) @ [''}'']"

definition print_lines :: "ldf_file \<Rightarrow> string list" where
  "print_lines f =
    [''LIN_description_file ;'',
     ''LIN_protocol_version = '' @ CHR 0x22 # lf_protocol f @ CHR 0x22 # '' ;'',
     ''LIN_language_version = '' @ CHR 0x22 # lf_language f @ CHR 0x22 # '' ;'',
     ''LIN_speed = '' @ lf_speed f @ '' kbps ;'',
     ''Nodes {'',
     ''Master: '' @ lf_master f @ '', 1 ms, 0.1 ms ;'',
     ''Slaves: '' @ comma_join (lf_slaves f) @ '' ;'',
     ''}'', ''Signals {''] @ map print_signal (lf_signal_list f) @ [''}'', ''Frames {''] @
    concat (map print_frame (lf_frame_list f)) @ [''}'', ''Schedule_tables {''] @
    concat (map (print_table (lf_frame_list f)) (lf_tables f)) @ [''}'']"

definition print_ldf :: "ldf_file \<Rightarrow> string" where
  "print_ldf f = concat (map (\<lambda>l. '' '' @ l @ [CHR 0x0A]) (print_lines f))"

subsection \<open>What can be printed\<close>

definition signal_fits :: "signal \<Rightarrow> bool" where
  "signal_fits sg \<longleftrightarrow>
    name_ok (sg_name sg) \<and> 0 \<le> sg_width sg \<and> sg_width sg \<le> 64 \<and> unat (sg_init sg) < 2 ^ 53 \<and>
    name_ok (sg_publisher sg) \<and> (\<forall>s\<in>set (sg_subscribers sg). name_ok s) \<and>
    sg = empty_signal\<lparr>sg_name := sg_name sg, sg_width := sg_width sg, sg_init := sg_init sg,
           sg_publisher := sg_publisher sg, sg_subscribers := sg_subscribers sg\<rparr>"

definition ref_fits :: "signal_ref \<Rightarrow> bool" where
  "ref_fits r \<longleftrightarrow> name_ok (sr_name r) \<and> 0 \<le> sr_offset r \<and> sr_offset r < 2 ^ 31"

definition frame_fits :: "ldf_frame \<Rightarrow> bool" where
  "frame_fits fr \<longleftrightarrow>
    name_ok (lf_name fr) \<and> \<not> starts ''AssignFrameId'' (lf_name fr) \<and> name_ok (lf_publisher fr) \<and>
    0 \<le> lf_length fr \<and> lf_length fr < 2 ^ 31 \<and> (\<forall>r\<in>set (lf_signals fr). ref_fits r)"

definition file_fits :: "ldf_file \<Rightarrow> bool" where
  "file_fits f \<longleftrightarrow>
    name_ok (lf_protocol f) \<and> name_ok (lf_language f) \<and> name_ok (lf_speed f) \<and> name_ok (lf_master f) \<and>
    (\<forall>s\<in>set (lf_slaves f). name_ok s) \<and>
    (\<forall>sg\<in>set (lf_signal_list f). signal_fits sg) \<and> distinct (map sg_name (lf_signal_list f)) \<and>
    (\<forall>fr\<in>set (lf_frame_list f). frame_fits fr) \<and>
    distinct (map lf_id (lf_frame_list f)) \<and> distinct (map lf_name (lf_frame_list f)) \<and>
    (\<forall>t\<in>set (lf_tables f). name_ok (fst t) \<and>
       (\<forall>e\<in>set (snd t). se_id e \<le> kLINMaxID \<and> se_id e \<in> lf_id ` set (lf_frame_list f))) \<and>
    distinct (map fst (lf_tables f))"

text \<open>The database the file describes.\<close>

definition db_of_file :: "ldf_file \<Rightarrow> cdouble \<Rightarrow> ldf_db" where
  "db_of_file f speed =
    \<lparr>protocol_version = lf_protocol f, language_version = lf_language f, db_speed = speed,
     master_node = lf_master f, slave_nodes = lf_slaves f,
     db_frames = map_of (map (\<lambda>fr. (lf_id fr, fr)) (lf_frame_list f)),
     db_signals = map_of (map (\<lambda>sg. (sg_name sg, sg)) (lf_signal_list f)),
     db_schedules = map_of (lf_tables f)\<rparr>"

subsection \<open>Signals\<close>

lemma int32_width [simp]: "0 \<le> w \<Longrightarrow> w \<le> 64 \<Longrightarrow> int32_of_int w = w"
  by (intro int32_small) simp_all

lemma colon_split:
  assumes "name_ok n" "\<forall>p\<in>set ps. name_ok p" "ps \<noteq> []"
  shows "find_if (\<lambda>c. c = CHR '':'') (n @ '' : '' @ comma_join ps) = Some (Suc (length n))"
    and "trim (n @ '' '') = n" and "comma_parts (trim ('' '' @ comma_join ps)) = ps"
proof -
  have e: "comma_join ps \<noteq> []" "name_char (hd (comma_join ps))" "name_char (last (comma_join ps))"
    using comma_join_ends [OF assms(2,3)] by simp_all
  have n: "n \<noteq> []" "name_char (hd n)" "name_char (last n)" using name_ok_ends [OF assms(1)] by simp_all
  have "\<forall>c\<in>set (n @ '' ''). c \<noteq> CHR '':''" using assms(1) by (auto simp: name_ok_def dest: name_char_not(4))
  then show "find_if (\<lambda>c. c = CHR '':'') (n @ '' : '' @ comma_join ps) = Some (Suc (length n))"
    using find_if_append [of "n @ '' ''" "\<lambda>c. c = CHR '':''" "CHR '':''" "'' '' @ comma_join ps"] by simp
  show "trim (n @ '' '') = n"
    using trim_around [of n "[]" "'' ''"] n by (simp add: name_char_not(1) ldf_blank_def [of "CHR '' ''"])
  have "trim ('' '' @ comma_join ps) = comma_join ps"
    using trim_around [of "comma_join ps" "'' ''" "[]"] e by (simp add: name_char_not(1) ldf_blank_def [of "CHR '' ''"])
  then show "comma_parts (trim ('' '' @ comma_join ps)) = ps"
    using comma_parts_join [OF assms(2), of "[]"] assms(3) by simp
qed

lemma strip_colon_line:
  assumes "name_ok n" "\<forall>p\<in>set ps. name_ok p" "ps \<noteq> []"
  shows "strip_semicolon (n @ '' : '' @ comma_join ps @ '' ;'') = n @ '' : '' @ comma_join ps"
proof -
  have "strip_semicolon ((n @ '' : '' @ comma_join ps) @ '' ;'') = n @ '' : '' @ comma_join ps"
    using comma_join_ends [OF assms(2,3)] name_ok_ends [OF assms(1)]
    by (intro strip_semicolon_line) (simp_all add: name_char_not(1))
  then show ?thesis by simp
qed

lemma signal_line_print:
  assumes "signal_fits sg"
  shows "signal_line (print_signal sg) db = Ret (db\<lparr>db_signals := (db_signals db)(sg_name sg \<mapsto> sg)\<rparr>)"
proof -
  define ps where "ps = decimal (nat (sg_width sg)) # decimal (unat (sg_init sg)) # sg_publisher sg # sg_subscribers sg"
  have ps: "\<forall>p\<in>set ps. name_ok p" "ps \<noteq> []" and n: "name_ok (sg_name sg)"
    using assms by (simp_all add: ps_def signal_fits_def decimal_name_ok)
  have w: "nat (sg_width sg) < 2 ^ 63" "0 \<le> sg_width sg" "sg_width sg \<le> 64" "unat (sg_init sg) < 2 ^ 53"
    and pub: "name_ok (sg_publisher sg)" using assms by (simp_all add: signal_fits_def nat_less_iff)
  have subs: "concat (map nonempty_parts (sg_subscribers sg)) = sg_subscribers sg"
    using assms by (simp add: signal_fits_def nonempty_parts_name cong: map_cong)
  have line: "print_signal sg = sg_name sg @ '' : '' @ comma_join ps @ '' ;''" by (simp add: print_signal_def ps_def)
  have sig: "empty_signal\<lparr>sg_name := sg_name sg, sg_width := clamp_width (int32_of_int (int (nat (sg_width sg)))),
      sg_init := of_nat (unat (sg_init sg)), sg_publisher := trim (sg_publisher sg),
      sg_subscribers := concat (map nonempty_parts (sg_subscribers sg))\<rparr> = sg"
    using assms w(2,3) pub by (simp add: subs clamp_width_def signal_fits_def)
  have take: "take (Suc (length (sg_name sg))) (sg_name sg @ '' : '' @ comma_join ps) = sg_name sg @ '' ''"
    "drop (Suc (length (sg_name sg)) + 1) (sg_name sg @ '' : '' @ comma_join ps) = '' '' @ comma_join ps"
    by simp_all
  have parts: "\<not> length ps < 3" "ps ! 0 = decimal (nat (sg_width sg))" "ps ! 1 = decimal (unat (sg_init sg))"
    "ps ! 2 = sg_publisher sg" "drop 3 ps = sg_subscribers sg" by (simp_all add: ps_def)
  show ?thesis
    using parts(1)
    unfolding signal_line_def line strip_colon_line [OF n ps] Let_def colon_split [OF n ps] option.case take parts
      parse_int_decimal [OF w(1)] parse_uint_small [OF w(4)] obind.simps map_sum.simps or_keep_simps sig
    by (rule if_not_P)
qed

lemma brace_not_printed: "name_ok n \<Longrightarrow> n @ l \<noteq> ''}''"
  by (cases n) (auto simp: name_ok_def name_char_def Let_def)

lemma signals_loop_print:
  "\<forall>sg\<in>set sgs. signal_fits sg \<Longrightarrow>
    signals_loop (map print_signal sgs @ ''}'' # rest) db =
      Ret (rest, db\<lparr>db_signals := db_signals db ++ map_of (rev (map (\<lambda>sg. (sg_name sg, sg)) sgs))\<rparr>)"
proof (induction sgs arbitrary: db)
  case (Cons sg sgs)
  then have f: "signal_fits sg" by simp
  then have "name_ok (sg_name sg)" by (simp add: signal_fits_def)
  then have "print_signal sg \<noteq> ''}''" unfolding print_signal_def by (rule brace_not_printed)
  then show ?case using Cons signal_line_print [OF f] by (simp add: map_add_upd_left [symmetric])
qed simp

subsection \<open>Frames\<close>

lemma ref_line_print: "ref_fits r \<Longrightarrow> ref_line (print_ref r) = [r]"
proof -
  assume r: "ref_fits r"
  define d where "d = decimal (nat (sr_offset r))"
  have n: "name_ok (sr_name r)" and o: "nat (sr_offset r) < 2 ^ 63" "0 \<le> sr_offset r" "sr_offset r < 2 ^ 31"
    and d: "name_ok d"
    using r by (simp_all add: ref_fits_def d_def decimal_name_ok nat_less_iff)
  have ends: "comma_join [sr_name r, d] \<noteq> [] \<and> name_char (hd (comma_join [sr_name r, d])) \<and>
      name_char (last (comma_join [sr_name r, d]))"
    using n d by (intro comma_join_ends) simp_all
  have line: "strip_semicolon (print_ref r) = sr_name r @ CHR '','' # '' '' @ d"
    using strip_semicolon_line [of "comma_join [sr_name r, d]"] ends
    by (simp add: print_ref_def d_def name_char_not(1))
  have comma: "find_if (\<lambda>c. c = CHR '','') (sr_name r @ CHR '','' # '' '' @ d) = Some (length (sr_name r))"
    using n by (intro find_if_append) (auto simp: name_ok_def dest: name_char_not(3))
  have "trim ('' '' @ d) = d"
    using trim_around [of d "'' ''" "[]"] name_ok_ends [OF d] by (simp add: name_char_not(1) ldf_blank_def [of "CHR '' ''"])
  then have "trim (drop (length (sr_name r) + 1) (sr_name r @ CHR '','' # '' '' @ d)) = d" by simp
  moreover have "or_keep (map_sum id int32_of_int (parse_int d)) 0 = sr_offset r"
    using parse_int_decimal [OF o(1)] int32_small [OF o(2,3)] o(2) by (simp add: d_def)
  ultimately show ?thesis
    unfolding ref_line_def line Let_def comma option.case using n by (simp add: trim_name)
qed

lemma refs_loop_print:
  "\<forall>r\<in>set rs. ref_fits r \<Longrightarrow> refs_loop (map print_ref rs @ ''}'' # rest) acc = (rest, acc @ rs)"
proof (induction rs arbitrary: acc)
  case (Cons r rs)
  then have f: "ref_fits r" by simp
  then have n: "name_ok (sr_name r)" by (simp add: ref_fits_def)
  have "print_ref r \<noteq> ''}''"
    unfolding print_ref_def comma_join.simps append_assoc using n by (rule brace_not_printed)
  then show ?case using Cons ref_line_print [OF f] by simp
qed simp

lemma word_of_unat [simp]: "word_of_int (int (unat (w :: 'a::len word))) = w"
  by simp

lemma frame_header_print:
  assumes "frame_fits fr"
  shows "frame_header (lf_name fr @ '' : '' @ comma_join [decimal (unat (lf_id fr)), lf_publisher fr, decimal (nat (lf_length fr))] @ '' {'')
    = Some (fr\<lparr>lf_signals := []\<rparr>)"
proof -
  define ps where "ps = [decimal (unat (lf_id fr)), lf_publisher fr, decimal (nat (lf_length fr))]"
  define h where "h = lf_name fr @ '' : '' @ comma_join ps"
  have n: "name_ok (lf_name fr)" and pub: "name_ok (lf_publisher fr)"
    and len: "nat (lf_length fr) < 2 ^ 63" "0 \<le> lf_length fr" "lf_length fr < 2 ^ 31"
    using assms by (simp_all add: frame_fits_def nat_less_iff)
  have id63: "unat (lf_id fr) < 2 ^ 63" using u8_unat_less [of "lf_id fr"] by simp
  have ps: "\<forall>p\<in>set ps. name_ok p" "ps \<noteq> []" using pub by (simp_all add: ps_def decimal_name_ok)
  have brace: "find_last_if (\<lambda>c. c = CHR ''{'') (h @ '' {'') = Some (length h + 1)"
    using find_last_if_append [of "[]" "\<lambda>c. c = CHR ''{''" "CHR ''{''" "h @ '' ''"] by simp
  have "h \<noteq> []" "\<not> ldf_blank (hd h)" "\<not> ldf_blank (last h)"
    using name_ok_ends [OF n] comma_join_ends [OF ps] by (simp_all add: h_def name_char_not(1))
  then have hdr: "trim (take (length h + 1) (h @ '' {'')) = h"
    using trim_around [of h "[]" "'' ''"] by (simp add: ldf_blank_def [of "CHR '' ''"])
  have take: "take (Suc (length (lf_name fr))) h = lf_name fr @ '' ''"
    "drop (Suc (length (lf_name fr)) + 1) h = '' '' @ comma_join ps" by (simp_all add: h_def)
  have parts: "3 \<le> length ps" "ps ! 0 = decimal (unat (lf_id fr))" "ps ! 1 = lf_publisher fr"
    "ps ! 2 = decimal (nat (lf_length fr))" by (simp_all add: ps_def)
  have "frame_header (h @ '' {'') = Some (fr\<lparr>lf_signals := []\<rparr>)"
    using parts(1) pub len int32_small [OF len(2,3)]
    unfolding frame_header_def brace option.case hdr Let_def colon_split [OF n ps, folded h_def] take parts
      parse_int_decimal [OF len(1)] parse_int_decimal [OF id63]
    by (simp add: empty_ldf_frame_def)
  then show ?thesis by (simp add: h_def ps_def)
qed

lemma brace_in_header: "find_if (\<lambda>c. c = CHR ''{'') (l @ '' {'') \<noteq> None"
  by (simp add: find_if_None)

lemma frames_loop_print:
  "\<forall>fr\<in>set frs. frame_fits fr \<Longrightarrow>
    frames_loop (concat (map print_frame frs) @ ''}'' # rest) db =
      (rest, db\<lparr>db_frames := db_frames db ++ map_of (rev (map (\<lambda>fr. (lf_id fr, fr)) frs))\<rparr>)"
proof (induction frs arbitrary: db)
  case (Cons fr frs)
  define l where "l = lf_name fr @ '' : '' @ comma_join [decimal (unat (lf_id fr)), lf_publisher fr, decimal (nat (lf_length fr))]"
  define more where "more = concat (map print_frame frs) @ ''}'' # rest"
  from Cons.prems have f: "frame_fits fr" by simp
  then have n: "name_ok (lf_name fr)" and refs: "\<forall>r\<in>set (lf_signals fr). ref_fits r" by (simp_all add: frame_fits_def)
  have nb: "l @ '' {'' \<noteq> ''}''" unfolding l_def append_assoc using n by (rule brace_not_printed)
  have fr: "print_frame fr = (l @ '' {'') # map print_ref (lf_signals fr) @ [''}'']" by (simp add: print_frame_def l_def)
  have hdr: "frame_header (l @ '' {'') = Some (fr\<lparr>lf_signals := []\<rparr>)"
    using frame_header_print [OF f] by (simp add: l_def)
  have "frames_loop ((l @ '' {'') # map print_ref (lf_signals fr) @ ''}'' # more) db
      = frames_loop more (db\<lparr>db_frames := (db_frames db)(lf_id fr \<mapsto> fr)\<rparr>)"
    using refs_loop_print [OF refs, of more "[]"] brace_in_header [of l]
    by (simp only: frames_loop.simps nb if_False hdr option.case prod.case append_Nil) simp
  also have "\<dots> = (rest, db\<lparr>db_frames := (db_frames db)(lf_id fr \<mapsto> fr) ++ map_of (rev (map (\<lambda>fr. (lf_id fr, fr)) frs))\<rparr>)"
    using Cons by (simp add: more_def)
  finally show ?case by (simp add: fr more_def map_add_upd_left [symmetric] del: frames_loop.simps)
qed simp

subsection \<open>Schedule tables\<close>

lemma stream_words_Cons:
  assumes "\<forall>c\<in>set w. \<not> is_space c" "w \<noteq> []"
  shows "stream_words (w @ CHR '' '' # rest) = w # stream_words rest" and "stream_words w = [w]"
    and "stream_words (CHR '' '' # s) = stream_words s"
proof -
  have sp: "is_space (CHR '' '')" by (simp add: is_space_def)
  have nil: "stream_words [] = []" by (simp add: stream_words.simps)
  have skip: "stream_words (CHR '' '' # s) = stream_words s" for s
    by (subst (1 2) stream_words.simps) (simp add: sp)
  then show "stream_words (CHR '' '' # s) = stream_words s" .
  have d: "dropWhile is_space (w @ t) = w @ t" for t
    using assms by (cases w) simp_all
  have t: "takeWhile (\<lambda>c. \<not> is_space c) (w @ CHR '' '' # rest) = w"
    "dropWhile (\<lambda>c. \<not> is_space c) (w @ CHR '' '' # rest) = CHR '' '' # rest"
    using assms(1) sp by (simp_all add: takeWhile_append dropWhile_append)
  show "stream_words (w @ CHR '' '' # rest) = w # stream_words rest"
    by (subst stream_words.simps) (simp add: d t skip)
  have "takeWhile (\<lambda>c. \<not> is_space c) w = w" "dropWhile (\<lambda>c. \<not> is_space c) w = []"
    using assms(1) by (simp_all add: takeWhile_eq_all_conv)
  then show "stream_words w = [w]"
    by (subst stream_words.simps) (simp only: Let_def d [of "[]", simplified] assms(2) nil if_False)
qed

lemma name_words: "name_ok w \<Longrightarrow> (\<forall>c\<in>set w. \<not> is_space c) \<and> w \<noteq> []"
  by (auto simp: name_ok_def dest: name_char_not(2))

lemma starts_append: "starts p (n @ CHR '' '' # s) \<Longrightarrow> CHR '' '' \<notin> set p \<Longrightarrow> starts p n"
proof -
  assume s: "starts p (n @ CHR '' '' # s)" and p: "CHR '' '' \<notin> set p"
  show "starts p n"
  proof (cases "length p \<le> length n")
    case False
    then have "p ! length n = CHR '' ''" using s by (metis nth_append_length nth_take starts_def not_le)
    then show ?thesis using p False by (metis nth_mem not_le)
  qed (use s in \<open>simp add: starts_def\<close>)
qed

lemma frame_named_unique:
  assumes "db_frames db i = Some fr" "\<forall>j fr'. db_frames db j = Some fr' \<and> lf_name fr' = lf_name fr \<longrightarrow> j = i"
  shows "frame_named db (lf_name fr) = i"
proof -
  define P where "P = (\<lambda>i. case db_frames db i of None \<Rightarrow> False | Some fr' \<Rightarrow> lf_name fr' = lf_name fr)"
  have P: "P j \<longleftrightarrow> j = i" for j using assms by (auto simp: P_def split: option.split)
  have "unat i \<in> set [0..<256]" using u8_unat_less [of i] by simp
  then have "i \<in> set (map word_of_nat [0..<256])" by (auto simp del: upt_rec_numeral intro!: image_eqI [of _ _ "unat i"])
  then have "find P (map word_of_nat [0..<256]) = Some i"
    using P find_None_iff [of P "map word_of_nat [0..<256]"] find_Some_iff [of P "map word_of_nat [0..<256]"]
    by (cases "find P (map word_of_nat [0..<256])") (blast, metis)
  then show ?thesis by (simp add: frame_named_def P_def)
qed

lemma entry_line_print:
  assumes "db_frames db (se_id e) = Some fr" "name_of_id frs (se_id e) = lf_name fr" "frame_fits fr"
    "frame_named db (lf_name fr) = se_id e" "se_id e \<le> kLINMaxID"
  shows "entry_line (print_entry frs e) db = Ret [e]"
proof -
  define d where "d = decimal (unat (se_delay_ms e))"
  have n: "name_ok (lf_name fr)" and a: "\<not> starts ''AssignFrameId'' (lf_name fr)"
    using assms(3) by (simp_all add: frame_fits_def)
  have d: "name_ok d" by (simp add: d_def decimal_name_ok)
  have line: "strip_semicolon (print_entry frs e) = lf_name fr @ '' delay '' @ d @ '' ms''"
    using strip_semicolon_line [of "lf_name fr @ '' delay '' @ d @ '' ms''"] name_ok_ends [OF n]
    by (simp add: print_entry_def assms(2) d_def name_char_not(1) ldf_blank_def [of "CHR ''s''"])
  have "\<not> starts ''AssignFrameId'' (lf_name fr @ '' delay '' @ d @ '' ms'')"
    using a starts_append [of "''AssignFrameId''" "lf_name fr" "''delay '' @ d @ '' ms''"] by auto
  moreover have "stream_words (lf_name fr @ '' delay '' @ d @ '' ms'') = [lf_name fr, ''delay'', d, ''ms'']"
    using stream_words_Cons(1) [of "lf_name fr" "''delay '' @ d @ '' ms''"] stream_words_Cons(1) [of "''delay''" "d @ '' ms''"]
      stream_words_Cons(1) [of d "''ms''"] stream_words_Cons(2) [of "''ms''"] name_words [OF n] name_words [OF d]
    by (simp add: is_space_def)
  moreover have "map to_lower ''delay'' = ''delay''" by (simp add: to_lower_def)
  moreover have "unat (se_delay_ms e) < 2 ^ 53"
    using unsigned_less [of "se_delay_ms e", where 'a = nat] by simp
  then have "parse_uint d = Ret (Inr (of_nat (unat (se_delay_ms e))))" unfolding d_def by (rule parse_uint_small)
  moreover have "ucast (of_nat (unat (se_delay_ms e)) :: u64) = se_delay_ms e"
    by (rule unat_eqI) (simp add: unsigned_ucast_eq take_bit_word_eq_self)
  ultimately show ?thesis using assms(4,5) by (simp add: entry_line_def line)
qed

lemma entries_loop_print:
  assumes "\<forall>e\<in>set es. name_ok (name_of_id frs (se_id e)) \<and> entry_line (print_entry frs e) db = Ret [e]"
  shows "entries_loop (map (print_entry frs) es @ ''}'' # rest) db acc = Ret (rest, acc @ es)"
  using assms
proof (induction es arbitrary: acc)
  case (Cons e es)
  then have n: "name_ok (name_of_id frs (se_id e))" by simp
  have "print_entry frs e \<noteq> ''}''" unfolding print_entry_def using n by (rule brace_not_printed)
  then show ?case using Cons by simp
qed simp

lemma tables_loop_print:
  assumes "\<forall>t\<in>set ts. name_ok (fst t) \<and>
      (\<forall>e\<in>set (snd t). name_ok (name_of_id frs (se_id e)) \<and>
         (\<forall>db. db_frames db = fm \<longrightarrow> entry_line (print_entry frs e) db = Ret [e]))"
    and "db_frames db = fm"
  shows "tables_loop (concat (map (print_table frs) ts) @ ''}'' # rest) db =
    Ret (rest, db\<lparr>db_schedules := db_schedules db ++ map_of (rev ts)\<rparr>)"
  using assms
proof (induction ts arbitrary: db)
  case (Cons t ts)
  define more where "more = concat (map (print_table frs) ts) @ ''}'' # rest"
  have n: "name_ok (fst t)" using Cons.prems(1) by simp
  have e: "entries_loop (map (print_entry frs) (snd t) @ ''}'' # more) db [] = Ret (more, [] @ snd t)"
    using Cons.prems by (intro entries_loop_print) simp
  have tr: "trim (butlast (fst t @ '' {'')) = fst t"
    using trim_around [of "fst t" "[]" "'' ''"] name_ok_ends [OF n]
    by (simp add: butlast_append name_char_not(1) ldf_blank_def [of "CHR '' ''"])
  have nb: "fst t @ '' {'' \<noteq> ''}''" using n by (rule brace_not_printed)
  have "tables_loop ((fst t @ '' {'') # map (print_entry frs) (snd t) @ ''}'' # more) db
      = tables_loop more (db\<lparr>db_schedules := (db_schedules db)(fst t \<mapsto> snd t)\<rparr>)"
    using e nb tr by (subst tables_loop.simps) simp
  also have "\<dots> = Ret (rest, db\<lparr>db_schedules := (db_schedules db)(fst t \<mapsto> snd t) ++ map_of (rev ts)\<rparr>)"
    using Cons by (simp add: more_def)
  finally have step: "tables_loop (print_table frs t @ more) db =
      Ret (rest, db\<lparr>db_schedules := (db_schedules db)(fst t \<mapsto> snd t) ++ map_of (rev ts)\<rparr>)"
    by (simp add: print_table_def del: tables_loop.simps)
  have "db_schedules db ++ map_of (rev (t # ts)) = (db_schedules db)(fst t \<mapsto> snd t) ++ map_of (rev ts)"
    by (cases t) (simp add: map_add_upd_left [symmetric])
  then show ?case using step by (simp add: more_def)
qed simp

subsection \<open>Text and lines\<close>

definition line_ok :: "string \<Rightarrow> bool" where
  "line_ok l \<longleftrightarrow> l \<noteq> [] \<and> \<not> ldf_blank (hd l) \<and> \<not> ldf_blank (last l) \<and> CHR ''/'' \<notin> set l \<and> CHR 0x0A \<notin> set l"

lemma find_sub_none: "c \<notin> set s \<Longrightarrow> find_sub (c # p) s = None"
  by (induction s) auto

lemma strip_comment_line: "line_ok l \<Longrightarrow> strip_comment ('' '' @ l) = l"
  using find_sub_none [of "CHR ''/''" "'' '' @ l" "''/''"] trim_around [of l "'' ''" "[]"]
  by (simp add: strip_comment_def line_ok_def ldf_blank_def [of "CHR '' ''"])

lemma parse_lines_print:
  "\<forall>l\<in>set ls. line_ok l \<Longrightarrow> parse_lines (concat (map (\<lambda>l. '' '' @ l @ [CHR 0x0A]) ls)) = ls"
proof (induction ls)
  case (Cons l ls)
  then have l: "line_ok l" by simp
  then have "CHR 0x0A \<notin> set ('' '' @ l)" by (simp add: line_ok_def)
  then have "getlines (CHR 0x0A) (('' '' @ l) @ CHR 0x0A # concat (map (\<lambda>l. '' '' @ l @ [CHR 0x0A]) ls))
      = ('' '' @ l) # getlines (CHR 0x0A) (concat (map (\<lambda>l. '' '' @ l @ [CHR 0x0A]) ls))"
    by (rule getlines_Cons)
  moreover have "l \<noteq> []" using l by (simp add: line_ok_def)
  ultimately show ?case using Cons strip_comment_line [OF l] by (simp add: parse_lines_def)
qed (simp add: parse_lines_def)

text \<open>A printed line starts with a name or a keyword and holds nothing but names, separators and quotes.\<close>

definition text_char :: "char \<Rightarrow> bool" where
  "text_char c \<longleftrightarrow> c \<noteq> CHR ''/'' \<and> c \<noteq> CHR 0x0A"

lemma line_okI:
  "l \<noteq> [] \<Longrightarrow> \<not> ldf_blank (hd l) \<Longrightarrow> \<not> ldf_blank (last l) \<Longrightarrow> \<forall>c\<in>set l. text_char c \<Longrightarrow> line_ok l"
  by (auto simp: line_ok_def text_char_def)

lemma text_name: "name_ok n \<Longrightarrow> \<forall>c\<in>set n. text_char c"
  by (auto simp: name_ok_def text_char_def dest: name_char_not(8,9))

lemma text_join: "\<forall>p\<in>set ps. name_ok p \<Longrightarrow> \<forall>c\<in>set (comma_join ps). text_char c"
proof (rule ballI)
  fix c assume "\<forall>p\<in>set ps. name_ok p" "c \<in> set (comma_join ps)"
  then have "name_char c \<or> c = CHR '','' \<or> c = CHR '' ''" by (rule comma_join_chars)
  then show "text_char c" by (auto simp: text_char_def dest: name_char_not(8,9))
qed

end
