(* ===== verification/LdfRoundtrip.thy ===== *)
theory LdfRoundtrip
  imports LdfPrint
begin

text \<open>
  The parser on a whole file: the properties of the database it builds, of the numbers it reads, and
  the round trip from a database through its canonical text.
\<close>

subsection \<open>Printed lines are clean\<close>

lemma space_blank: "ldf_blank (CHR '' '')" by (simp add: ldf_blank_def)

lemma not_blank_marks: "\<not> ldf_blank (CHR '';'')" "\<not> ldf_blank (CHR ''{'')" "\<not> ldf_blank (CHR ''}'')"
  by (simp_all add: ldf_blank_def)

lemma text_marks [simp]: "text_char (CHR '' '')" "text_char (CHR '';'')" "text_char (CHR ''{'')" "text_char (CHR ''}'')"
  "text_char (CHR '':'')" "text_char (CHR 0x22)" "text_char (CHR '','')"
  by (simp_all add: text_char_def)

lemma line_ok_name:
  assumes "name_ok n" "\<forall>c\<in>set l. text_char c" "l \<noteq> []" "\<not> ldf_blank (last l)"
  shows "line_ok (n @ l)"
  using assms name_ok_ends [OF assms(1)] text_name [OF assms(1)]
  by (intro line_okI) (auto simp: name_char_not(1))

lemma line_ok_signal: "signal_fits sg \<Longrightarrow> line_ok (print_signal sg)"
proof -
  assume f: "signal_fits sg"
  define ps where "ps = decimal (nat (sg_width sg)) # decimal (unat (sg_init sg)) # sg_publisher sg # sg_subscribers sg"
  have "\<forall>p\<in>set ps. name_ok p" using f by (simp add: ps_def signal_fits_def decimal_name_ok)
  then have "line_ok (sg_name sg @ '' : '' @ comma_join ps @ '' ;'')"
    using f text_join [of ps] by (intro line_ok_name) (auto simp: signal_fits_def not_blank_marks)
  then show ?thesis by (simp add: print_signal_def ps_def)
qed

lemma line_ok_ref: "ref_fits r \<Longrightarrow> line_ok (print_ref r)"
proof -
  assume f: "ref_fits r"
  then have "line_ok (sr_name r @ '', '' @ decimal (nat (sr_offset r)) @ '' ;'')"
    using text_name [OF decimal_name_ok] by (intro line_ok_name) (auto simp: ref_fits_def not_blank_marks)
  then show ?thesis by (simp add: print_ref_def)
qed

lemma line_ok_brace: "line_ok ''}''"
  by (simp add: line_ok_def ldf_blank_def)

lemma line_ok_frame: "frame_fits fr \<Longrightarrow> l \<in> set (print_frame fr) \<Longrightarrow> line_ok l"
proof -
  assume f: "frame_fits fr" and l: "l \<in> set (print_frame fr)"
  define ps where "ps = [decimal (unat (lf_id fr)), lf_publisher fr, decimal (nat (lf_length fr))]"
  have "\<forall>p\<in>set ps. name_ok p" using f by (simp add: ps_def frame_fits_def decimal_name_ok)
  then have "line_ok (lf_name fr @ '' : '' @ comma_join ps @ '' {'')"
    using f text_join [of ps] by (intro line_ok_name) (auto simp: frame_fits_def not_blank_marks)
  moreover have "\<forall>r\<in>set (lf_signals fr). line_ok (print_ref r)" using f line_ok_ref by (simp add: frame_fits_def)
  ultimately show ?thesis using l line_ok_brace by (auto simp: print_frame_def ps_def)
qed

lemma line_ok_table:
  assumes "name_ok (fst t)" "\<forall>e\<in>set (snd t). name_ok (name_of_id frs (se_id e))" "l \<in> set (print_table frs t)"
  shows "line_ok l"
proof -
  have "line_ok (fst t @ '' {'')" using assms(1) by (intro line_ok_name) (auto simp: not_blank_marks)
  moreover have "line_ok (print_entry frs e)" if "e \<in> set (snd t)" for e
    using assms(2) that text_name [OF decimal_name_ok] unfolding print_entry_def
    by (intro line_ok_name) (auto simp: text_char_def ldf_blank_def)
  ultimately show ?thesis using assms(3) line_ok_brace by (auto simp: print_table_def)
qed

lemma find_unique:
  "x \<in> set xs \<Longrightarrow> distinct (map f xs) \<Longrightarrow> find (\<lambda>y. f y = f x) xs = Some x"
  by (induction xs) (auto simp: image_iff)

lemma name_of_frame:
  "fr \<in> set frs \<Longrightarrow> distinct (map lf_id frs) \<Longrightarrow> name_of_id frs (lf_id fr) = lf_name fr"
  by (simp add: name_of_id_def find_unique)

lemma print_lines_ok:
  assumes "file_fits f" "l \<in> set (print_lines f)"
  shows "line_ok l"
proof -
  note f = assms(1) [unfolded file_fits_def]
  have kw: "line_ok (k @ n @ l)" if "\<forall>c\<in>set n. text_char c" "k \<noteq> []" "\<not> ldf_blank (hd k)"
    "\<forall>c\<in>set (k @ l). text_char c" "l \<noteq> []" "\<not> ldf_blank (last l)" for k n l
    using that by (intro line_okI) auto
  have quoted: "\<forall>c\<in>set (CHR 0x22 # v @ [CHR 0x22]). text_char c" if "name_ok v" for v
    using text_name [OF that] by simp
  have "line_ok (''LIN_protocol_version = '' @ (CHR 0x22 # lf_protocol f @ [CHR 0x22]) @ '' ;'')"
    by (rule kw [OF quoted]) (use f in \<open>simp_all add: text_char_def ldf_blank_def\<close>)
  moreover have "line_ok (''LIN_language_version = '' @ (CHR 0x22 # lf_language f @ [CHR 0x22]) @ '' ;'')"
    by (rule kw [OF quoted]) (use f in \<open>simp_all add: text_char_def ldf_blank_def\<close>)
  moreover have "line_ok (''LIN_speed = '' @ lf_speed f @ '' kbps ;'')"
    by (rule kw [OF text_name]) (use f in \<open>simp_all add: text_char_def ldf_blank_def\<close>)
  moreover have "line_ok (''Master: '' @ lf_master f @ '', 1 ms, 0.1 ms ;'')"
    by (rule kw [OF text_name]) (use f in \<open>simp_all add: text_char_def ldf_blank_def\<close>)
  moreover have "line_ok (''Slaves: '' @ comma_join (lf_slaves f) @ '' ;'')"
    by (rule kw [OF text_join]) (use f in \<open>simp_all add: text_char_def ldf_blank_def\<close>)
  moreover have "line_ok ''LIN_description_file ;''" "line_ok ''Nodes {''" "line_ok ''Signals {''"
    "line_ok ''Frames {''" "line_ok ''Schedule_tables {''" by (simp_all add: line_ok_def ldf_blank_def)
  moreover have "\<forall>l\<in>set (map print_signal (lf_signal_list f)). line_ok l" using f line_ok_signal by simp
  moreover have "\<forall>l\<in>set (concat (map print_frame (lf_frame_list f))). line_ok l" using f line_ok_frame by auto
  moreover have "line_ok l" if "t \<in> set (lf_tables f)" "l \<in> set (print_table (lf_frame_list f) t)" for t l
  proof (rule line_ok_table [OF _ _ that(2)])
    show "name_ok (fst t)" using f that(1) by blast
    show "\<forall>e\<in>set (snd t). name_ok (name_of_id (lf_frame_list f) (se_id e))"
      using f that(1) by (fastforce simp: name_of_frame frame_fits_def)
  qed
  then have "\<forall>l\<in>set (concat (map (print_table (lf_frame_list f)) (lf_tables f))). line_ok l" by auto
  ultimately show ?thesis
    using assms(2) line_ok_brace unfolding print_lines_def set_append by (auto simp del: set_map set_concat)
qed

subsection \<open>The header lines\<close>

lemma quoted_value:
  assumes "\<forall>c\<in>set pre. c \<noteq> CHR 0x22" "name_ok v"
  shows "extract_quoted_value (pre @ CHR 0x22 # v @ CHR 0x22 # post) = v"
proof -
  have "find_if (\<lambda>c. c = CHR 0x22) (pre @ CHR 0x22 # v @ CHR 0x22 # post) = Some (length pre)"
    using assms(1) by (intro find_if_append) auto
  moreover have "find_if (\<lambda>c. c = CHR 0x22) (v @ CHR 0x22 # post) = Some (length v)"
    using assms(2) by (intro find_if_append) (auto simp: name_ok_def dest: name_char_not(10))
  ultimately show ?thesis by (simp add: extract_quoted_value_def find_from_def substr_def)
qed

lemma speed_value:
  assumes "name_ok tok" "stod tok = Inr d"
  shows "extract_float_value (''LIN_speed = '' @ tok @ '' kbps ;'') = d"
proof -
  have "stream_words (''LIN_speed = '' @ tok @ '' kbps ;'') = ''LIN_speed'' # ''='' # tok # stream_words ''kbps ;''"
    using stream_words_Cons(1) [of "''LIN_speed''" "''= '' @ tok @ '' kbps ;''"] stream_words_Cons(1) [of "''=''" "tok @ '' kbps ;''"]
      stream_words_Cons(1) [of tok "''kbps ;''"] name_words [OF assms(1)]
    by (simp add: is_space_def)
  moreover have "strip_semicolon ''LIN_speed'' = ''LIN_speed''" "strip_semicolon ''='' = ''=''"
    by (rule strip_semicolon_id; simp add: ldf_blank_def)+
  moreover have "stod ''LIN_speed'' = Inl InvalidArgument" "stod ''='' = Inl InvalidArgument"
    by code_simp+
  ultimately show ?thesis using assms by (simp add: extract_float_value_def)
qed

lemma master_line: "name_ok m \<Longrightarrow> node_line (''Master: '' @ m @ '', 1 ms, 0.1 ms ;'') db = db\<lparr>master_node := m\<rparr>"
proof -
  assume m: "name_ok m"
  have "trim ('' '' @ (m @ '', 1 ms, 0.1 ms ;'') @ []) = m @ '', 1 ms, 0.1 ms ;''"
    using name_ok_ends [OF m] by (intro trim_around) (simp_all add: name_char_not(1) not_blank_marks space_blank)
  moreover have "find_if (\<lambda>c. c = CHR '','') (m @ CHR '','' # '' 1 ms, 0.1 ms ;'') = Some (length m)"
    using m by (intro find_if_append) (auto simp: name_ok_def dest: name_char_not(3))
  ultimately show ?thesis using m by (simp add: node_line_def starts_def)
qed

lemma slaves_line:
  assumes "\<forall>s\<in>set ss. name_ok s"
  shows "node_line (''Slaves: '' @ comma_join ss @ '' ;'') db = db\<lparr>slave_nodes := slave_nodes db @ ss\<rparr>"
proof -
  have "strip_semicolon (trim ('' '' @ comma_join ss @ '' ;'')) = comma_join ss"
  proof (cases "ss = []")
    case True
    have "trim ''  ;'' = '';''" "strip_semicolon '';'' = []"
      by (simp_all add: trim_def strip_semicolon_def Let_def ldf_blank_def find_last_if_def substr_def)
    then show ?thesis using True by simp
  next
    case False
    have e: "comma_join ss \<noteq> []" "\<not> ldf_blank (hd (comma_join ss))" "\<not> ldf_blank (last (comma_join ss))"
      using comma_join_ends [OF assms False] by (simp_all add: name_char_not(1))
    have "trim ('' '' @ (comma_join ss @ '' ;'') @ []) = comma_join ss @ '' ;''"
      using e by (intro trim_around) (simp_all add: not_blank_marks space_blank)
    then show ?thesis using strip_semicolon_line [OF e] by simp
  qed
  then show ?thesis using nonempty_parts_join [OF assms] by (simp add: node_line_def starts_def)
qed

subsection \<open>The whole file\<close>

lemma map_of_rev_distinct: "distinct (map fst xs) \<Longrightarrow> map_of (rev xs) = map_of xs"
  by (rule map_of_eqI) (auto simp: distinct_map distinct_rev rev_map [symmetric] map_of_eq_Some_iff)

lemma map_of_frames_name:
  assumes "distinct (map lf_id frs)" "distinct (map lf_name frs)" "fr \<in> set frs"
    "db_frames db = map_of (map (\<lambda>fr. (lf_id fr, fr)) frs)"
  shows "db_frames db (lf_id fr) = Some fr" and "frame_named db (lf_name fr) = lf_id fr"
proof -
  have d: "distinct (map fst (map (\<lambda>fr. (lf_id fr, fr)) frs))" using assms(1) by (simp add: comp_def)
  have some: "db_frames db i = Some fr' \<longleftrightarrow> fr' \<in> set frs \<and> lf_id fr' = i" for i fr'
    using map_of_eq_Some_iff [OF d] by (auto simp: assms(4))
  show "db_frames db (lf_id fr) = Some fr" using assms(3) by (simp add: some)
  then show "frame_named db (lf_name fr) = lf_id fr"
    using assms(2,3) some by (intro frame_named_unique) (auto simp: distinct_map inj_on_def)
qed

lemma skip_brace_name: "name_ok n \<Longrightarrow> skip_brace ((n @ l) # ls) = (n @ l) # ls" "skip_brace (''}'' # ls) = ''}'' # ls"
  by (cases n; auto simp: skip_brace_def peek_def name_ok_def dest: name_char_not(6))+

lemma parse_print:
  assumes "file_fits f" "stod (lf_speed f) = Inr d"
  shows "parse (print_ldf f) = Ret (db_of_file f d)"
proof -
  note f = assms(1) [unfolded file_fits_def]
  define frs where "frs = lf_frame_list f"
  define fm where "fm = map_of (map (\<lambda>fr. (lf_id fr, fr)) frs)"
  have revs: "map_of (rev (map (\<lambda>sg. (sg_name sg, sg)) (lf_signal_list f))) = map_of (map (\<lambda>sg. (sg_name sg, sg)) (lf_signal_list f))"
    "map_of (rev (map (\<lambda>fr. (lf_id fr, fr)) frs)) = fm" "map_of (rev (lf_tables f)) = map_of (lf_tables f)"
    using f unfolding fm_def frs_def by (intro map_of_rev_distinct; simp add: comp_def)+
  have tables: "\<forall>t\<in>set (lf_tables f). name_ok (fst t) \<and>
      (\<forall>e\<in>set (snd t). name_ok (name_of_id frs (se_id e)) \<and>
         (\<forall>db :: ldf_db. db_frames db = fm \<longrightarrow> entry_line (print_entry frs e) db = Ret [e]))"
  proof (intro ballI conjI allI impI)
    fix t e assume t: "t \<in> set (lf_tables f)" and e: "e \<in> set (snd t)"
    then obtain fr where fr: "fr \<in> set frs" "lf_id fr = se_id e" "se_id e \<le> kLINMaxID"
      using f by (fastforce simp: frs_def)
    have n: "name_of_id frs (se_id e) = lf_name fr"
      using name_of_frame [OF fr(1)] f fr(2) by (simp add: frs_def)
    have ok: "frame_fits fr" using f fr(1) by (simp add: frs_def)
    then show "name_ok (name_of_id frs (se_id e))" by (simp add: n frame_fits_def)
    fix db :: ldf_db assume "db_frames db = fm"
    then show "entry_line (print_entry frs e) db = Ret [e]"
      using map_of_frames_name [of frs fr db] f fr n ok
      by (intro entry_line_print [of db e fr]) (simp_all add: fm_def frs_def)
  qed (use f in blast)
  have frames: "\<forall>fr\<in>set frs. frame_fits fr" and signals: "\<forall>sg\<in>set (lf_signal_list f). signal_fits sg"
    using f by (simp_all add: frs_def)
  have quoted: "extract_quoted_value (''LIN_protocol_version = '' @ CHR 0x22 # lf_protocol f @ CHR 0x22 # '' ;'') = lf_protocol f"
    "extract_quoted_value (''LIN_language_version = '' @ CHR 0x22 # lf_language f @ CHR 0x22 # '' ;'') = lf_language f"
    using f by (intro quoted_value; simp)+
  have speed: "extract_float_value (''LIN_speed = '' @ lf_speed f @ '' kbps ;'') = d"
    using f assms(2) by (intro speed_value) simp_all
  define t1 where "t1 = ''Schedule_tables {'' # concat (map (print_table frs) (lf_tables f)) @ [''}'']"
  define t2 where "t2 = ''Frames {'' # concat (map print_frame frs) @ ''}'' # t1"
  define t3 where "t3 = ''Signals {'' # map print_signal (lf_signal_list f) @ ''}'' # t2"
  have sb1: "skip_brace (concat (map (print_table frs) (lf_tables f)) @ [''}'']) = concat (map (print_table frs) (lf_tables f)) @ [''}'']"
    using tables by (cases "lf_tables f") (simp_all add: print_table_def skip_brace_name)
  have sb2: "skip_brace (concat (map print_frame frs) @ ''}'' # t1) = concat (map print_frame frs) @ ''}'' # t1"
    using frames by (cases frs) (simp_all add: print_frame_def skip_brace_name frame_fits_def)
  have sb3: "skip_brace (map print_signal (lf_signal_list f) @ ''}'' # t2) = map print_signal (lf_signal_list f) @ ''}'' # t2"
    using signals by (cases "lf_signal_list f") (simp_all add: print_signal_def skip_brace_name signal_fits_def)
  have s1: "parse_top t1 db = Ret (db\<lparr>db_schedules := db_schedules db ++ map_of (lf_tables f)\<rparr>)" if "db_frames db = fm" for db
    using tables_loop_print [OF tables that, of "[]"] revs(3)
    by (simp add: t1_def starts_def parse_schedule_tables_def sb1)
  have s2: "parse_top t2 db = parse_top t1 (db\<lparr>db_frames := db_frames db ++ fm\<rparr>)" for db
    using frames_loop_print [OF frames, of t1 db] revs(2)
    by (simp add: t2_def starts_def parse_frames_def sb2)
  have s3: "parse_top t3 db = parse_top t2 (db\<lparr>db_signals := db_signals db ++ map_of (map (\<lambda>sg. (sg_name sg, sg)) (lf_signal_list f))\<rparr>)" for db
    using signals_loop_print [OF signals, of t2 db] revs(1)
    by (simp add: t3_def starts_def parse_signals_def sb3)
  define ml where "ml = ''Master: '' @ lf_master f @ '', 1 ms, 0.1 ms ;''"
  define sl where "sl = ''Slaves: '' @ comma_join (lf_slaves f) @ '' ;''"
  have nodes: "parse_nodes (ml # sl # ''}'' # t3) db
      = (t3, db\<lparr>master_node := lf_master f, slave_nodes := slave_nodes db @ lf_slaves f\<rparr>)" for db
    using f master_line [of "lf_master f" db] slaves_line [of "lf_slaves f" "db\<lparr>master_node := lf_master f\<rparr>"]
    by (simp add: parse_nodes_def skip_brace_def peek_def ml_def sl_def)
  have "parse (print_ldf f) = parse_top (print_lines f) empty_db"
    using parse_lines_print [of "print_lines f"] print_lines_ok [OF assms(1)] by (simp add: parse_def print_ldf_def)
  also have "print_lines f =
     ''LIN_description_file ;'' #
     (''LIN_protocol_version = '' @ CHR 0x22 # lf_protocol f @ CHR 0x22 # '' ;'') #
     (''LIN_language_version = '' @ CHR 0x22 # lf_language f @ CHR 0x22 # '' ;'') #
     (''LIN_speed = '' @ lf_speed f @ '' kbps ;'') #
     ''Nodes {'' # ml # sl # ''}'' # t3"
    by (simp add: print_lines_def ml_def sl_def t1_def t2_def t3_def frs_def)
  also have "parse_top \<dots> empty_db = Ret (db_of_file f d)"
    using quoted speed by (simp add: starts_def nodes s1 s2 s3 empty_db_def db_of_file_def fm_def frs_def)
  finally show ?thesis .
qed

subsection \<open>Negative numbers\<close>

lemma parse_uint_negative:
  assumes "0 < n" "n < 2 ^ 53"
  shows "parse_uint (CHR ''-'' # decimal n) = UB"
proof -
  have ok: "name_ok (CHR ''-'' # decimal n)"
    using decimal_name_ok [of n] by (simp add: name_ok_def name_char_def)
  obtain c cs where c: "decimal n = c # cs" "digit_val 10 c \<noteq> None" "\<forall>d\<in>set cs. digit_val 10 d \<noteq> None"
    by (rule decimal_head)
  have low: "map to_lower (decimal n) = decimal n" using c digit_lower by (auto intro: map_idI)
  have no: "take 2 (decimal n) \<noteq> ''0x''" using c(3) by (cases cs) (auto simp: c(1) digit_val_def)
  have no3: "take 3 (decimal n) \<noteq> ''inf''" "take 3 (decimal n) \<noteq> ''nan''"
    using c(2) by (auto simp: c(1) digit_val_def)
  define m where "m = n * 2 ^ (53 - bit_length n)"
  define e where "e = int (bit_length n) - 53"
  have "stod (CHR ''-'' # decimal n) = scale True 10 n 0"
    by (simp add: stod_def is_space_def low no no3 mantissa_decimal decimal_value exponent_def)
  also have "\<dots> = Inr (Finite True m e)"
    using nearest_exact [OF assms] assms(1) by (simp add: scale_def to_double_def m_def e_def)
  finally have d: "stod (CHR ''-'' # decimal n) = Inr (Finite True m e)" .
  have "bit_length n \<le> 53"
  proof -
    have "(2 :: nat) ^ (bit_length n - 1) < 2 ^ 53" using bit_length_bounds [OF assms(1)] assms(2) by simp
    then have "bit_length n - 1 < 53" by (rule power_less_imp_less_exp [rotated]) simp
    then show ?thesis by simp
  qed
  then have "double_to_u64 (Finite True m e) = UB"
    using assms(1) by (cases "bit_length n = 53") (simp_all add: double_to_u64_def m_def e_def nat_diff_distrib' Let_def)
  moreover have "\<not> hex_prefixed (CHR ''-'' # decimal n)" by (simp add: hex_prefixed_def)
  ultimately show ?thesis using ok by (simp add: parse_uint_def d)
qed

subsection \<open>Properties\<close>

definition demo_file :: ldf_file where
  "demo_file =
    \<lparr>lf_protocol = ''2.1'', lf_language = ''2.1'', lf_speed = ''19'', lf_master = ''BCM'',
     lf_slaves = [''Motor'', ''Seat''],
     lf_signal_list =
       [empty_signal\<lparr>sg_name := ''Speed'', sg_width := 8, sg_init := 7, sg_publisher := ''Motor'', sg_subscribers := [''BCM'', ''Seat'']\<rparr>,
        empty_signal\<lparr>sg_name := ''Position'', sg_width := 16, sg_publisher := ''Seat''\<rparr>],
     lf_frame_list =
       [\<lparr>lf_name = ''MotorFrame'', lf_id = 0x10, lf_publisher = ''Motor'', lf_length = 2,
         lf_signals = [\<lparr>sr_name = ''Speed'', sr_offset = 4\<rparr>]\<rparr>,
        \<lparr>lf_name = ''SeatFrame'', lf_id = 0x20, lf_publisher = ''Seat'', lf_length = 4,
         lf_signals = [\<lparr>sr_name = ''Position'', sr_offset = 0\<rparr>]\<rparr>],
     lf_tables = [(''Normal'', [\<lparr>se_id = 0x20, se_delay_ms = 20\<rparr>, \<lparr>se_id = 0x10, se_delay_ms = 10\<rparr>])]\<rparr>"

lemma demo_file_fits: "file_fits demo_file"
  by (simp add: file_fits_def demo_file_def signal_fits_def frame_fits_def ref_fits_def name_ok_def name_char_def
      empty_signal_def starts_def kLINMaxID_def)

lemma demo_speed: "\<exists>d. stod (lf_speed demo_file) = Inr d"
proof -
  obtain m e where "scale False 10 19 0 = Inr (Finite False m e)" "double_to_u64 (Finite False m e) = Ret (of_nat 19)"
    by (rule scale_exact [of 19]) simp
  moreover have "decimal 19 = ''19''" by code_simp
  ultimately show ?thesis using stod_decimal [of 19] by (auto simp: demo_file_def)
qed

text \<open>C4: the parser reads back what is printed. Any database whose names are made of letters, digits,
  underscores, hyphens and points, with distinct names, with initial values below 2^53 and with
  schedules of its own frames, survives the trip through its text: the versions, the speed, the nodes,
  every signal, every frame with its signal positions and every schedule table.\<close>

theorem ldf_roundtrip:
  assumes "file_fits f" and "stod (lf_speed f) = Inr d"
  shows "parse (print_ldf f) = Ret (db_of_file f d)"
  using assms by (rule parse_print)

theorem ldf_roundtrip_witness:
  "\<exists>d. parse (print_ldf demo_file) = Ret (db_of_file demo_file d) \<and>
     db_schedule (db_of_file demo_file d) ''Normal'' = [\<lparr>se_id = 0x20, se_delay_ms = 20\<rparr>, \<lparr>se_id = 0x10, se_delay_ms = 10\<rparr>]"
proof -
  obtain d where "stod (lf_speed demo_file) = Inr d" using demo_speed by blast
  then show ?thesis
    using ldf_roundtrip [OF demo_file_fits] by (auto simp: db_schedule_def db_of_file_def demo_file_def)
qed

text \<open>C18: whatever the text, a database the parser returns is well formed. Every signal is stored under
  its own name and is 0 to 64 bits wide, every frame is stored under its own identifier, lengths and
  positions are \<open>int\<close> values, and every schedule entry names a frame of the database by an
  identifier of at most 0x3F.\<close>

theorem parse_wellformed:
  assumes "parse r = Ret db"
  shows "db_ok db"
  using assms by (rule parse_ok)

theorem parse_wellformed_witness: "\<exists>d. parse (print_ldf demo_file) = Ret (db_of_file demo_file d) \<and> db_ok (db_of_file demo_file d)"
  using demo_speed parse_print [OF demo_file_fits] parse_wellformed by metis

text \<open>A parsed database decodes without undefined behaviour. The clamp on the widths keeps every shift
  below 64, so decoding any payload of a frame whose signal positions are not negative (and leave 64
  bits below the top of \<open>int\<close>) returns values, one for each declared signal of the frame.\<close>

theorem parsed_decode_defined:
  assumes "parse r = Ret db" and "db_frames db i = Some fr"
    and "\<forall>ref\<in>set (lf_signals fr). 0 \<le> sr_offset ref \<and> sr_offset ref \<le> 2 ^ 31 - 64"
    and "length data < 2 ^ 31"
  shows "\<exists>m. decode db i data = Ret m \<and>
    dom m = {n. db_signals db n \<noteq> None \<and> n \<in> sr_name ` set (lf_signals fr)}"
proof -
  have ok: "db_ok db" using assms(1) by (rule parse_ok)
  then have "refs_sane db (lf_signals fr)"
    using assms(3) by (fastforce simp: refs_sane_def db_ok_def signals_ok_def)
  then obtain m where m: "decode_refs db data (lf_signals fr) Map.empty = Ret m"
    "\<forall>n. m n = (case last_ref (lf_signals fr) n of
       None \<Rightarrow> Map.empty n
     | Some r \<Rightarrow> if db_signals db n = None then Map.empty n else ref_value db data r)"
    using decode_refs_value [OF _ assms(4)] by blast
  have "last_ref (lf_signals fr) n = None \<longleftrightarrow> n \<notin> sr_name ` set (lf_signals fr)" for n
    by (auto simp: last_ref_def map_of_eq_None_iff image_image)
  then have "dom m = {n. db_signals db n \<noteq> None \<and> n \<in> sr_name ` set (lf_signals fr)}"
    using m(2) last_ref_name [of "lf_signals fr"]
    by (auto simp: dom_def ref_value_def split: option.splits if_splits)
  with m(1) show ?thesis using assms(2) by (auto simp: decode_def)
qed

theorem parsed_decode_defined_witness:
  "\<exists>db m. parse (print_ldf demo_file) = Ret db \<and> decode db 0x10 [0x21, 0x43] = Ret m \<and> dom m = {''Speed''}"
proof -
  obtain d where d: "stod (lf_speed demo_file) = Inr d" using demo_speed by blast
  define db where "db = db_of_file demo_file d"
  have p: "parse (print_ldf demo_file) = Ret db" using parse_print [OF demo_file_fits d] by (simp add: db_def)
  have fr: "db_frames db 0x10 = Some (lf_frame_list demo_file ! 0)"
    by (simp add: db_def db_of_file_def demo_file_def)
  have sp: "db_signals db ''Speed'' \<noteq> None" by (simp add: db_def db_of_file_def demo_file_def)
  obtain m where m: "decode db 0x10 [0x21, 0x43] = Ret m"
    "dom m = {n. db_signals db n \<noteq> None \<and> n \<in> sr_name ` set (lf_signals (lf_frame_list demo_file ! 0))}"
    using parsed_decode_defined [OF p fr, of "[0x21, 0x43]"] by (auto simp: demo_file_def)
  have "dom m = {''Speed''}" unfolding m(2) using sp by (auto simp: demo_file_def)
  with p m(1) show ?thesis by blast
qed

text \<open>Integers below 2^53 are read exactly, although \<open>parse_uint\<close> takes them through \<open>double\<close>, and
  integers below 2^63 are read exactly by \<open>parse_int\<close>.\<close>

theorem parse_numbers_exact:
  "(n < 2 ^ 53 \<longrightarrow> parse_uint (decimal n) = Ret (Inr (of_nat n))) \<and>
   (n < 2 ^ 63 \<longrightarrow> parse_int (decimal n) = Inr (int n))"
  using parse_uint_small parse_int_decimal by blast

theorem parse_numbers_exact_witness: "parse_uint (decimal 65535) = Ret (Inr 65535) \<and> parse_int (decimal 65535) = Inr 65535"
  using parse_numbers_exact [of 65535] by simp

text \<open>A negative initial value makes the parse undefined. The line of a signal whose second field is a
  negative integer converts a negative \<open>double\<close> to \<open>uint64_t\<close>: no exception, no value.\<close>

theorem negative_init_undefined:
  assumes "name_ok name" and "name_ok width" and "name_ok publisher" and "0 < n" and "n < 2 ^ 53"
  shows "signal_line (name @ '' : '' @ comma_join [width, CHR ''-'' # decimal n, publisher] @ '' ;'') db = UB"
proof -
  define ps where "ps = [width, CHR ''-'' # decimal n, publisher]"
  have ps: "\<forall>p\<in>set ps. name_ok p" "ps \<noteq> []"
    using assms decimal_name_ok [of n] by (simp_all add: ps_def name_ok_def name_char_def)
  have take: "take (Suc (length name)) (name @ '' : '' @ comma_join ps) = name @ '' ''"
    "drop (Suc (length name) + 1) (name @ '' : '' @ comma_join ps) = '' '' @ comma_join ps" by simp_all
  have parts: "length ps = 3" "ps ! 1 = CHR ''-'' # decimal n" by (simp_all add: ps_def)
  have "signal_line (name @ '' : '' @ comma_join ps @ '' ;'') db = UB"
    unfolding signal_line_def strip_colon_line [OF assms(1) ps] Let_def colon_split [OF assms(1) ps] option.case take parts
      parse_uint_negative [OF assms(4,5)] by simp
  then show ?thesis by (simp only: ps_def)
qed

theorem negative_init_undefined_witness:
  "signal_line (''Speed'' @ '' : '' @ comma_join [''8'', CHR ''-'' # decimal 5, ''ECU''] @ '' ;'') empty_db = UB"
  by (rule negative_init_undefined) (simp_all add: name_ok_def name_char_def)

end
