(* ===== verification/LdfLayout.thy ===== *)
theory LdfLayout
  imports LdfRoundtrip
begin

text \<open>
  The layout of an LDF text does not matter to the parser (\<open>src/ldf/parser.cpp\<close>): indentation,
  blanks and carriage returns at the ends of lines, blank lines and comments.
\<close>

text \<open>A line as written: blanks, what it says, blanks, a comment.\<close>

record layout_line =
  ll_indent :: string
  ll_text :: string
  ll_trail :: string
  ll_comment :: "string option"

definition written :: "layout_line \<Rightarrow> string" where
  "written l = ll_indent l @ ll_text l @ ll_trail l @
     (case ll_comment l of None \<Rightarrow> [] | Some c \<Rightarrow> ''//'' @ c)"

definition margin :: "string \<Rightarrow> bool" where
  "margin s \<longleftrightarrow> list_all (\<lambda>c. ldf_blank c \<and> c \<noteq> CHR 0x0A) s"

definition layout_ok :: "layout_line \<Rightarrow> bool" where
  "layout_ok l \<longleftrightarrow> margin (ll_indent l) \<and> margin (ll_trail l) \<and> (ll_text l = [] \<or> line_ok (ll_text l)) \<and>
     (case ll_comment l of None \<Rightarrow> True | Some c \<Rightarrow> CHR 0x0A \<notin> set c)"

definition whole_text :: "string list \<Rightarrow> string" where
  "whole_text ls = concat (map (\<lambda>l. l @ [CHR 0x0A]) ls)"

lemma margin_facts:
  "margin s \<Longrightarrow> \<forall>c\<in>set s. ldf_blank c" "margin s \<Longrightarrow> CHR 0x0A \<notin> set s" "margin s \<Longrightarrow> CHR ''/'' \<notin> set s"
  by (auto simp: margin_def list_all_iff ldf_blank_def)

lemma find_sub_skip: "CHR ''/'' \<notin> set s \<Longrightarrow> find_sub ''//'' (s @ ''//'' @ c) = Some (length s)"
proof (induction s)
  case (Cons x s)
  then have "\<not> is_prefix ''//'' (x # s @ ''//'' @ c)" by auto
  with Cons show ?case by simp
qed simp

lemma trim_written:
  assumes "layout_ok l"
  shows "trim (ll_indent l @ ll_text l @ ll_trail l) = ll_text l"
proof (cases "ll_text l = []")
  case True
  have "\<forall>c\<in>set (ll_indent l @ ll_trail l). ldf_blank c"
    using assms margin_facts(1) by (auto simp: layout_ok_def)
  then show ?thesis using True by (simp add: trim_strip strip_Nil_iff)
next
  case False
  then show ?thesis
    using assms margin_facts(1) by (intro trim_around) (auto simp: layout_ok_def line_ok_def)
qed

lemma strip_comment_written:
  assumes "layout_ok l"
  shows "strip_comment (written l) = ll_text l" "CHR 0x0A \<notin> set (written l)"
proof -
  define s where "s = ll_indent l @ ll_text l @ ll_trail l"
  have s: "CHR ''/'' \<notin> set s" "CHR 0x0A \<notin> set s" "trim s = ll_text l"
    using assms margin_facts(2,3) trim_written [OF assms] by (auto simp: s_def layout_ok_def line_ok_def)
  have w: "written l = s @ (case ll_comment l of None \<Rightarrow> [] | Some c \<Rightarrow> ''//'' @ c)"
    by (simp add: written_def s_def)
  show "strip_comment (written l) = ll_text l"
  proof (cases "ll_comment l")
    case None
    then show ?thesis
      using s find_sub_none [OF s(1), of "''/''"] by (simp add: strip_comment_def w)
  next
    case (Some c)
    then show ?thesis
      using s find_sub_skip [OF s(1), of c] by (simp add: strip_comment_def w)
  qed
  show "CHR 0x0A \<notin> set (written l)"
    using s(2) assms by (auto simp: w layout_ok_def split: option.splits)
qed

lemma parse_lines_written:
  "list_all layout_ok ls \<Longrightarrow> parse_lines (whole_text (map written ls)) = filter (\<lambda>t. t \<noteq> []) (map ll_text ls)"
proof (induction ls)
  case (Cons l ls)
  then have l: "layout_ok l" by simp
  have "getlines (CHR 0x0A) (written l @ CHR 0x0A # whole_text (map written ls)) =
      written l # getlines (CHR 0x0A) (whole_text (map written ls))"
    by (rule getlines_Cons) (rule strip_comment_written(2) [OF l])
  then show ?case
    using Cons strip_comment_written(1) [OF l] by (simp add: parse_lines_def whole_text_def)
qed (simp add: parse_lines_def whole_text_def)

lemma parse_layout:
  assumes "list_all layout_ok ls" "list_all layout_ok ls'"
    and "filter (\<lambda>t. t \<noteq> []) (map ll_text ls) = filter (\<lambda>t. t \<noteq> []) (map ll_text ls')"
  shows "parse (whole_text (map written ls)) = parse (whole_text (map written ls'))"
  using assms by (simp add: parse_def parse_lines_written)

lemma parse_lines_print_ldf: "file_fits f \<Longrightarrow> parse_lines (print_ldf f) = print_lines f"
  using parse_lines_print [of "print_lines f"] print_lines_ok [of f] by (simp add: print_ldf_def)

text \<open>C17: two texts that say the same, line by line, are parsed to the same database, however their lines
  are indented, whatever blanks, tabs or carriage returns end them, and wherever blank lines and
  comments stand; so the database of a printed file is read back from it in any layout.\<close>

theorem layout_irrelevant:
  assumes "list_all layout_ok ls" and "list_all layout_ok ls'"
    and "filter (\<lambda>t. t \<noteq> []) (map ll_text ls) = filter (\<lambda>t. t \<noteq> []) (map ll_text ls')"
  shows "parse (whole_text (map written ls)) = parse (whole_text (map written ls')) \<and>
    (\<forall>f d. file_fits f \<and> stod (lf_speed f) = Inr d \<and> filter (\<lambda>t. t \<noteq> []) (map ll_text ls) = print_lines f \<longrightarrow>
       parse (whole_text (map written ls)) = Ret (db_of_file f d))"
proof (intro conjI allI impI)
  fix f d
  assume f: "file_fits f \<and> stod (lf_speed f) = Inr d \<and> filter (\<lambda>t. t \<noteq> []) (map ll_text ls) = print_lines f"
  then have "parse (whole_text (map written ls)) = parse (print_ldf f)"
    by (simp add: parse_def parse_lines_written [OF assms(1)] parse_lines_print_ldf)
  then show "parse (whole_text (map written ls)) = Ret (db_of_file f d)" using f parse_print by simp
qed (rule parse_layout [OF assms])

definition loose :: "string \<Rightarrow> layout_line" where
  "loose t = \<lparr>ll_indent = [CHR 0x09], ll_text = t, ll_trail = [CHR '' '', CHR 0x0D], ll_comment = Some ''// note''\<rparr>"

theorem layout_irrelevant_witness:
  "\<exists>d. parse (whole_text (map written (loose [] # map loose (print_lines demo_file)))) = Ret (db_of_file demo_file d)"
proof -
  obtain d where d: "stod (lf_speed demo_file) = Inr d" using demo_speed by blast
  have lines: "\<forall>l\<in>set (print_lines demo_file). line_ok l" using print_lines_ok [OF demo_file_fits] by blast
  define ls where "ls = loose [] # map loose (print_lines demo_file)"
  have ok: "list_all layout_ok ls"
    using lines by (auto simp: ls_def loose_def layout_ok_def margin_def ldf_blank_def list_all_iff)
  have "filter (\<lambda>t. t \<noteq> []) (map ll_text ls) = print_lines demo_file"
    using lines by (simp add: ls_def loose_def o_def line_ok_def filter_id_conv)
  then show ?thesis
    using layout_irrelevant [OF ok ok refl] demo_file_fits d unfolding ls_def by blast
qed

end
