(* ===== verification/LdfNumbers.thy ===== *)
theory LdfNumbers
  imports LdfInvariant
begin

text \<open>
  When the parser (\<open>src/ldf/parser.cpp\<close>) is undefined: only at a number that \<open>parse_uint\<close> cannot
  convert, and only in the two fields it is used for, the initial value of a signal and the delay of
  a schedule entry. Every other text, well formed or not, is parsed to the end.
\<close>

subsection \<open>Numbers that do not fit\<close>

text \<open>What is left of a \<open>double\<close> without its fraction, when it is finite: sign and magnitude.\<close>

fun whole_part :: "cdouble \<Rightarrow> (bool \<times> nat) option" where
  "whole_part (Finite neg m e) = Some (neg, if e < 0 then m div 2 ^ nat (- e) else m * 2 ^ nat e)"
| "whole_part _ = None"

definition unfit :: "string \<Rightarrow> bool" where
  "unfit w \<longleftrightarrow>
    (let t = strip_semicolon w
     in \<not> hex_prefixed t \<and>
        (case stod t of
           Inl _ \<Rightarrow> False
         | Inr d \<Rightarrow> (case whole_part d of None \<Rightarrow> True | Some (neg, n) \<Rightarrow> neg \<and> n \<noteq> 0 \<or> 2 ^ 64 \<le> n)))"

lemma double_to_u64_UB:
  "double_to_u64 d = UB \<longleftrightarrow> (case whole_part d of None \<Rightarrow> True | Some (neg, n) \<Rightarrow> neg \<and> n \<noteq> 0 \<or> 2 ^ 64 \<le> n)"
  by (cases d) (simp_all add: double_to_u64_def Let_def)

lemma double_to_u64_no_block: "double_to_u64 d \<noteq> Blocks"
  by (cases d) (simp_all add: double_to_u64_def Let_def)

lemma parse_uint_UB: "parse_uint w = UB \<longleftrightarrow> unfit w"
proof (cases "stod (strip_semicolon w)")
  case (Inr d)
  then show ?thesis by (simp add: parse_uint_def unfit_def Let_def obind_eq_UB double_to_u64_UB)
qed (simp add: parse_uint_def unfit_def Let_def)

lemma parse_uint_returns: "\<not> unfit w \<Longrightarrow> \<exists>r. parse_uint w = Ret r"
proof -
  assume "\<not> unfit w"
  then have "parse_uint w \<noteq> UB" by (simp add: parse_uint_UB)
  moreover have "parse_uint w \<noteq> Blocks"
    by (simp add: parse_uint_def Let_def obind_eq_Blocks double_to_u64_no_block split: sum.split)
  ultimately show ?thesis by (cases "parse_uint w") auto
qed

text \<open>Words the standard library reads as an infinity or as no number at all.\<close>

lemma unfit_word:
  assumes "\<not> hex_prefixed (strip_semicolon w)" "map to_lower (take 3 (strip_semicolon w)) \<in> {''inf'', ''nan''}"
  shows "unfit w"
proof -
  define t where "t = strip_semicolon w"
  have low: "take 3 (map to_lower t) \<in> {''inf'', ''nan''}" using assms(2) by (simp add: t_def take_map)
  then obtain c cs where t: "t = c # cs" "to_lower c = CHR ''i'' \<or> to_lower c = CHR ''n''"
    by (cases t) auto
  have "\<not> is_space c" "c \<noteq> CHR ''-''" "c \<noteq> CHR ''+''"
    using t(2) by (auto simp: is_space_def to_lower_def char_nat_def split: if_splits)
  then have "stod t = Inr (Infinite False) \<or> stod t = Inr NotANumber"
    using low t(1) by (auto simp: stod_def Let_def)
  then show ?thesis using assms(1) by (auto simp: unfit_def t_def [symmetric] Let_def)
qed

subsection \<open>The two fields\<close>

text \<open>The initial value in a line of \<open>Signals\<close>, and the delay in an entry of a schedule table.\<close>

definition init_field :: "string \<Rightarrow> string option" where
  "init_field l =
    (let line = strip_semicolon l
     in case find_if (\<lambda>c. c = CHR '':'') line of
          None \<Rightarrow> None
        | Some colon \<Rightarrow>
            (let parts = comma_parts (trim (drop (colon + 1) line))
             in if length parts < 3 then None else Some (parts ! 1)))"

definition delay_field :: "string \<Rightarrow> string option" where
  "delay_field l =
    (let inner = strip_semicolon l; parts = stream_words inner
     in if starts ''AssignFrameId'' inner \<or> length parts < 3 then None else delay_word (tl parts))"

definition numbers_fit :: "string \<Rightarrow> bool" where
  "numbers_fit l \<longleftrightarrow>
    (case init_field l of None \<Rightarrow> True | Some w \<Rightarrow> \<not> unfit w) \<and>
    (case delay_field l of None \<Rightarrow> True | Some w \<Rightarrow> \<not> unfit w)"

lemma signal_line_outcome:
  "signal_line l db = UB \<longleftrightarrow> (\<exists>w. init_field l = Some w \<and> unfit w)"
  by (auto simp: signal_line_def init_field_def Let_def obind_eq_UB parse_uint_UB split: option.split)

lemma entry_line_outcome:
  "entry_line l db = UB \<longleftrightarrow> (\<exists>w. delay_field l = Some w \<and> unfit w)"
  by (auto simp: entry_line_def delay_field_def Let_def obind_eq_UB parse_uint_UB split: option.split)

lemma signal_line_returns: "numbers_fit l \<Longrightarrow> \<exists>db'. signal_line l db = Ret db'"
  by (auto simp: numbers_fit_def signal_line_def init_field_def Let_def obind_eq_Ret
      split: option.splits if_splits dest!: parse_uint_returns)

lemma entry_line_returns: "numbers_fit l \<Longrightarrow> \<exists>es. entry_line l db = Ret es"
  by (auto simp: numbers_fit_def entry_line_def delay_field_def Let_def obind_eq_Ret
      split: option.splits if_splits dest!: parse_uint_returns)

subsection \<open>The loops\<close>

text \<open>A loop leaves lines of those it was given.\<close>

lemma skip_brace_subset: "set (skip_brace ls) \<subseteq> set ls"
  by (cases ls) (auto simp: skip_brace_def)

lemma nodes_loop_subset: "nodes_loop ls db = (ls', db') \<Longrightarrow> set ls' \<subseteq> set ls"
  by (induction ls db rule: nodes_loop.induct) (auto split: if_splits)

lemma refs_loop_subset: "refs_loop ls refs = (ls', refs') \<Longrightarrow> set ls' \<subseteq> set ls"
  by (induction ls refs rule: refs_loop.induct) (auto split: if_splits)

lemma frames_loop_subset: "set (fst (frames_loop ls db)) \<subseteq> set ls"
proof (induction ls db rule: frames_loop.induct)
  case (2 l ls db)
  consider "l = ''}''" | "l \<noteq> ''}''" "find_if (\<lambda>c. c = CHR ''{'') l = None \<or> frame_header l = None"
    | fr where "l \<noteq> ''}''" "find_if (\<lambda>c. c = CHR ''{'') l \<noteq> None" "frame_header l = Some fr"
    by (cases "frame_header l") blast+
  then show ?case
  proof cases
    case 2
    then show ?thesis using "2.IH"(1,2) by (cases "find_if (\<lambda>c. c = CHR ''{'') l") auto
  next
    case 3
    obtain ls' refs where r: "refs_loop ls [] = (ls', refs)" by (cases "refs_loop ls []")
    note "2.IH"(3) [OF 3 r [symmetric]]
    also have "set ls' \<subseteq> set (l # ls)" using refs_loop_subset [OF r] by auto
    finally show ?thesis by (simp only: frames_loop.simps 3 r if_False option.case prod.case)
  qed auto
qed simp

lemma signals_loop_returns:
  "list_all numbers_fit ls \<Longrightarrow> \<exists>ls' db'. signals_loop ls db = Ret (ls', db') \<and> set ls' \<subseteq> set ls"
proof (induction ls arbitrary: db)
  case (Cons l ls)
  obtain db1 where "signal_line l db = Ret db1" using Cons.prems signal_line_returns by fastforce
  then show ?case using Cons.IH [of db1] Cons.prems by fastforce
qed simp

lemma entries_loop_returns:
  "list_all numbers_fit ls \<Longrightarrow> \<exists>ls' es'. entries_loop ls db es = Ret (ls', es') \<and> set ls' \<subseteq> set ls"
proof (induction ls arbitrary: es)
  case (Cons l ls)
  obtain e where "entry_line l db = Ret e" using Cons.prems entry_line_returns by fastforce
  then show ?case using Cons.IH [of "es @ e"] Cons.prems by fastforce
qed simp

lemma tables_loop_returns:
  "list_all numbers_fit ls \<Longrightarrow> \<exists>ls' db'. tables_loop ls db = Ret (ls', db') \<and> set ls' \<subseteq> set ls"
proof (induction ls db rule: tables_loop.induct)
  case (2 l ls db)
  have fit: "list_all numbers_fit ls" using 2(3) by simp
  consider "l = ''}''" | "l \<noteq> ''}''" "last l \<noteq> CHR ''{''" | "l \<noteq> ''}''" "last l = CHR ''{''" by blast
  then show ?case
  proof cases
    case 3
    obtain ls1 es where e: "entries_loop ls db [] = Ret (ls1, es)" "set ls1 \<subseteq> set ls"
      using entries_loop_returns [OF fit] by blast
    then have "list_all numbers_fit ls1" using fit by (auto simp: list_all_iff)
    then show ?thesis using 2(1) [OF 3 e(1) refl] e 3 by fastforce
  next
    case 2
    then show ?thesis using "2.IH"(2) [OF 2 fit] by fastforce
  qed auto
qed simp

lemma section_step_returns:
  assumes "list_all numbers_fit ls"
  shows "\<exists>ls' db'. section_step line ls db = Ret (ls', db') \<and> set ls' \<subseteq> set ls"
proof -
  have fit: "list_all numbers_fit (skip_brace ls)"
    using assms skip_brace_subset [of ls] by (auto simp: list_all_iff)
  have sub: "set xs \<subseteq> set (skip_brace ls) \<Longrightarrow> set xs \<subseteq> set ls" for xs using skip_brace_subset [of ls] by blast
  have nodes: "\<exists>ls' db'. parse_nodes ls db = (ls', db') \<and> set ls' \<subseteq> set ls"
    using nodes_loop_subset sub by (cases "nodes_loop (skip_brace ls) db") (simp add: parse_nodes_def)
  have frames: "\<exists>ls' db'. parse_frames ls db = (ls', db') \<and> set ls' \<subseteq> set ls"
    using frames_loop_subset [of "skip_brace ls" db] sub
    by (cases "frames_loop (skip_brace ls) db") (simp add: parse_frames_def)
  have signals: "\<exists>ls' db'. parse_signals ls db = Ret (ls', db') \<and> set ls' \<subseteq> set ls"
    using signals_loop_returns [OF fit, of db] sub by (auto simp: parse_signals_def)
  have tables: "\<exists>ls' db'. parse_schedule_tables ls db = Ret (ls', db') \<and> set ls' \<subseteq> set ls"
    using tables_loop_returns [OF fit, of db] sub by (auto simp: parse_schedule_tables_def)
  show ?thesis
    using nodes frames signals tables by (simp add: section_step_def split: if_split)
qed

lemma parse_top_returns: "list_all numbers_fit ls \<Longrightarrow> \<exists>db'. parse_top ls db = Ret db'"
proof (induction ls db rule: parse_top_induct)
  case (turn line ls db)
  have fit: "list_all numbers_fit ls" using turn.prems by simp
  obtain ls1 db1 where s: "section_step line ls db = Ret (ls1, db1)" "set ls1 \<subseteq> set ls"
    using section_step_returns [OF fit] by blast
  then have "list_all numbers_fit ls1" using fit by (auto simp: list_all_iff)
  then show ?case using turn.IH [OF s(1)] s(1) by (simp add: parse_top_turn del: parse_top.simps)
qed simp

subsection \<open>The property\<close>

text \<open>C15: whatever the text, the parser comes to its end with a database, unless a line has, where an
  initial value or a delay is read, a number that is negative, too large, infinite or NaN. Then, and
  only then, reading that line is undefined.\<close>

theorem parse_returns:
  assumes "list_all numbers_fit (parse_lines r)"
  shows "(\<exists>db. parse r = Ret db \<and> db_ok db) \<and>
    (\<forall>l db. (signal_line l db = UB \<or> entry_line l db = UB) = (\<not> numbers_fit l))"
proof -
  obtain db where "parse r = Ret db" using parse_top_returns [OF assms] by (auto simp: parse_def)
  then show ?thesis
    using parse_ok by (auto simp: signal_line_outcome entry_line_outcome numbers_fit_def split: option.splits)
qed

text \<open>A text that is broken in many places.\<close>

definition broken_text :: string where
  "broken_text = concat (map (\<lambda>l. l @ [CHR 0x0A])
     [''} stray'', ''Signals {'', ''no colon'', ''A : 99 , zero , M'', ''B: x, 0x1F, M'', ''}'',
      ''Frames {'', ''F : 0x300 {'', ''A, -3;'', ''Schedule_tables {'', ''T {'', ''F delay 0xA'', ''F delay''])"

theorem parse_returns_witness: "\<exists>db. parse broken_text = Ret db \<and> db_ok db"
proof -
  have "list_all numbers_fit (parse_lines broken_text)" by code_simp
  from parse_returns [OF this] show ?thesis by blast
qed

end
