(* ===== verification/CppRounding.thy ===== *)
theory CppRounding
  imports CppDouble Complex_Main
begin

text \<open>
  The reading of floating point numbers in theory \<open>CppDouble\<close> is the one of IEEE 754: the value of
  \<open>std::stod\<close>, which \<open>src/ldf/parser.cpp\<close> takes every decimal number with, is the exact value of the text
  rounded to the nearest \<open>double\<close>, ties to even.
\<close>

subsection \<open>Quotients and their rounding\<close>

lemma real_quotient:
  "0 < d \<Longrightarrow> real n / real d = real (n div d) + real (n mod d) / real d"
proof -
  assume d: "0 < d"
  have "real n = real (n div d) * real d + real (n mod d)"
    by (metis div_mult_mod_eq of_nat_add of_nat_mult)
  then show ?thesis using d by (simp add: add_divide_distrib)
qed

lemma scaled_value:
  assumes "0 < den" "scaled num den e = (q, r, d)"
  shows "r < d" "real num / real den = (real q + real r / real d) * 2 powi e"
proof -
  define n where "n = (if e < 0 then num * 2 ^ nat (- e) else num)"
  have d: "d = (if e < 0 then den else den * 2 ^ nat e)" "q = n div d" "r = n mod d"
    using assms(2) by (auto simp: scaled_def Let_def n_def)
  have pos: "0 < d" using assms(1) d(1) by simp
  then show "r < d" using d(3) by simp
  have "real n / real d * 2 powi e = real num / real den"
    using assms(1) by (cases "e < 0") (simp_all add: n_def d(1) power_int_def field_simps)
  then show "real num / real den = (real q + real r / real d) * 2 powi e"
    using real_quotient [OF pos, of n] d(2,3) by simp
qed

lemma round_even_near:
  assumes "r < d"
  shows "\<bar>real (round_even (q, r, d)) - (real q + real r / real d)\<bar> \<le> 1 / 2"
    and "\<bar>real (round_even (q, r, d)) - (real q + real r / real d)\<bar> = 1 / 2 \<Longrightarrow> even (round_even (q, r, d))"
proof -
  define f where "f = real r / real d"
  have d: "0 < real d" using assms by simp
  have f: "0 \<le> f" "f < 1" using assms by (simp_all add: f_def)
  have "f > 1 / 2 \<longleftrightarrow> 1 / 2 * real d < real r" unfolding f_def by (rule pos_less_divide_eq [OF d])
  then have over: "2 * r > d \<longleftrightarrow> f > 1 / 2" by linarith
  have "f = 1 / 2 \<longleftrightarrow> real r = 1 / 2 * real d" unfolding f_def using d by (intro nonzero_divide_eq_eq) simp
  then have tie: "2 * r = d \<longleftrightarrow> f = 1 / 2" by linarith
  show "\<bar>real (round_even (q, r, d)) - (real q + real r / real d)\<bar> \<le> 1 / 2"
    using f unfolding f_def [symmetric] by (auto simp: round_even_def over tie)
  show "even (round_even (q, r, d))" if "\<bar>real (round_even (q, r, d)) - (real q + real r / real d)\<bar> = 1 / 2"
    using that f unfolding f_def [symmetric] by (auto simp: round_even_def over tie split: if_splits)
qed

text \<open>The bit lengths place the quotient: with the exponent chosen it has 53 bits, or is rounded up to 54.\<close>

lemma quotient_range:
  assumes "0 < num" "0 < den" "e0 = int (bit_length num) - int (bit_length den) - 53"
  shows "2 ^ 52 < real num / real den / 2 powi e0" "real num / real den / 2 powi e0 < 2 ^ 54"
proof -
  define a b where "a = bit_length num" and "b = bit_length den"
  have n: "2 ^ (a - 1) \<le> num" "num < 2 ^ a" "0 < a" and d: "2 ^ (b - 1) \<le> den" "den < 2 ^ b" "0 < b"
    using bit_length_bounds [OF assms(1)] bit_length_bounds [OF assms(2)] by (simp_all only: a_def b_def)
  have rn: "2 ^ a \<le> 2 * real num" "real num < 2 ^ a" and rd: "2 ^ b \<le> 2 * real den" "real den < 2 ^ b"
  proof -
    have half: "(2 :: nat) ^ k = 2 * 2 ^ (k - 1)" if "0 < k" for k using that by (cases k) simp_all
    have "(2 :: nat) ^ a \<le> 2 * num" "(2 :: nat) ^ b \<le> 2 * den"
      using n(1) d(1) half [OF n(3)] half [OF d(3)] by linarith+
    then have "real (2 ^ a) \<le> real (2 * num)" "real (2 ^ b) \<le> real (2 * den)" by (simp_all only: of_nat_le_iff)
    then show "2 ^ a \<le> 2 * real num" "2 ^ b \<le> 2 * real den" by simp_all
    have "real num < real (2 ^ a)" "real den < real (2 ^ b)" using n(2) d(2) by (simp_all only: of_nat_less_iff)
    then show "real num < 2 ^ a" "real den < 2 ^ b" by simp_all
  qed
  have "(2 :: real) powi e0 = 2 powi int a / 2 powi int b / 2 powi 53"
    by (simp only: assms(3) a_def b_def power_int_diff zero_neq_numeral [symmetric] simp_thms if_False not_False_eq_True)
  then have e: "(2 :: real) powi e0 = 2 ^ a / 2 ^ b / 2 ^ 53" by simp
  have pos: "0 < real den" "0 < (2 :: real) ^ a" "0 < (2 :: real) ^ b" using assms(2) by simp_all
  have low: "2 ^ a * real den < 2 * real num * 2 ^ b"
    using rn(1) rd(2) pos by (meson le_less_trans less_le_trans mult_left_mono mult_right_mono mult_strict_left_mono less_imp_le)
  have high: "real num * 2 ^ b < 2 * real den * 2 ^ a"
  proof -
    have "real num * 2 ^ b < 2 ^ a * 2 ^ b" using rn(2) pos(3) by (rule mult_strict_right_mono)
    also have "\<dots> \<le> 2 ^ a * (2 * real den)" using rd(1) pos(2) by (intro mult_left_mono) simp_all
    finally show ?thesis by (simp only: mult.commute mult.left_commute mult.assoc)
  qed
  define A B where "A = (2 :: real) ^ a" and "B = (2 :: real) ^ b"
  have v: "real num / real den / 2 powi e0 = real num * B * 2 ^ 53 / (real den * A)"
    unfolding e A_def [symmetric] B_def [symmetric] using pos by (simp add: A_def B_def)
  have dA: "0 < real den * A" using pos by (simp add: A_def)
  show "2 ^ 52 < real num / real den / 2 powi e0"
    unfolding v less_divide_eq using dA low by (simp add: A_def [symmetric] B_def [symmetric] algebra_simps)
  show "real num / real den / 2 powi e0 < 2 ^ 54"
    unfolding v divide_less_eq using dA high by (simp add: A_def [symmetric] B_def [symmetric] algebra_simps)
qed

text \<open>
  What \<open>nearest\<close> gives is within half a unit in the last place of the exact value, ties to even,
  and has full precision unless it is exact.
\<close>

lemma nearest_rounds:
  assumes "0 < num" "0 < den" "nearest num den = Some (m, e)"
  shows "\<bar>real num / real den - real m * 2 powi e\<bar> \<le> 2 powi e / 2"
    and "\<bar>real num / real den - real m * 2 powi e\<bar> = 2 powi e / 2 \<Longrightarrow> even m"
    and "m \<le> 2 ^ 53" "- 1074 \<le> e" "e \<le> 971"
    and "2 ^ 52 \<le> m \<or> real num / real den = real m * 2 powi e"
proof -
  define e0 where "e0 = int (bit_length num) - int (bit_length den) - 53"
  define e1 where "e1 = (if fst (scaled num den e0) \<ge> 2 ^ 53 then e0 + 1 else e0)"
  define k where "k = max e1 (- 1074)"
  have n: "nearest num den =
      (if k > 971 \<or> (k = 971 \<and> round_even (scaled num den k) \<ge> 2 ^ 53) then None
       else if round_even (scaled num den k) < 2 ^ 52 \<and> fst (snd (scaled num den k)) \<noteq> 0 then None
       else Some (round_even (scaled num den k), k))"
    by (simp only: nearest_def Let_def e0_def e1_def k_def)
  have e: "e = max e1 (- 1074)" and m: "m = round_even (scaled num den e)"
    and bounds: "e \<le> 971" "\<not> (m < 2 ^ 52 \<and> fst (snd (scaled num den e)) \<noteq> 0)"
    using assms(3) unfolding n by (auto simp flip: k_def split: if_splits)
  show "- 1074 \<le> e" "e \<le> 971" using e bounds(1) by simp_all
  obtain q r d where s: "scaled num den e = (q, r, d)" by (cases "scaled num den e")
  note val = scaled_value [OF assms(2) s]
  define x where "x = real q + real r / real d"
  have p: "0 < (2 :: real) powi e" by simp
  have "real num / real den - real m * 2 powi e = (x - real m) * 2 powi e"
    unfolding val(2) x_def by (simp add: algebra_simps)
  then have diff: "\<bar>real num / real den - real m * 2 powi e\<bar> = \<bar>real m - x\<bar> * 2 powi e"
    using p by (simp add: abs_mult)
  have near: "\<bar>real m - x\<bar> \<le> 1 / 2" "\<bar>real m - x\<bar> = 1 / 2 \<Longrightarrow> even m"
    using round_even_near [OF val(1)] unfolding m s x_def by blast+
  show "\<bar>real num / real den - real m * 2 powi e\<bar> \<le> 2 powi e / 2"
    unfolding diff using mult_right_mono [OF near(1), of "2 powi e"] p by simp
  show "even m" if "\<bar>real num / real den - real m * 2 powi e\<bar> = 2 powi e / 2"
    using that p unfolding diff by (intro near(2)) simp
  show "2 ^ 52 \<le> m \<or> real num / real den = real m * 2 powi e"
    using bounds(2) val m s by (auto simp: round_even_def)
  have "real num / real den / 2 powi e1 < 2 ^ 53"
  proof (cases "fst (scaled num den e0) \<ge> 2 ^ 53")
    case True
    then have "(2 :: real) powi e1 = 2 powi e0 * 2" by (simp add: e1_def power_int_add)
    then have "real num / real den / 2 powi e1 = real num / real den / 2 powi e0 / 2" by simp
    moreover have "real num / real den / 2 powi e0 < 2 * 2 ^ 53"
      using quotient_range(2) [OF assms(1,2) e0_def] by simp
    moreover have "u < c" if "u = v / 2" "v < 2 * c" for u v c :: real using that by simp
    ultimately show ?thesis by blast
  next
    case False
    obtain q0 r0 d0 where s0: "scaled num den e0 = (q0, r0, d0)" by (cases "scaled num den e0")
    note val0 = scaled_value [OF assms(2) s0]
    have "q0 + 1 \<le> 2 ^ 53" using False s0 by simp
    then have "real (q0 + 1) \<le> real (2 ^ 53)" by (simp only: of_nat_le_iff)
    moreover have "real r0 / real d0 < 1" using val0(1) by simp
    ultimately have "real q0 + real r0 / real d0 < 2 ^ 53" by simp
    then show ?thesis using False unfolding val0(2) by (simp add: e1_def)
  qed
  moreover have "(2 :: real) powi e1 \<le> 2 powi e" unfolding e by (intro power_int_increasing) simp_all
  then have "x \<le> real num / real den / 2 powi e1"
  proof -
    have "x = real num / real den / 2 powi e" unfolding val(2) x_def by simp
    also have "\<dots> \<le> real num / real den / 2 powi e1"
      using \<open>2 powi e1 \<le> 2 powi e\<close> by (intro divide_left_mono) simp_all
    finally show ?thesis .
  qed
  ultimately have "real m < 2 ^ 53 + 1" using near(1) by linarith
  then have "real m < real (2 ^ 53 + 1)" by simp
  then show "m \<le> 2 ^ 53" unfolding of_nat_less_iff by simp
qed

text \<open>Between 1 and $2^{1000}$ there always is one.\<close>

lemma nearest_returns:
  assumes "0 < den" "den \<le> num" "num < 2 ^ 1000 * den"
  shows "nearest num den \<noteq> None"
proof -
  define e0 where "e0 = int (bit_length num) - int (bit_length den) - 53"
  define e1 where "e1 = (if fst (scaled num den e0) \<ge> 2 ^ 53 then e0 + 1 else e0)"
  define v where "v = real num / real den"
  have num: "0 < num" using assms(1,2) by simp
  have "real num < real (2 ^ 1000 * den)" using assms(3) by (simp only: of_nat_less_iff)
  then have v: "1 \<le> v" "v < 2 powi 1000" using assms(1,2) by (simp_all add: v_def field_simps)
  have range: "2 ^ 52 < v / 2 powi e0" "v / 2 powi e0 < 2 ^ 54"
    unfolding v_def by (rule quotient_range [OF num assms(1) e0_def])+
  have "(2 :: real) powi (52 + e0) < 2 powi 1000"
  proof -
    have "(2 :: real) powi (52 + e0) = 2 ^ 52 * 2 powi e0" by (simp add: power_int_add)
    also have "\<dots> < v" using range(1) by (simp add: pos_less_divide_eq)
    finally show ?thesis using v(2) by simp
  qed
  then have up: "e0 < 948" using power_int_increasing [of 1000 "52 + e0" "2 :: real"] by (intro linorder_not_le [THEN iffD1] notI) simp
  have "(2 :: real) powi 0 < 2 powi (54 + e0)"
  proof -
    have "v < 2 ^ 54 * 2 powi e0" using range(2) by (simp add: pos_divide_less_eq)
    also have "\<dots> = 2 powi (54 + e0)" by (simp add: power_int_add)
    finally show ?thesis using v(1) by simp
  qed
  then have down: "- 54 < e0" using power_int_increasing [of "54 + e0" 0 "2 :: real"] by (intro linorder_not_le [THEN iffD1] notI) simp
  have k: "max e1 (- 1074) = e1" "e1 < 971" using up down by (simp_all add: e1_def)
  obtain q r d where s: "scaled num den e1 = (q, r, d)" by (cases "scaled num den e1")
  note val = scaled_value [OF assms(1) s]
  have x: "2 ^ 52 \<le> real q + real r / real d"
  proof (cases "fst (scaled num den e0) \<ge> 2 ^ 53")
    case True
    obtain q0 r0 d0 where s0: "scaled num den e0 = (q0, r0, d0)" by (cases "scaled num den e0")
    have "real (2 ^ 53) \<le> real q0" using True s0 by (simp only: of_nat_le_iff fst_conv)
    moreover have "0 \<le> real r0 / real d0" by simp
    moreover have "real (2 ^ 53) = 2 ^ 53" by simp
    ultimately have "2 ^ 53 \<le> real q0 + real r0 / real d0" by linarith
    then have "2 * 2 ^ 52 * 2 powi e0 \<le> v"
      unfolding v_def scaled_value(2) [OF assms(1) s0] by (intro mult_right_mono) simp_all
    moreover have "v = 2 * (real q + real r / real d) * 2 powi e0"
      unfolding v_def val(2) using True by (simp add: e1_def power_int_add)
    ultimately have "2 * 2 ^ 52 \<le> 2 * (real q + real r / real d)" by (meson mult_right_le_imp_le zero_less_power_int zero_less_numeral)
    then show ?thesis by simp
  next
    case False
    then have "v / 2 powi e0 = real q + real r / real d" unfolding v_def val(2) by (simp add: e1_def)
    then show ?thesis using range(1) by simp
  qed
  define n where "n = round_even (q, r, d)"
  have "2 ^ 52 < real n + 1"
    using round_even_near(1) [OF val(1), of q] x unfolding n_def by linarith
  then have "real (2 ^ 52) < real (round_even (q, r, d) + 1)" by (simp only: n_def of_nat_power of_nat_add of_nat_1 of_nat_numeral)
  then have "2 ^ 52 < round_even (q, r, d) + 1" by (simp only: of_nat_less_iff)
  then have "\<not> round_even (scaled num den e1) < 2 ^ 52" by (simp add: s)
  then show ?thesis
    using k unfolding nearest_def Let_def e0_def [symmetric] e1_def [symmetric] by simp
qed

subsection \<open>Texts\<close>

text \<open>For a number with digits \<open>m\<close> and exponent \<open>k\<close> in a base, as the text gives them.\<close>

lemma scale_rounds:
  assumes "scale neg base m k = Inr (Finite neg' q e)" "0 < base"
  shows "neg' = neg \<and>
    \<bar>real m * real base powi k - real q * 2 powi e\<bar> \<le> 2 powi e / 2 \<and>
    (\<bar>real m * real base powi k - real q * 2 powi e\<bar> = 2 powi e / 2 \<longrightarrow> even q) \<and>
    q \<le> 2 ^ 53 \<and> - 1074 \<le> e \<and> e \<le> 971 \<and>
    (2 ^ 52 \<le> q \<or> real m * real base powi k = real q * 2 powi e)"
proof -
  define num den where "num = (if k < 0 then m else m * base ^ nat k)"
    and "den = (if k < 0 then base ^ nat (- k) else 1)"
  have td: "to_double neg num den = Inr (Finite neg' q e)"
    using assms(1) by (simp add: scale_def num_def den_def split: if_splits)
  have den: "0 < den" using assms(2) by (simp add: den_def)
  have val: "real m * real base powi k = real num / real den"
    using assms(2) by (simp add: num_def den_def power_int_def field_simps)
  show ?thesis
  proof (cases "num = 0")
    case True
    then have "neg' = neg" "q = 0" "e = 0" using td by (simp_all add: to_double_def)
    then show ?thesis unfolding val using True by simp
  next
    case False
    then have num: "0 < num" and n: "nearest num den = Some (q, e)" and "neg' = neg"
      using td by (auto simp: to_double_def split: option.splits)
    then show ?thesis unfolding val using nearest_rounds [OF num den n] by blast
  qed
qed

end
