(* ===== verification/LdfSpeed.thy ===== *)
theory LdfSpeed
  imports LdfRoundtrip CppRounding
begin

text \<open>
  The bus speed of an LDF file (\<open>extract_float_value\<close> in \<open>src/ldf/parser.cpp\<close>): what is read for a
  decimal number with a fraction.
\<close>

abbreviation all_digits :: "string \<Rightarrow> bool" where
  "all_digits fs \<equiv> \<forall>c\<in>set fs. digit_val 10 c \<noteq> None"

definition decimal_point :: "nat \<Rightarrow> string \<Rightarrow> string" where
  "decimal_point a fs = decimal a @ CHR ''.'' # fs"

lemma digits_of_all: "all_digits fs \<Longrightarrow> digits_of 10 fs = fs"
  unfolding digits_of_def by (simp add: takeWhile_eq_all_conv)

lemma mantissa_point:
  assumes "all_digits fs"
  shows "mantissa 10 (decimal_point a fs) = Some (decimal a @ fs, length fs, [])"
proof -
  have "digit_val 10 (CHR ''.'') = None" by code_simp
  then have "digits_of 10 (decimal_point a fs) = decimal a"
    unfolding digits_of_def decimal_point_def using decimal_digits by (simp add: takeWhile_append2 takeWhile_tail)
  then show ?thesis using assms by (simp add: mantissa_def Let_def decimal_point_def digits_of_all)
qed

lemma stod_point:
  assumes "all_digits fs"
  shows "stod (decimal_point a fs) = scale False 10 (digits_value 10 (decimal a @ fs)) (- int (length fs))"
proof -
  obtain c cs where c: "decimal a = c # cs" "digit_val 10 c \<noteq> None" "\<forall>d\<in>set cs. digit_val 10 d \<noteq> None"
    by (rule decimal_head)
  define t where "t = decimal_point a fs"
  have t: "t = c # (cs @ CHR ''.'' # fs)" by (simp add: t_def decimal_point_def c(1))
  have "to_lower (CHR ''.'') = CHR ''.''" by code_simp
  then have low: "map to_lower t = t"
    unfolding t using c assms digit_lower by (auto intro: map_idI)
  have front: "dropWhile is_space t = t" "hd t \<noteq> CHR ''-''" "hd t \<noteq> CHR ''+''"
    unfolding t using c digit_not_space digit_not_sign by auto
  have no: "take 2 t \<noteq> ''0x''"
    unfolding t using c(3) by (cases cs) (auto simp: digit_val_def)
  have no3: "take 3 t \<noteq> ''inf''" "take 3 t \<noteq> ''nan''"
    unfolding t using c(2) by (auto simp: digit_val_def)
  show ?thesis
    using mantissa_point [OF assms, of a] unfolding t_def [symmetric]
    by (simp add: stod_def front low no no3 exponent_def)
qed

lemma digits_value_append: "digits_value 10 (xs @ fs) = digits_value 10 xs * 10 ^ length fs + digits_value 10 fs"
proof (induction fs rule: rev_induct)
  case (snoc c fs)
  then show ?case
    using digits_value_snoc [of 10 "xs @ fs" c] digits_value_snoc [of 10 fs c] by (simp add: algebra_simps)
qed (simp add: digits_value_def)

lemma digit_less: "digit_val 10 c = Some v \<Longrightarrow> v < 10"
  by (simp add: digit_val_def Let_def split: if_splits)

lemma digits_value_less: "all_digits fs \<Longrightarrow> digits_value 10 fs < 10 ^ length fs"
proof (induction fs rule: rev_induct)
  case (snoc c fs)
  then obtain v where v: "digit_val 10 c = Some v" by auto
  have "digits_value 10 fs < 10 ^ length fs" using snoc by simp
  then show ?case using digit_less [OF v] by (simp add: digits_value_snoc v)
qed (simp add: digits_value_def)

text \<open>The value written, and the numbers the code ends up with.\<close>

definition decimal_real :: "nat \<Rightarrow> string \<Rightarrow> real" where
  "decimal_real a fs = real (digits_value 10 (decimal a @ fs)) / 10 ^ length fs"

definition rounded_to :: "real \<Rightarrow> cdouble \<Rightarrow> bool" where
  "rounded_to x d \<longleftrightarrow> (\<exists>q e. d = Finite False q e \<and> q \<le> 2 ^ 53 \<and> - 1074 \<le> e \<and> e \<le> 971 \<and>
     \<bar>x - real q * 2 powi e\<bar> \<le> 2 powi e / 2 \<and> (\<bar>x - real q * 2 powi e\<bar> = 2 powi e / 2 \<longrightarrow> even q) \<and>
     (2 ^ 52 \<le> q \<or> x = real q * 2 powi e))"

lemma stod_rounded:
  assumes "all_digits fs" "0 < a" "a < 10 ^ 300"
  shows "\<exists>d. stod (decimal_point a fs) = Inr d \<and> rounded_to (decimal_real a fs) d"
proof -
  define m n where "m = digits_value 10 (decimal a @ fs)" and "n = length fs"
  have m: "m = a * 10 ^ n + digits_value 10 fs" "digits_value 10 fs < 10 ^ n"
    using digits_value_append [of "decimal a" fs] digits_value_less [OF assms(1)] by (simp_all add: m_def n_def decimal_value)
  have "1 * 10 ^ n \<le> a * 10 ^ n" using assms(2) by (intro mult_le_mono1) simp
  then have low: "10 ^ n \<le> m" using m(1) by (simp only: mult_1)
  have "m < Suc a * 10 ^ n" using m by simp
  also have "\<dots> \<le> 10 ^ 300 * 10 ^ n" using assms(3) by (intro mult_le_mono1) simp
  also have "\<dots> \<le> 2 ^ 1000 * 10 ^ n" by (intro mult_le_mono1) simp
  finally have high: "m < 2 ^ 1000 * 10 ^ n" .
  have "nearest m (10 ^ n) \<noteq> None" using low high by (intro nearest_returns) simp_all
  then obtain q e where near: "nearest m (10 ^ n) = Some (q, e)" by auto
  have "m \<noteq> 0" using low by (metis le_zero_eq power_not_zero zero_neq_numeral)
  then have "scale False 10 m (- int n) = Inr (Finite False q e)"
  proof (cases "n = 0")
    case True
    then show ?thesis using near \<open>m \<noteq> 0\<close> by (simp add: scale_def to_double_def)
  next
    case False
    then show ?thesis using near \<open>m \<noteq> 0\<close> by (simp add: scale_def to_double_def)
  qed
  moreover from this have "rounded_to (real m * real 10 powi (- int n)) (Finite False q e)"
    using scale_rounds [of False 10 m "- int n" False q e] by (simp add: rounded_to_def)
  moreover have "real m * real 10 powi (- int n) = decimal_real a fs"
    by (simp add: decimal_real_def m_def n_def power_int_minus_divide)
  ultimately show ?thesis using stod_point [OF assms(1), of a] by (simp add: m_def n_def)
qed

text \<open>The whole file needs a reading of its speed; this is one.\<close>

lemma parse_speed:
  assumes "file_fits f" "lf_speed f = decimal_point a fs" "all_digits fs" "0 < a" "a < 10 ^ 300"
  obtains d where "parse (print_ldf f) = Ret (db_of_file f d)" "rounded_to (decimal_real a fs) d"
  using stod_rounded [OF assms(3-5)] parse_print [OF assms(1)] assms(2) that by auto

subsection \<open>Property\<close>

text \<open>C19: the bus speed a file gives in decimals, from 1 up to 300 digits before the point, with any digits
  after it, becomes the nearest \<open>double\<close>: it is off by at most half a unit in the last of its
  53 places, ties go to the even one, and it has full precision unless it is exact.\<close>

theorem ldf_speed_rounded:
  assumes "file_fits f" "lf_speed f = decimal_point a fs" "all_digits fs" "0 < a" "a < 10 ^ 300"
  shows "\<exists>db q e. parse (print_ldf f) = Ret db \<and> db_speed db = Finite False q e \<and> q \<le> 2 ^ 53 \<and>
    \<bar>decimal_real a fs - real q * 2 powi e\<bar> \<le> 2 powi e / 2 \<and>
    (\<bar>decimal_real a fs - real q * 2 powi e\<bar> = 2 powi e / 2 \<longrightarrow> even q) \<and>
    (2 ^ 52 \<le> q \<or> decimal_real a fs = real q * 2 powi e)"
proof -
  obtain d where d: "parse (print_ldf f) = Ret (db_of_file f d)" "rounded_to (decimal_real a fs) d"
    using assms by (rule parse_speed)
  have "db_speed (db_of_file f d) = d" by (simp add: db_of_file_def)
  then show ?thesis using d unfolding rounded_to_def by blast
qed

text \<open>A file with the usual speed of 19.2 kbps.\<close>

lemma demo_speed_fits: "file_fits (demo_file\<lparr>lf_speed := decimal_point 19 ''2''\<rparr>)"
proof -
  have "name_ok (decimal_point 19 ''2'')" by code_simp
  then show ?thesis using demo_file_fits by (simp add: file_fits_def)
qed

theorem ldf_speed_rounded_witness:
  "\<exists>db q e. parse (print_ldf (demo_file\<lparr>lf_speed := ''19.2''\<rparr>)) = Ret db \<and> db_speed db = Finite False q e \<and>
    \<bar>19.2 - real q * 2 powi e\<bar> \<le> 2 powi e / 2"
proof -
  have tok: "decimal_point 19 ''2'' = ''19.2''" by code_simp
  have "digits_value 10 (decimal 19 @ ''2'') = 192" by code_simp
  then have val: "decimal_real 19 ''2'' = 19.2" by (simp add: decimal_real_def)
  have digits: "all_digits ''2''" by code_simp
  have less: "(19 :: nat) < 10 ^ 300" by simp
  show ?thesis
    using ldf_speed_rounded [OF demo_speed_fits _ digits _ less] unfolding tok val by auto
qed

end
