(* ===== verification/CliJson.thy ===== *)
theory CliJson
  imports Lin "HOL-Library.List_Lexorder" "HOL-Library.Product_Lexorder" "HOL-Library.Char_ord"
begin

text \<open>
  \<open>cli/json.hpp\<close>: base64, the three extractors that read a value after a key, the reader of a
  LIN frame, the writer of a RELAY message, and the fixed texts of the tool. The tool's version
  string comes from a header the build generates (\<open>cli/version.hpp.in\<close>); it is a parameter.
\<close>

subsection \<open>Base64\<close>

definition b64val :: "char \<Rightarrow> int" where
  "b64val ch =
    (let c = int (char_nat ch)
     in if 65 \<le> c \<and> c \<le> 90 then c - 65
        else if 97 \<le> c \<and> c \<le> 122 then c - 97 + 26
        else if 48 \<le> c \<and> c \<le> 57 then c - 48 + 52
        else if c = 43 then 62
        else if c = 47 then 63
        else - 1)"

definition kAlpha :: string where
  "kAlpha = ''ABCDEFGHIJKLMNOPQRSTUVWXYZabcdefghijklmnopqrstuvwxyz0123456789+/''"

text \<open>The letter of the six bits of \<open>b\<close> from bit \<open>n\<close> on.\<close>

definition sextet :: "u32 \<Rightarrow> nat \<Rightarrow> char" where
  "sextet b n = kAlpha ! unat (drop_bit n b AND 0x3F)"

text \<open>The loop takes three bytes at a time; the last group may hold one or two.\<close>

fun base64_encode :: "bytes \<Rightarrow> string" where
  "base64_encode [] = []"
| "base64_encode [x] =
    (let b = push_bit 16 (ucast x) in [sextet b 18, sextet b 12, CHR ''='', CHR ''=''])"
| "base64_encode [x, y] =
    (let b = push_bit 16 (ucast x) OR push_bit 8 (ucast y)
     in [sextet b 18, sextet b 12, sextet b 6, CHR ''=''])"
| "base64_encode (x # y # z # data) =
    (let b = push_bit 16 (ucast x) OR push_bit 8 (ucast y) OR ucast z
     in [sextet b 18, sextet b 12, sextet b 6, sextet b 0] @ base64_encode data)"

fun base64_loop :: "string \<Rightarrow> u32 \<Rightarrow> nat \<Rightarrow> bytes \<Rightarrow> bytes" where
  "base64_loop [] accum bits out = out"
| "base64_loop (c # s) accum bits out =
    (if c = CHR ''='' then out
     else
       let v = b64val c
       in if v < 0 then base64_loop s accum bits out
          else
            let accum' = push_bit 6 accum OR word_of_int v;
                bits' = bits + 6
            in if 8 \<le> bits' then
                 base64_loop s accum' (bits' - 8) (out @ [ucast (drop_bit (bits' - 8) accum' AND 0xFF)])
               else base64_loop s accum' bits' out)"

definition base64_decode :: "string \<Rightarrow> bytes" where
  "base64_decode s = base64_loop s 0 0 []"

subsection \<open>Extractors\<close>

definition dquote :: char where "dquote = CHR 0x22"

text \<open>What follows the first occurrence of the quoted key and a colon, without blanks.\<close>

definition after_key :: "string \<Rightarrow> string \<Rightarrow> string option" where
  "after_key s key =
    (let k = dquote # key @ [dquote, CHR '':'']
     in case find_sub k s of
          None \<Rightarrow> None
        | Some p \<Rightarrow> Some (dropWhile (\<lambda>c. c = CHR '' '' \<or> c = CHR 0x09) (drop (p + length k) s)))"

text \<open>The extractors return whether they set their output: here, what they set it to.\<close>

definition extract_bool :: "string \<Rightarrow> string \<Rightarrow> bool option" where
  "extract_bool s key =
    (case after_key s key of
       None \<Rightarrow> None
     | Some r \<Rightarrow>
         if 4 \<le> length r \<and> take 4 r = ''true'' then Some True
         else if 5 \<le> length r \<and> take 5 r = ''false'' then Some False
         else None)"

definition extract_u32 :: "string \<Rightarrow> string \<Rightarrow> u32 option" where
  "extract_u32 s key =
    (case after_key s key of
       None \<Rightarrow> None
     | Some r \<Rightarrow>
         (case strtoull10 r of
            None \<Rightarrow> None
          | Some (v, _) \<Rightarrow> if v > 0xFFFFFFFF then None else Some (ucast v)))"

lemma strtoull10_progress: "strtoull10 s = Some (v, r) \<Longrightarrow> length r < length s"
  by (auto simp: strtoull10_def dest: strto_progress split: option.splits)

definition json_space :: "char \<Rightarrow> bool" where
  "json_space c \<longleftrightarrow> c = CHR '' '' \<or> c = CHR 0x09 \<or> c = CHR 0x0A \<or> c = CHR 0x0D"

text \<open>The loop over the elements of an array, from after the opening bracket on.\<close>

function bytes_loop :: "string \<Rightarrow> bytes \<Rightarrow> bytes" where
  "bytes_loop s out =
    (let s1 = dropWhile json_space s
     in if s1 = [] \<or> hd s1 = CHR '']'' then out
        else case strtoull10 s1 of
          None \<Rightarrow> out
        | Some (b, r) \<Rightarrow>
            if b > 255 then out
            else
              let r1 = dropWhile (\<lambda>c. c = CHR '' '' \<or> c = CHR 0x09) r;
                  r2 = (if r1 \<noteq> [] \<and> hd r1 = CHR '','' then tl r1 else r1)
              in bytes_loop r2 (out @ [ucast b]))"
  by pat_completeness auto
termination
proof (relation "measure (length \<circ> fst)", goal_cases)
  case (2 s out s1 a b r r1 r2)
  then have "length r < length s1" by (auto dest: strtoull10_progress)
  moreover have "length r2 \<le> length r1" "length r1 \<le> length r" "length s1 \<le> length s"
    using 2 by (simp_all add: length_dropWhile_le)
  ultimately show ?case by simp
qed simp

declare bytes_loop.simps [simp del]

definition extract_bytes :: "string \<Rightarrow> string \<Rightarrow> bytes option" where
  "extract_bytes s key =
    (case after_key s key of
       None \<Rightarrow> None
     | Some [] \<Rightarrow> None
     | Some (c # r) \<Rightarrow>
         if c = dquote then
           (case find_if (\<lambda>c. c = dquote) r of
              None \<Rightarrow> None
            | Some endq \<Rightarrow> Some (base64_decode (take endq r)))
         else if c \<noteq> CHR ''['' then None
         else Some (bytes_loop r []))"

subsection \<open>Frames in, messages out\<close>

definition id_error :: string where
  "id_error = ''invalid input JSON: missing or invalid '' @ [CHR 0x27] @ ''id'' @ [CHR 0x27] @ '' field''"

text \<open>\<open>Inl\<close> is a \<open>std::runtime_error\<close> with its text.\<close>

definition parse_frame_json :: "string \<Rightarrow> string + frame" where
  "parse_frame_json json =
    (case extract_u32 json ''id'' of
       None \<Rightarrow> Inl id_error
     | Some id_val \<Rightarrow>
         (let f = default_frame\<lparr>f_id := ucast id_val\<rparr>;
              f = (case extract_bytes json ''data'' of Some d \<Rightarrow> f\<lparr>f_data := d\<rparr> | None \<Rightarrow> f);
              f = (case extract_u32 json ''checksum_type'' of
                     Some ct \<Rightarrow> f\<lparr>f_checksum_type := (if ct = 1 then Enhanced else Classic)\<rparr>
                   | None \<Rightarrow> f);
              f = (case extract_u32 json ''checksum'' of Some cs \<Rightarrow> f\<lparr>f_checksum := ucast cs\<rparr> | None \<Rightarrow> f)
          in Inr f))"

text \<open>A quoted text, not escaped.\<close>

definition quoted :: "string \<Rightarrow> string" where
  "quoted s = dquote # s @ [dquote]"

fun meta_json :: "(string \<times> string) list \<Rightarrow> string" where
  "meta_json [] = []"
| "meta_json [(k, v)] = quoted k @ '':'' @ quoted v"
| "meta_json ((k, v) # m) = quoted k @ '':'' @ quoted v @ '','' @ meta_json m"

definition message_to_json :: "message \<Rightarrow> string" where
  "message_to_json m =
    ''{'' @
    quoted ''protocol'' @ '':'' @ decimal_int (protocol_int (m_protocol m)) @ '','' @
    quoted ''version'' @ '':{'' @ quoted ''major'' @ '':'' @ decimal_int (v_major (m_version m)) @
      '','' @ quoted ''minor'' @ '':'' @ decimal_int (v_minor (m_version m)) @
      '','' @ quoted ''patch'' @ '':'' @ decimal_int (v_patch (m_version m)) @ ''},'' @
    quoted ''id'' @ '':'' @ quoted (m_id m) @ '','' @
    quoted ''payload'' @ '':'' @ quoted (base64_encode (m_payload m)) @ '','' @
    quoted ''timestamp'' @ '':'' @ quoted ''0001-01-01T00:00:00Z'' @
    (if m_seq m \<noteq> 0 then '','' @ quoted ''seq'' @ '':'' @ decimal (unat (m_seq m)) else []) @
    (if m_meta m \<noteq> [] then '','' @ quoted ''meta'' @ '':{'' @ meta_json (sort (m_meta m)) @ ''}'' else []) @
    ''}''"

subsection \<open>The fixed texts\<close>

definition nl :: string where "nl = [CHR 0x0A]"

definition field :: "string \<Rightarrow> string \<Rightarrow> string" where
  "field k v = quoted k @ '':'' @ quoted v"

definition string_array :: "string list \<Rightarrow> string" where
  "string_array xs = ''['' @ foldr (\<lambda>x s. quoted x @ (if s = [] then [] else '','') @ s) xs [] @ '']''"

definition version_json :: "string \<Rightarrow> string" where
  "version_json kToolVersion =
    ''{'' @ field ''tool'' ''cpp-lin'' @ '','' @ field ''protocol'' ''LIN'' @ '','' @
    quoted ''protocol_int'' @ '':3,'' @ field ''version'' kToolVersion @ '','' @
    field ''spec_version'' ''2.0'' @ '','' @ field ''language'' ''cpp'' @ '','' @
    field ''runtime'' ''c++17'' @ ''}''"

definition version_text :: "string \<Rightarrow> string" where
  "version_text kToolVersion =
    ''tool:      cpp-lin'' @ nl @ ''protocol:  LIN'' @ nl @ ''version:   '' @ kToolVersion @ nl @
    ''spec:      2.0'' @ nl @ ''language:  cpp'' @ nl @ ''runtime:   c++17'' @ nl"

definition capabilities_json :: "string \<Rightarrow> string" where
  "capabilities_json kToolVersion =
    ''{'' @ field ''kind'' ''capabilities'' @ '','' @ field ''tool'' ''cpp-lin'' @ '','' @
    field ''protocol'' ''LIN'' @ '','' @ quoted ''protocol_int'' @ '':3,'' @
    field ''version'' kToolVersion @ '','' @ field ''spec_version'' ''2.0'' @ '','' @
    quoted ''commands'' @ '':'' @ string_array [''version'', ''capabilities'', ''status'', ''convert''] @ '','' @
    quoted ''transports'' @ '':'' @ string_array [''virtual''] @ '','' @
    quoted ''features'' @ '':'' @ string_array [''ldf'', ''e2e'', ''master'', ''slave'', ''mock''] @ '','' @
    quoted ''interfaces'' @ '':'' @ string_array [''IBus'', ''IMasterBus'', ''INode''] @ '','' @
    quoted ''optional_interfaces'' @ '':'' @ string_array [''IHealthProvider'', ''IMetricsProvider'', ''IDrainer''] @ '','' @
    quoted ''adapt'' @ '':true}''"

definition status_json :: "string \<Rightarrow> string" where
  "status_json kToolVersion =
    ''{'' @ field ''protocol'' ''LIN'' @ '','' @ field ''tool'' ''cpp-lin'' @ '','' @
    field ''version'' kToolVersion @ '','' @ quoted ''healthy'' @ '':true,'' @
    quoted ''connected'' @ '':false,'' @ field ''endpoint'' [] @ '','' @ quoted ''details'' @ '':{}}''"

definition status_text :: "string \<Rightarrow> string" where
  "status_text kToolVersion =
    ''protocol:   LIN'' @ nl @ ''tool:       cpp-lin'' @ nl @ ''version:    '' @ kToolVersion @ nl @
    ''healthy:    true'' @ nl @ ''connected:  false'' @ nl @ ''endpoint:   (none)'' @ nl"

subsection \<open>Base64 is inverted\<close>

lemma alpha_values: "map b64val kAlpha = map int [0..<64]"
  by (simp add: kAlpha_def b64val_def char_nat_def) code_simp

lemma alpha_marks: "CHR ''='' \<notin> set kAlpha" "dquote \<notin> set kAlpha"
  by (simp_all add: kAlpha_def dquote_def)

lemma alpha_length: "length kAlpha = 64"
  by (simp add: kAlpha_def)

lemma sextet_less: "unat (drop_bit n (b :: u32) AND 0x3F) < 64"
proof -
  have "drop_bit n b AND 0x3F \<le> 0x3F" by (rule word_and_le1)
  then show ?thesis by (simp add: word_le_nat_alt)
qed

lemma sextet_value: "b64val (sextet b n) = int (unat (drop_bit n b AND 0x3F))" "sextet b n \<noteq> CHR ''=''" "sextet b n \<noteq> dquote"
proof -
  define k where "k = unat (drop_bit n b AND 0x3F)"
  have k: "k < 64" using sextet_less [of n b] by (simp add: k_def)
  then have "b64val (kAlpha ! k) = map b64val kAlpha ! k" by (simp add: alpha_length)
  also have "\<dots> = int k" using k unfolding alpha_values by (simp del: upt_rec_numeral)
  finally show "b64val (sextet b n) = int (unat (drop_bit n b AND 0x3F))" by (simp add: sextet_def k_def)
  have "kAlpha ! k \<in> set kAlpha" using k by (intro nth_mem) (simp add: alpha_length)
  then show "sextet b n \<noteq> CHR ''=''" "sextet b n \<noteq> dquote"
    using alpha_marks by (auto simp: sextet_def k_def)
qed

lemma base64_letter:
  "base64_loop (sextet b n # s) accum bits out =
    (let a = push_bit 6 accum OR (drop_bit n b AND 0x3F)
     in if 8 \<le> bits + 6 then base64_loop s a (bits + 6 - 8) (out @ [ucast (drop_bit (bits + 6 - 8) a AND 0xFF)])
        else base64_loop s a (bits + 6) out)"
  using sextet_value [of b n] by (simp add: Let_def)

lemma u8_high [simp]: "8 \<le> n \<Longrightarrow> \<not> bit (w :: u8) n"
  using bit_imp_le_length [of w n] by auto

lemma base64_padding: "base64_loop (CHR ''='' # s) accum bits out = out"
  by simp

lemma base64_loop_encode: "base64_loop (base64_encode data) accum 0 out = out @ data"
proof (induction data arbitrary: accum out rule: base64_encode.induct)
  case (2 x)
  define b :: u32 where "b = push_bit 16 (ucast x)"
  have x: "ucast (drop_bit 4 (push_bit 6 (push_bit 6 accum OR (drop_bit 18 b AND 0x3F)) OR (drop_bit 12 b AND 0x3F)) AND 0xFF) = x"
    by (rule u8_eqI) (simp_all add: b_def bit_simps)
  show ?case
    using x by (simp add: b_def [symmetric] base64_letter base64_padding Let_def del: base64_loop.simps(2))
next
  case (3 x y)
  define b :: u32 where "b = push_bit 16 (ucast x) OR push_bit 8 (ucast y)"
  have x: "ucast (drop_bit 4 (push_bit 6 (push_bit 6 accum OR (drop_bit 18 b AND 0x3F)) OR (drop_bit 12 b AND 0x3F)) AND 0xFF) = x"
    by (rule u8_eqI) (simp_all add: b_def bit_simps)
  have y: "ucast (drop_bit 2 (push_bit 6 (push_bit 6 (push_bit 6 accum OR (drop_bit 18 b AND 0x3F)) OR (drop_bit 12 b AND 0x3F)) OR (drop_bit 6 b AND 0x3F)) AND 0xFF) = y"
    by (rule u8_eqI) (simp_all add: b_def bit_simps)
  show ?case
    using x y by (simp add: b_def [symmetric] base64_letter base64_padding Let_def del: base64_loop.simps(2))
next
  case (4 x y z data)
  define b :: u32 where "b = push_bit 16 (ucast x) OR push_bit 8 (ucast y) OR ucast z"
  have x: "ucast (drop_bit 4 (push_bit 6 (push_bit 6 accum OR (drop_bit 18 b AND 0x3F)) OR (drop_bit 12 b AND 0x3F)) AND 0xFF) = x"
    by (rule u8_eqI) (simp_all add: b_def bit_simps)
  have y: "ucast (drop_bit 2 (push_bit 6 (push_bit 6 (push_bit 6 accum OR (drop_bit 18 b AND 0x3F)) OR (drop_bit 12 b AND 0x3F)) OR (drop_bit 6 b AND 0x3F)) AND 0xFF) = y"
    by (rule u8_eqI) (simp_all add: b_def bit_simps)
  have z: "ucast (drop_bit 0 (push_bit 6 (push_bit 6 (push_bit 6 (push_bit 6 accum OR (drop_bit 18 b AND 0x3F)) OR (drop_bit 12 b AND 0x3F)) OR (drop_bit 6 b AND 0x3F)) OR (drop_bit 0 b AND 0x3F)) AND 0xFF) = z"
    by (rule u8_eqI) (simp_all add: b_def bit_simps)
  show ?case
    using x y z 4 by (simp add: b_def [symmetric] base64_letter base64_padding Let_def del: base64_loop.simps(2))
qed simp

lemma base64_decode_encode: "base64_decode (base64_encode data) = data"
  by (simp add: base64_decode_def base64_loop_encode)

end
