(* ===== verification/CliMain.thy ===== *)
theory CliMain
  imports CliJson
begin

text \<open>
  \<open>cli/main.cpp\<close>: the commands of \<open>cpp-lin-cli\<close>. A run is a function of the arguments, of standard
  input and of the version string of the build; its result is the exit code and what was written to
  the two output streams.
\<close>

subsection \<open>Commands\<close>

record cli_result =
  exit_code :: int
  std_out :: string
  std_err :: string

definition quote1 :: "string \<Rightarrow> string" where
  "quote1 s = CHR 0x27 # s @ [CHR 0x27]"

definition succeed :: "string \<Rightarrow> cli_result" where
  "succeed text_out = \<lparr>exit_code = 0, std_out = text_out, std_err = []\<rparr>"

definition fail_with :: "int \<Rightarrow> string \<Rightarrow> cli_result" where
  "fail_with code text_err = \<lparr>exit_code = code, std_out = [], std_err = text_err\<rparr>"

text \<open>The arguments after the command; \<open>Inl\<close> is what goes to standard error with the result \<open>false\<close>.\<close>

fun format_flag :: "string list \<Rightarrow> string \<Rightarrow> string + string" where
  "format_flag [] fmt = Inr fmt"
| "format_flag [arg] fmt = Inl (''ErrInvalidArgs: unrecognized argument '' @ quote1 arg @ nl)"
| "format_flag (arg # v # args) fmt =
    (if arg = ''--format'' then format_flag args v
     else Inl (''ErrInvalidArgs: unrecognized argument '' @ quote1 arg @ nl))"

definition parse_format_flag :: "string list \<Rightarrow> string + string" where
  "parse_format_flag args = format_flag args ''json''"

definition unsupported_format :: "string \<Rightarrow> string" where
  "unsupported_format fmt = ''ErrInvalidArgs: unsupported --format '' @ quote1 fmt @ '' (want text|json)'' @ nl"

definition cmd_version :: "string \<Rightarrow> string \<Rightarrow> cli_result" where
  "cmd_version ver fmt =
    (if fmt = ''json'' then succeed (version_json ver @ nl)
     else if fmt = ''text'' then succeed (version_text ver)
     else fail_with 2 (unsupported_format fmt))"

definition cmd_capabilities :: "string \<Rightarrow> cli_result" where
  "cmd_capabilities ver = succeed (capabilities_json ver @ nl)"

definition cmd_status :: "string \<Rightarrow> string \<Rightarrow> cli_result" where
  "cmd_status ver fmt =
    (if fmt = ''json'' then succeed (status_json ver @ nl)
     else if fmt = ''text'' then succeed (status_text ver)
     else fail_with 2 (unsupported_format fmt))"

definition cmd_convert :: "string \<Rightarrow> string \<Rightarrow> cli_result" where
  "cmd_convert protocol stdin =
    (if protocol \<noteq> ''LIN'' then fail_with 2 (''ErrUnsupportedProtocol'' @ nl)
     else
       let input = concat (getlines (CHR 0x0A) stdin)
       in case parse_frame_json input of
            Inl e \<Rightarrow> fail_with 1 (e @ nl)
          | Inr f \<Rightarrow>
              (case validate_frame f of
                 Inl e \<Rightarrow> fail_with 1 (''ErrInvalidFrame: '' @ lin_what e @ nl)
               | Inr _ \<Rightarrow>
                   let msg = (to_message f)\<lparr>m_timestamp := 0\<rparr>
                   in succeed (message_to_json msg @ nl)))"

text \<open>The arguments of \<open>convert\<close>: the protocol, or what goes to standard error.\<close>

fun convert_args :: "string list \<Rightarrow> string \<Rightarrow> string + string" where
  "convert_args [] protocol = Inr protocol"
| "convert_args [arg] protocol = Inr protocol"
| "convert_args (arg # v # args) protocol =
    (if arg = ''--protocol'' then convert_args args v
     else if arg = ''--format'' then
       (if v \<noteq> ''json'' then Inl (''ErrUnsupportedFormat: '' @ v @ nl) else convert_args args protocol)
     else convert_args (v # args) protocol)"

definition usage :: string where
  "usage = ''usage: cpp-lin-cli <command> [options]'' @ nl @ ''commands: version capabilities status convert'' @ nl"

text \<open>\<open>main\<close>; \<open>argv\<close> starts with the program's name.\<close>

definition cli_main :: "string \<Rightarrow> string list \<Rightarrow> string \<Rightarrow> cli_result" where
  "cli_main ver argv stdin =
    (case argv of
       prog # cmd # args \<Rightarrow>
         (if cmd = ''version'' then
            (case parse_format_flag args of Inl e \<Rightarrow> fail_with 2 e | Inr fmt \<Rightarrow> cmd_version ver fmt)
          else if cmd = ''capabilities'' then cmd_capabilities ver
          else if cmd = ''status'' then
            (case parse_format_flag args of Inl e \<Rightarrow> fail_with 2 e | Inr fmt \<Rightarrow> cmd_status ver fmt)
          else if cmd = ''convert'' then
            (case convert_args args [] of
               Inl e \<Rightarrow> fail_with 2 e
             | Inr protocol \<Rightarrow>
                 if protocol = [] then fail_with 2 (''ErrMissingArg: --protocol required'' @ nl)
                 else cmd_convert protocol stdin)
          else fail_with 2 (''ErrUnknownCommand: '' @ cmd @ nl))
     | _ \<Rightarrow> fail_with 2 usage)"

subsection \<open>Finding a key\<close>

lemma dquote_simps: "dquote = CHR 0x22" by (simp add: dquote_def)

lemma after_key_step:
  "\<not> is_prefix (dquote # key @ [dquote, CHR '':'']) (c # v) \<Longrightarrow> after_key (c # v) key = after_key v key"
  by (auto simp: after_key_def Let_def split: option.split)

lemma after_key_skip: "dquote \<notin> set u \<Longrightarrow> after_key (u @ v) key = after_key v key"
  by (induction u) (auto simp: after_key_step)

lemma is_prefix_append: "is_prefix p (p @ v)"
  by (induction p) auto

lemma find_sub_here: "is_prefix p s \<Longrightarrow> p \<noteq> [] \<Longrightarrow> find_sub p s = Some 0"
  by (cases s) (auto elim: is_prefix.elims)

lemma after_key_hit:
  "after_key (quoted key @ CHR '':'' # v) key = Some (dropWhile (\<lambda>c. c = CHR '' '' \<or> c = CHR 0x09) v)"
proof -
  define k where "k = dquote # key @ [dquote, CHR '':'']"
  have s: "quoted key @ CHR '':'' # v = k @ v" by (simp add: quoted_def k_def)
  have "find_sub k (k @ v) = Some 0" by (rule find_sub_here [OF is_prefix_append]) (simp add: k_def)
  then show ?thesis unfolding s after_key_def Let_def k_def [symmetric] by simp
qed

text \<open>Another key: neither it nor its value is taken for the one looked for.\<close>

lemma is_prefix_quote: "dquote \<notin> set a \<Longrightarrow> dquote \<notin> set b \<Longrightarrow> is_prefix (a @ [dquote, c]) (b @ dquote # v) \<Longrightarrow> a = b"
proof (induction a arbitrary: b)
  case Nil
  then show ?case by (cases b) auto
next
  case (Cons x a)
  then show ?case by (cases b) auto
qed

lemma after_key_other:
  assumes "dquote \<notin> set key" "dquote \<notin> set k" "k \<noteq> key" "key \<noteq> []" "CHR '':'' \<noteq> hd key"
  shows "after_key (quoted k @ CHR '':'' # v) key = after_key v key"
proof -
  have "\<not> is_prefix (dquote # key @ [dquote, CHR '':'']) (dquote # k @ dquote # CHR '':'' # v)"
    using is_prefix_quote [OF assms(1,2)] assms(3) by auto
  then have "after_key (quoted k @ CHR '':'' # v) key = after_key (k @ dquote # CHR '':'' # v) key"
    by (simp add: quoted_def after_key_step)
  also have "\<dots> = after_key (dquote # CHR '':'' # v) key" by (rule after_key_skip [OF assms(2)])
  also have "\<dots> = after_key (CHR '':'' # v) key"
    using assms(4,5) by (intro after_key_step) (cases key; auto)
  also have "\<dots> = after_key v key" by (rule after_key_step) (simp add: dquote_def)
  finally show ?thesis .
qed

lemma after_key_none: "dquote \<notin> set s \<Longrightarrow> after_key s key = None"
  using after_key_skip [of s "[]" key] by (simp add: after_key_def)

end
