(* ===== verification/CliProperties.thy ===== *)
theory CliProperties
  imports CliMain
begin

text \<open>
  What the command line tool does end to end: base64 is inverted, a frame written as JSON is read
  back, \<open>convert\<close> writes exactly one message text for it, and every run ends with one of three exit
  codes that tell where the output went.
\<close>

subsection \<open>A frame as JSON\<close>

fun print_bytes :: "bytes \<Rightarrow> string" where
  "print_bytes [] = []"
| "print_bytes [b] = decimal (unat b)"
| "print_bytes (b # c # bs) = decimal (unat b) @ CHR '','' # print_bytes (c # bs)"

text \<open>The payload as an array of numbers, or as base64.\<close>

definition payload_text :: "bool \<Rightarrow> bytes \<Rightarrow> string" where
  "payload_text b64 data = (if b64 then quoted (base64_encode data) else CHR ''['' # print_bytes data @ '']'')"

definition print_frame_json :: "bool \<Rightarrow> frame \<Rightarrow> string" where
  "print_frame_json b64 f =
    CHR ''{'' # quoted ''id'' @ CHR '':'' # decimal (unat (f_id f)) @ CHR '','' #
    quoted ''data'' @ CHR '':'' # payload_text b64 (f_data f) @ CHR '','' #
    quoted ''checksum_type'' @ CHR '':'' # decimal (if f_checksum_type f = Enhanced then 1 else 0) @ CHR '','' #
    quoted ''checksum'' @ CHR '':'' # decimal (unat (f_checksum f)) @ ''}''"

subsection \<open>Numbers and arrays\<close>

lemma digit_plain: "digit_val 10 c \<noteq> None \<Longrightarrow> c \<noteq> CHR '' '' \<and> c \<noteq> CHR 0x09 \<and> c \<noteq> dquote \<and> \<not> json_space c \<and> c \<noteq> CHR '']'' \<and> c \<noteq> CHR 0x0A"
  by (auto simp: digit_val_def json_space_def dquote_def char_nat_def)

lemma decimal_no_quote: "dquote \<notin> set (decimal n)"
  using decimal_digits digit_plain by blast

lemma decimal_hd: "digit_val 10 (hd (decimal n)) \<noteq> None"
  using decimal_digits [of "hd (decimal n)" n] by simp

lemma drop_blanks_decimal: "dropWhile (\<lambda>c. c = CHR '' '' \<or> c = CHR 0x09) (decimal n @ r) = decimal n @ r"
  using digit_plain [OF decimal_hd [of n]] by (cases "decimal n") auto

lemma extract_u32_decimal:
  assumes "after_key s key = Some (decimal n @ c # r)" "digit_val 10 c = None" "n < 2 ^ 32"
  shows "extract_u32 s key = Some (of_nat n)"
proof -
  have "strtoull10 (decimal n @ c # r) = Some (of_nat n, c # r)"
    using assms(2,3) by (intro strtoull10_decimal) auto
  moreover have "\<not> (of_nat n :: u64) > 0xFFFFFFFF"
    using assms(3) by (simp add: word_less_nat_alt unat_of_nat)
  moreover have "ucast (of_nat n :: u64) = (of_nat n :: u32)"
    by (rule unat_eqI) (use assms(3) in \<open>simp add: unsigned_ucast_eq unat_of_nat take_bit_nat_def\<close>)
  ultimately show ?thesis by (simp add: extract_u32_def assms(1))
qed

lemma no_delim: "c \<in> {CHR '','', CHR '']'', CHR ''}''} \<Longrightarrow> digit_val 10 c = None \<and> \<not> (c = CHR '' '' \<or> c = CHR 0x09)"
  by (auto simp: digit_val_def char_nat_def)

lemma bytes_loop_number:
  assumes "c = CHR '','' \<or> c = CHR '']''"
  shows "bytes_loop (decimal (unat (b :: u8)) @ c # r) out =
    bytes_loop (if c = CHR '','' then r else c # r) (out @ [b])"
proof -
  have d: "dropWhile json_space (decimal (unat b) @ c # r) = decimal (unat b) @ c # r"
    "hd (decimal (unat b) @ c # r) \<noteq> CHR '']''"
    using digit_plain [OF decimal_hd [of "unat b"]] by (cases "decimal (unat b)"; auto)+
  have n: "strtoull10 (decimal (unat b) @ c # r) = Some (of_nat (unat b), c # r)"
    using no_delim [of c] assms u8_unat_less [of b] by (intro strtoull10_decimal) auto
  have le: "\<not> (of_nat (unat b) :: u64) > 255"
    using u8_unat_less [of b] by (simp add: word_less_nat_alt unsigned_ucast_eq take_bit_nat_def)
  have cast: "ucast (of_nat (unat b) :: u64) = b"
    by (rule unat_eqI) (simp add: unsigned_ucast_eq take_bit_word_eq_self)
  have blank: "dropWhile (\<lambda>c. c = CHR '' '' \<or> c = CHR 0x09) (c # r) = c # r" using no_delim [of c] assms by auto
  show ?thesis
    by (subst bytes_loop.simps) (simp only: d n le blank cast Let_def option.case prod.case if_False list.sel, simp)
qed

lemma bytes_loop_print: "bytes_loop (print_bytes data @ CHR '']'' # r) out = out @ data"
proof (induction data arbitrary: out rule: print_bytes.induct)
  have stop: "bytes_loop (CHR '']'' # r) out = out" for out
    by (subst bytes_loop.simps) (simp add: json_space_def)
  {
    case 1
    then show ?case using stop by simp
  next
    case (2 b)
    then show ?case using bytes_loop_number [of "CHR '']''" b r out] stop by simp
  next
    case (3 b c bs)
    then show ?case using bytes_loop_number [of "CHR '',''" b "print_bytes (c # bs) @ CHR '']'' # r" out] by simp
  }
qed

subsection \<open>Reading the frame back\<close>

lemma base64_no_quote: "dquote \<notin> set (base64_encode data)"
proof -
  have "dquote \<noteq> CHR ''=''" by (simp add: dquote_def)
  then show ?thesis
    by (induction data rule: base64_encode.induct) (simp_all add: Let_def sextet_value(3) [symmetric])
qed

lemma print_bytes_no_quote: "dquote \<notin> set (print_bytes data)"
  by (induction data rule: print_bytes.induct) (use decimal_no_quote in \<open>auto simp: dquote_def\<close>)

lemma after_key_value:
  assumes "dquote \<notin> set key" "dquote \<notin> set v" "key \<noteq> []" "CHR '','' \<noteq> hd key"
  shows "after_key (quoted v @ CHR '','' # r) key = after_key r key"
proof -
  have "\<not> is_prefix (dquote # key @ [dquote, CHR '':'']) (dquote # v @ dquote # CHR '','' # r)"
  proof
    assume p: "is_prefix (dquote # key @ [dquote, CHR '':'']) (dquote # v @ dquote # CHR '','' # r)"
    then have "key = v" using is_prefix_quote [OF assms(1,2)] by auto
    with p show False by (simp add: is_prefix_take)
  qed
  then have "after_key (quoted v @ CHR '','' # r) key = after_key (v @ dquote # CHR '','' # r) key"
    by (simp add: quoted_def after_key_step)
  also have "\<dots> = after_key (dquote # CHR '','' # r) key" by (rule after_key_skip [OF assms(2)])
  also have "\<dots> = after_key (CHR '','' # r) key"
    using assms(3,4) by (intro after_key_step) (cases key; auto)
  also have "\<dots> = after_key r key" by (rule after_key_step) (simp add: dquote_def)
  finally show ?thesis .
qed

lemma after_key_payload:
  assumes "dquote \<notin> set key" "key \<noteq> []" "CHR '','' \<noteq> hd key"
  shows "after_key (payload_text b64 data @ CHR '','' # r) key = after_key r key"
proof (cases b64)
  case True
  then show ?thesis using after_key_value [OF assms(1) base64_no_quote assms(2,3)] by (simp add: payload_text_def)
next
  case False
  have "dquote \<notin> set (CHR ''['' # print_bytes data @ '']'' @ '','')"
    using print_bytes_no_quote by (simp add: dquote_def)
  then have "after_key ((CHR ''['' # print_bytes data @ '']'' @ '','') @ r) key = after_key r key" by (rule after_key_skip)
  then show ?thesis using False by (simp add: payload_text_def)
qed

lemma after_key_number: "after_key (decimal n @ CHR '','' # r) key = after_key r key"
proof -
  have "dquote \<notin> set (decimal n @ '','')" using decimal_no_quote by (simp add: dquote_def)
  then have "after_key ((decimal n @ '','') @ r) key = after_key r key" by (rule after_key_skip)
  then show ?thesis by simp
qed

lemma frame_fields:
  fixes f :: frame and b64 :: bool
  defines "s \<equiv> print_frame_json b64 f"
  shows "extract_u32 s ''id'' = Some (of_nat (unat (f_id f)))"
    and "extract_bytes s ''data'' = Some (f_data f)"
    and "extract_u32 s ''checksum_type'' = Some (if f_checksum_type f = Enhanced then 1 else 0)"
    and "extract_u32 s ''checksum'' = Some (of_nat (unat (f_checksum f)))"
proof -
  define ct where "ct = (if f_checksum_type f = Enhanced then 1 else 0 :: nat)"
  define t4 where "t4 = quoted ''checksum'' @ CHR '':'' # decimal (unat (f_checksum f)) @ ''}''"
  define t3 where "t3 = quoted ''checksum_type'' @ CHR '':'' # decimal ct @ CHR '','' # t4"
  define t2 where "t2 = quoted ''data'' @ CHR '':'' # payload_text b64 (f_data f) @ CHR '','' # t3"
  define t1 where "t1 = quoted ''id'' @ CHR '':'' # decimal (unat (f_id f)) @ CHR '','' # t2"
  have s: "after_key s key = after_key t1 key" for key
    unfolding s_def print_frame_json_def t1_def t2_def t3_def t4_def ct_def
    by (rule after_key_step) (simp add: dquote_def)
  have q: "dquote \<notin> set ''id''" "dquote \<notin> set ''data''" "dquote \<notin> set ''checksum_type''" "dquote \<notin> set ''checksum''"
    by (simp_all add: dquote_def)
  have u8: "unat (w :: u8) < 2 ^ 32" for w using u8_unat_less [of w] by simp
  have ctl: "ct < 2 ^ 32" by (simp add: ct_def)
  have delim: "digit_val 10 (CHR '','') = None" "digit_val 10 (CHR ''}'') = None" using no_delim by simp_all
  have "after_key s ''id'' = Some (decimal (unat (f_id f)) @ CHR '','' # t2)"
    unfolding s t1_def after_key_hit drop_blanks_decimal ..
  then show "extract_u32 s ''id'' = Some (of_nat (unat (f_id f)))"
    by (rule extract_u32_decimal [OF _ delim(1) u8])
  have t1: "after_key t1 key = after_key t2 key" if "key \<in> {''data'', ''checksum_type'', ''checksum''}" for key
    using that q unfolding t1_def by (subst after_key_other) (auto simp: after_key_number)
  have t2: "after_key t2 key = after_key t3 key" if "key \<in> {''checksum_type'', ''checksum''}" for key
    using that q unfolding t2_def by (subst after_key_other) (auto simp: after_key_payload)
  have "after_key s ''data'' = Some (dropWhile (\<lambda>c. c = CHR '' '' \<or> c = CHR 0x09) (payload_text b64 (f_data f) @ CHR '','' # t3))"
    using t1 [of "''data''"] unfolding s t2_def after_key_hit by simp
  also have "\<dots> = Some (payload_text b64 (f_data f) @ CHR '','' # t3)"
    by (simp add: payload_text_def quoted_def dquote_def)
  finally have d: "after_key s ''data'' = Some (payload_text b64 (f_data f) @ CHR '','' # t3)" .
  show "extract_bytes s ''data'' = Some (f_data f)"
  proof (cases b64)
    case True
    have "find_if (\<lambda>c. c = dquote) (base64_encode (f_data f) @ dquote # CHR '','' # t3) = Some (length (base64_encode (f_data f)))"
      using base64_no_quote [of "f_data f"] by (intro find_if_append) auto
    then show ?thesis
      unfolding extract_bytes_def d using True by (simp add: payload_text_def quoted_def base64_decode_encode)
  next
    case False
    have "CHR ''['' \<noteq> dquote" by (simp add: dquote_def)
    then show ?thesis
      unfolding extract_bytes_def d using False bytes_loop_print [of "f_data f" "CHR '','' # t3" "[]"]
      by (simp add: payload_text_def)
  qed
  have "after_key s ''checksum_type'' = Some (decimal ct @ CHR '','' # t4)"
    using t1 [of "''checksum_type''"] t2 [of "''checksum_type''"] unfolding s t3_def after_key_hit drop_blanks_decimal by simp
  then have "extract_u32 s ''checksum_type'' = Some (of_nat ct)" by (rule extract_u32_decimal [OF _ delim(1) ctl])
  then show "extract_u32 s ''checksum_type'' = Some (if f_checksum_type f = Enhanced then 1 else 0)" by (simp add: ct_def)
  have "after_key t3 ''checksum'' = after_key t4 ''checksum''"
    using q unfolding t3_def by (subst after_key_other) (auto simp: after_key_number)
  then have "after_key s ''checksum'' = Some (decimal (unat (f_checksum f)) @ CHR ''}'' # [])"
    using t1 [of "''checksum''"] t2 [of "''checksum''"] unfolding s t4_def after_key_hit drop_blanks_decimal by simp
  then show "extract_u32 s ''checksum'' = Some (of_nat (unat (f_checksum f)))"
    by (rule extract_u32_decimal [OF _ delim(2) u8])
qed

lemma frame_json: "parse_frame_json (print_frame_json b64 f) = Inr f"
proof -
  have c: "ucast (ucast (w :: u8) :: u32) = w" for w
    by (rule unat_eqI) (simp add: unsigned_ucast_eq take_bit_word_eq_self)
  show ?thesis
    by (cases "f_checksum_type f"; cases f) (simp_all add: parse_frame_json_def frame_fields c default_frame_def)
qed

subsection \<open>The message written\<close>

definition relay_text :: "frame \<Rightarrow> string" where
  "relay_text f =
    ''{'' @ quoted ''protocol'' @ '':3,'' @ quoted ''version'' @ '':{'' @ quoted ''major'' @ '':0,'' @
    quoted ''minor'' @ '':0,'' @ quoted ''patch'' @ '':0},'' @
    quoted ''id'' @ '':'' @ quoted (decimal (unat (f_id f))) @ '','' @
    quoted ''payload'' @ '':'' @ quoted (base64_encode (f_data f)) @ '','' @
    quoted ''timestamp'' @ '':'' @ quoted ''0001-01-01T00:00:00Z'' @ '','' @
    quoted ''meta'' @ '':{'' @ quoted ''lin.checksum'' @ '':'' @ quoted (decimal (unat (f_checksum f))) @ '','' @
    quoted ''lin.checksum_type'' @ '':'' @ quoted (if f_checksum_type f = Enhanced then ''enhanced'' else ''classic'') @ ''}}''"



lemma message_text: "message_to_json (to_message f) = relay_text f"
proof -
  have num: "decimal_int 3 = ''3''" "decimal_int 0 = ''0''" by code_simp+
  have less: "''lin.checksum'' < ''lin.checksum_type''" by simp
  define ct where "ct = (if f_checksum_type f = Enhanced then ''enhanced'' else ''classic'')"
  have meta: "sort [(''lin.checksum_type'', ct), (''lin.checksum'', d)] = [(''lin.checksum'', d), (''lin.checksum_type'', ct)]" for d
    using less by simp
  show ?thesis
    by (simp add: message_to_json_def to_message_def empty_message_def num relay_text_def decimal_int_u8
        ct_def [symmetric] meta del: sort_key_simps)
qed

text \<open>The text is one line, so reading it line by line loses nothing.\<close>

lemma print_bytes_one_line: "CHR 0x0A \<notin> set (print_bytes data)"
  using digit_plain decimal_digits by (induction data rule: print_bytes.induct) (auto, blast+)

lemma alpha_one_line: "CHR 0x0A \<notin> set (base64_encode data)"
proof -
  have "CHR 0x0A \<notin> set kAlpha" by (simp add: kAlpha_def)
  then have "CHR 0x0A \<noteq> sextet b n" for b n
    using sextet_less [of n b] alpha_length by (metis nth_mem sextet_def)
  then show ?thesis by (induction data rule: base64_encode.induct) (simp_all add: Let_def)
qed

lemma print_frame_one_line: "CHR 0x0A \<notin> set (print_frame_json b64 f)"
proof -
  have d: "CHR 0x0A \<notin> set (decimal n)" for n using digit_plain decimal_digits by blast
  have "CHR 0x0A \<notin> set (payload_text b64 data)" for data
    using print_bytes_one_line alpha_one_line by (simp add: payload_text_def quoted_def dquote_def)
  then show ?thesis using d by (simp add: print_frame_json_def quoted_def dquote_def)
qed

interpretation b64: codec base64_encode base64_decode "\<lambda>d. d"
  by unfold_locales (simp_all add: base64_decode_encode)

interpretation json: codec "print_frame_json b64" parse_frame_json Inr for b64
  by unfold_locales (simp_all add: frame_json)

lemma base64_length: "length (base64_encode data) = 4 * ((length data + 2) div 3)"
proof (induction data rule: base64_encode.induct)
  case (4 x y z data)
  have "(5 + length data) div 3 = Suc ((2 + length data) div 3)" by presburger
  then show ?case using 4 by (simp add: Let_def)
qed (simp_all add: Let_def)

subsection \<open>Exit codes\<close>

text \<open>What every run of the tool has: an exit code of 0, 1 or 2, and one stream written to.\<close>

definition result_ok :: "cli_result \<Rightarrow> bool" where
  "result_ok r \<longleftrightarrow> exit_code r \<in> {0, 1, 2} \<and>
    (if exit_code r = 0 then std_out r \<noteq> [] \<and> std_err r = [] else std_out r = [] \<and> std_err r \<noteq> [])"

lemma nl_nonempty [simp]: "nl \<noteq> []" by (simp add: nl_def)

lemma result_ok_simps [simp]: "result_ok (succeed t) = (t \<noteq> [])" "result_ok (fail_with c t) = (c \<in> {1, 2} \<and> t \<noteq> [])"
  by (auto simp: result_ok_def succeed_def fail_with_def)

lemma format_flag_error: "format_flag args fmt = Inl e \<Longrightarrow> e \<noteq> []"
  by (induction args fmt rule: format_flag.induct) (auto split: if_splits)

lemma convert_args_error: "convert_args args p = Inl e \<Longrightarrow> e \<noteq> []"
  by (induction args p rule: convert_args.induct) (auto split: if_splits)

lemma cmd_ok: "result_ok (cmd_version ver fmt)" "result_ok (cmd_capabilities ver)" "result_ok (cmd_status ver fmt)"
  by (simp_all add: cmd_version_def cmd_capabilities_def cmd_status_def version_text_def status_text_def unsupported_format_def)

lemma cmd_convert_ok: "result_ok (cmd_convert p stdin)"
  by (simp add: cmd_convert_def Let_def split: sum.split)

lemma flag_ok: "(\<And>fmt. result_ok (g fmt)) \<Longrightarrow>
    result_ok (case parse_format_flag args of Inl e \<Rightarrow> fail_with 2 e | Inr fmt \<Rightarrow> g fmt)"
  using format_flag_error [of args "''json''"] by (simp add: parse_format_flag_def split: sum.split)

lemma args_ok: "(\<And>p. result_ok (g p)) \<Longrightarrow>
    result_ok (case convert_args args [] of Inl e \<Rightarrow> fail_with 2 e | Inr p \<Rightarrow> g p)"
  using convert_args_error [of args "[]"] by (simp split: sum.split)

lemma cli_ok: "result_ok (cli_main ver argv stdin)"
proof -
  consider "argv = []" | prog where "argv = [prog]" | prog cmd args where "argv = prog # cmd # args"
    by (metis list.exhaust)
  then show ?thesis
  proof cases
    case (3 prog cmd args)
    have "result_ok (if protocol = [] then fail_with 2 (''ErrMissingArg: --protocol required'' @ nl)
        else cmd_convert protocol stdin)" for protocol by (simp add: cmd_convert_ok)
    then show ?thesis
      unfolding 3 cli_main_def list.case by (simp only: if_True if_False flag_ok args_ok cmd_ok split: if_split) simp
  qed (simp_all add: cli_main_def usage_def)
qed

subsection \<open>Properties\<close>

text \<open>C14: \<open>convert\<close> end to end. For a frame given as one line of JSON, its payload as an array or in
  base64, the tool prints exactly one message, with the frame's identifier, its payload in base64 and
  its checksum and checksum type, and exits with 0; and if the frame does not validate, it prints
  nothing, names \<open>ErrInvalidFrame\<close> with the reason on standard error and exits with 1.\<close>

theorem convert_end_to_end:
  "cli_main ver [prog, ''convert'', ''--protocol'', ''LIN''] (print_frame_json b64 f @ nl) =
    (case validate_frame f of
       Inr _ \<Rightarrow> succeed (relay_text f @ nl)
     | Inl e \<Rightarrow> fail_with 1 (''ErrInvalidFrame: '' @ lin_what e @ nl))"
proof -
  have "concat (getlines (CHR 0x0A) (print_frame_json b64 f @ nl)) = print_frame_json b64 f"
    using getlines_Cons [OF print_frame_one_line, of b64 f "[]"] by (simp add: nl_def)
  moreover have "(to_message f)\<lparr>m_timestamp := 0\<rparr> = to_message f" by (simp add: to_message_def empty_message_def)
  ultimately show ?thesis
    by (simp add: cli_main_def cmd_convert_def frame_json message_text split: sum.split)
qed

text \<open>A frame survives its JSON. What \<open>parse_frame_json\<close> reads from the text of a frame is that frame,
  whether the payload is an array of numbers or base64.\<close>

theorem frame_json_roundtrip:
  "parse_frame_json (print_frame_json b64 f) = Inr f \<and> (print_frame_json b64 f = print_frame_json b64 g \<longleftrightarrow> f = g)"
  using json.dec_enc json.enc_eq_iff by blast

text \<open>Base64 is inverted on every payload, so that no two payloads have the same text, and takes four
  letters for each three bytes begun.\<close>

theorem base64_roundtrip:
  "base64_decode (base64_encode data) = data \<and>
   (base64_encode data = base64_encode data' \<longleftrightarrow> data = data') \<and>
   length (base64_encode data) = 4 * ((length data + 2) div 3)"
  using b64.dec_enc b64.enc_eq_iff base64_length by blast

text \<open>Every run of the tool ends with exit code 0, 1 or 2. With 0 it has written to standard output and
  nothing to standard error, otherwise to standard error and nothing to standard output, whatever the
  arguments and the input.\<close>

theorem cli_exit_codes:
  "exit_code (cli_main ver argv stdin) \<in> {0, 1, 2} \<and>
   (exit_code (cli_main ver argv stdin) = 0 \<longleftrightarrow> std_err (cli_main ver argv stdin) = []) \<and>
   (exit_code (cli_main ver argv stdin) = 0 \<longleftrightarrow> std_out (cli_main ver argv stdin) \<noteq> [])"
  using cli_ok [of ver argv stdin] by (auto simp: result_ok_def split: if_splits)

text \<open>An identifier of more than eight bits is cut, not refused. \<open>parse_frame_json\<close> keeps the low byte of
  any number below 2^32, so that 272 is converted as the frame 16.\<close>

theorem json_id_truncated:
  assumes "n < 2 ^ 32" and "digit_val 10 c = None"
  shows "\<exists>f. parse_frame_json (CHR ''{'' # quoted ''id'' @ CHR '':'' # decimal n @ c # rest) = Inr f \<and>
    f_id f = of_nat n"
proof -
  have "after_key (CHR ''{'' # quoted ''id'' @ CHR '':'' # decimal n @ c # rest) ''id'' = Some (decimal n @ c # rest)"
    by (subst after_key_step) (simp_all add: dquote_def after_key_hit drop_blanks_decimal)
  then have "extract_u32 (CHR ''{'' # quoted ''id'' @ CHR '':'' # decimal n @ c # rest) ''id'' = Some (of_nat n)"
    by (rule extract_u32_decimal [OF _ assms(2,1)])
  moreover have "ucast (of_nat n :: u32) = (of_nat n :: u8)"
    by (rule bit_word_eqI) (simp add: bit_simps bit_of_nat_iff)
  ultimately show ?thesis
    by (simp add: parse_frame_json_def default_frame_def Let_def split: option.split)
qed

theorem json_id_truncated_witness:
  "\<exists>f. parse_frame_json (CHR ''{'' # quoted ''id'' @ CHR '':'' # decimal 272 @ CHR ''}'' # []) = Inr f \<and> f_id f = 16"
proof -
  have low: "(of_nat 272 :: u8) = 16" by code_simp
  have "digit_val 10 (CHR ''}'') = None" using no_delim by simp
  then show ?thesis
    using json_id_truncated [of 272 "CHR ''}''" "[]", unfolded low] by simp
qed

end
