(* ===== verification/JsonTree.thy ===== *)
theory JsonTree
  imports CliProperties
begin

text \<open>
  The output of the tool as JSON. A strict reader, which takes only texts that every JSON parser
  takes (no white space between tokens, strings without escapes and control characters, integers
  without superfluous zeros), reads what \<open>cli/json.hpp\<close> writes, and gets the tree that was meant.
\<close>

subsection \<open>Trees and their texts\<close>

datatype json = JStr string | JNum int | JBool bool | JArr "json list" | JObj "(string \<times> json) list"

definition plain_char :: "char \<Rightarrow> bool" where
  "plain_char c \<longleftrightarrow> 32 \<le> char_nat c \<and> char_nat c < 127 \<and> char_nat c \<noteq> 34 \<and> char_nat c \<noteq> 92"

abbreviation plain :: "string \<Rightarrow> bool" where
  "plain s \<equiv> list_all plain_char s"

fun commas :: "string list \<Rightarrow> string" where
  "commas [] = []"
| "commas [x] = x"
| "commas (x # y # xs) = x @ CHR '','' # commas (y # xs)"

fun render :: "json \<Rightarrow> string" where
  "render (JStr s) = quoted s"
| "render (JNum i) = decimal_int i"
| "render (JBool b) = (if b then ''true'' else ''false'')"
| "render (JArr xs) = CHR ''['' # commas (map render xs) @ '']''"
| "render (JObj ms) = CHR ''{'' # commas (map (\<lambda>(k, v). quoted k @ CHR '':'' # render v) ms) @ ''}''"

fun plain_tree :: "json \<Rightarrow> bool" where
  "plain_tree (JStr s) \<longleftrightarrow> plain s"
| "plain_tree (JArr xs) \<longleftrightarrow> list_all plain_tree xs"
| "plain_tree (JObj ms) \<longleftrightarrow> list_all (\<lambda>(k, v). plain k \<and> plain_tree v) ms"
| "plain_tree _ \<longleftrightarrow> True"

subsection \<open>The reader\<close>

definition read_string :: "string \<Rightarrow> (string \<times> string) option" where
  "read_string s =
    (let t = takeWhile (\<lambda>c. c \<noteq> dquote) s; r = drop (length t) s
     in if r \<noteq> [] \<and> plain t then Some (t, tl r) else None)"

definition read_number :: "string \<Rightarrow> (int \<times> string) option" where
  "read_number s =
    (let neg = (s \<noteq> [] \<and> hd s = CHR ''-'');
         s1 = (if neg then tl s else s);
         ds = takeWhile (\<lambda>c. digit_val 10 c \<noteq> None) s1;
         n = int (digits_value 10 ds)
     in if ds = [] \<or> hd ds = CHR ''0'' \<and> tl ds \<noteq> [] then None
        else Some (if neg then - n else n, drop (length ds) s1))"

fun read_value :: "nat \<Rightarrow> string \<Rightarrow> (json \<times> string) option"
  and read_items :: "nat \<Rightarrow> string \<Rightarrow> (json list \<times> string) option"
  and read_members :: "nat \<Rightarrow> string \<Rightarrow> ((string \<times> json) list \<times> string) option" where
  "read_value 0 s = None"
| "read_value (Suc n) s =
    (case s of
       [] \<Rightarrow> None
     | c # r \<Rightarrow>
         if c = dquote then map_option (apfst JStr) (read_string r)
         else if c = CHR ''['' then
           (if r \<noteq> [] \<and> hd r = CHR '']'' then Some (JArr [], tl r) else map_option (apfst JArr) (read_items n r))
         else if c = CHR ''{'' then
           (if r \<noteq> [] \<and> hd r = CHR ''}'' then Some (JObj [], tl r) else map_option (apfst JObj) (read_members n r))
         else if take 4 s = ''true'' then Some (JBool True, drop 4 s)
         else if take 5 s = ''false'' then Some (JBool False, drop 5 s)
         else map_option (apfst JNum) (read_number s))"
| "read_items 0 s = None"
| "read_items (Suc n) s =
    (case read_value n s of
       Some (v, c # r) \<Rightarrow>
         if c = CHR '','' then map_option (apfst (Cons v)) (read_items n r)
         else if c = CHR '']'' then Some ([v], r) else None
     | _ \<Rightarrow> None)"
| "read_members 0 s = None"
| "read_members (Suc n) s =
    (case s of
       [] \<Rightarrow> None
     | q # r0 \<Rightarrow>
         if q \<noteq> dquote then None
         else case read_string r0 of
           Some (k, d # r1) \<Rightarrow>
             if d \<noteq> CHR '':'' then None
             else (case read_value n r1 of
                     Some (v, c # r) \<Rightarrow>
                       if c = CHR '','' then map_option (apfst (Cons (k, v))) (read_members n r)
                       else if c = CHR ''}'' then Some ([(k, v)], r) else None
                   | _ \<Rightarrow> None)
         | _ \<Rightarrow> None)"

text \<open>A whole text; one round of fuel for each character is enough.\<close>

definition read_json :: "string \<Rightarrow> json option" where
  "read_json s = (case read_value (Suc (length s)) s of Some (t, []) \<Rightarrow> Some t | _ \<Rightarrow> None)"

subsection \<open>Reading back a rendered tree\<close>

lemma dquote_not_plain: "\<not> plain_char dquote"
  by (simp add: plain_char_def dquote_def char_nat_def)

lemma read_string_quoted: "plain s \<Longrightarrow> read_string (s @ dquote # r) = Some (s, r)"
proof -
  assume s: "plain s"
  then have "dquote \<notin> set s" using dquote_not_plain by (auto simp: list_all_iff)
  then have "takeWhile (\<lambda>c. c \<noteq> dquote) (s @ dquote # r) = s" by (subst takeWhile_append2) auto
  then show ?thesis using s by (simp add: read_string_def Let_def)
qed

text \<open>What may follow a value: nothing that continues a number.\<close>

definition ends_number :: "string \<Rightarrow> bool" where
  "ends_number r \<longleftrightarrow> (r = [] \<or> digit_val 10 (hd r) = None)"

lemma ends_number_simps [simp]:
  "ends_number []" "ends_number (CHR '','' # r)" "ends_number (CHR '']'' # r)" "ends_number (CHR ''}'' # r)"
  using no_delim by (simp_all add: ends_number_def)

lemma decimal_no_zero: "hd (decimal n) = CHR ''0'' \<Longrightarrow> tl (decimal n) = []"
proof (induction n rule: decimal.induct)
  case (1 n)
  show ?case
  proof (cases "n < 10")
    case True
    then show ?thesis by (subst decimal.simps) simp
  next
    case False
    have zero: "hd (decimal n) = hd (decimal (n div 10))" using False by (subst decimal.simps) simp
    then have "tl (decimal (n div 10)) = []" using 1 False by simp
    then have "decimal (n div 10) = [CHR ''0'']" using 1(2) zero by (cases "decimal (n div 10)") auto
    then have "n div 10 = 0" using decimal_value [of "n div 10"] by (simp add: digits_value_def digit_val_def char_nat_def)
    then show ?thesis using False by simp
  qed
qed

lemma read_number_decimal:
  assumes "ends_number r"
  shows "read_number (decimal_int i @ r) = Some (i, r)"
proof -
  have digits: "takeWhile (\<lambda>c. digit_val 10 c \<noteq> None) (decimal n @ r) = decimal n" for n
  proof (subst takeWhile_append2)
    show "\<And>x. x \<in> set (decimal n) \<Longrightarrow> digit_val 10 x \<noteq> None" by (rule decimal_digits)
    show "decimal n @ takeWhile (\<lambda>c. digit_val 10 c \<noteq> None) r = decimal n"
      using assms by (cases r) (auto simp: ends_number_def)
  qed
  have sign: "hd (decimal n @ r) \<noteq> CHR ''-''" for n
    using digit_not_sign [OF decimal_hd [of n]] by (simp add: hd_append)
  show ?thesis
    using digits sign decimal_no_zero by (auto simp: read_number_def decimal_int_def Let_def decimal_value)
qed

definition number_start :: "char \<Rightarrow> bool" where
  "number_start c \<longleftrightarrow> c = CHR ''-'' \<or> digit_val 10 c \<noteq> None"

lemma number_start_not:
  "number_start c \<Longrightarrow> c \<noteq> dquote \<and> c \<noteq> CHR ''['' \<and> c \<noteq> CHR ''{'' \<and> c \<noteq> CHR ''t'' \<and> c \<noteq> CHR ''f'' \<and> c \<noteq> CHR '']''"
  by (auto simp: number_start_def digit_val_def dquote_def char_nat_def)

lemma number_head:
  obtains c cs where "decimal_int i = c # cs" "number_start c"
proof (cases "i < 0")
  case True
  then show thesis
    using that [of "CHR ''-''" "decimal (nat (- i))"] by (simp add: decimal_int_def number_start_def)
next
  case False
  obtain c cs where "decimal (nat i) = c # cs" by (cases "decimal (nat i)") auto
  then show thesis
    using that [of c cs] decimal_hd [of "nat i"] False by (simp add: decimal_int_def number_start_def)
qed

lemma read_value_number:
  assumes "ends_number r"
  shows "read_value (Suc n) (decimal_int i @ r) = Some (JNum i, r)"
proof -
  obtain c cs where c: "decimal_int i = c # cs" "number_start c" by (rule number_head)
  have "read_number (c # cs @ r) = Some (i, r)" using read_number_decimal [OF assms, of i] by (simp add: c(1))
  then show ?thesis using number_start_not [OF c(2)] by (simp add: c(1))
qed

lemma render_head: obtains c cs where "render t = c # cs" "c \<noteq> CHR '']''"
proof (cases t)
  case (JNum i)
  obtain c cs where "decimal_int i = c # cs" "number_start c" by (rule number_head)
  then show thesis using that number_start_not JNum by simp
next
  case (JBool b)
  then show thesis using that by (cases b) simp_all
qed (use that in \<open>auto simp: quoted_def dquote_def\<close>)

lemma commas_Cons: "commas (x # xs) = x @ (if xs = [] then [] else CHR '','' # commas xs)"
  by (cases xs) simp_all

lemma read_items_commas:
  assumes "xs \<noteq> []" "length (commas (map render xs)) < n"
    and "\<And>x n r. x \<in> set xs \<Longrightarrow> ends_number r \<Longrightarrow> length (render x) \<le> n \<Longrightarrow> read_value n (render x @ r) = Some (x, r)"
  shows "read_items n (commas (map render xs) @ CHR '']'' # r) = Some (xs, r)"
  using assms
proof (induction xs arbitrary: n)
  case (Cons x xs)
  then obtain m where n: "n = Suc m" by (cases n) auto
  define rest where "rest = (if xs = [] then [] else CHR '','' # commas (map render xs))"
  have text_eq: "commas (map render (x # xs)) = render x @ rest"
    by (simp only: list.map commas_Cons rest_def map_is_Nil_conv)
  have "read_value m (render x @ rest @ CHR '']'' # r) = Some (x, rest @ CHR '']'' # r)"
    using Cons.prems(2) text_eq by (intro Cons.prems(3)) (auto simp: n rest_def)
  moreover have "read_items m (commas (map render xs) @ CHR '']'' # r) = Some (xs, r)" if "xs \<noteq> []"
    using that Cons.prems(2) text_eq by (intro Cons.IH Cons.prems(3)) (auto simp: n rest_def)
  ultimately show ?case unfolding text_eq n by (cases "xs = []") (simp_all add: rest_def)
qed simp

lemma read_members_commas:
  assumes "ms \<noteq> []" "length (commas (map (\<lambda>(k, v). quoted k @ CHR '':'' # render v) ms)) < n"
    and "\<And>k v n r. (k, v) \<in> set ms \<Longrightarrow> ends_number r \<Longrightarrow> length (render v) \<le> n \<Longrightarrow> read_value n (render v @ r) = Some (v, r)"
    and "\<And>k v. (k, v) \<in> set ms \<Longrightarrow> plain k"
  shows "read_members n (commas (map (\<lambda>(k, v). quoted k @ CHR '':'' # render v) ms) @ CHR ''}'' # r) = Some (ms, r)"
  using assms
proof (induction ms arbitrary: n)
  case (Cons kv ms)
  obtain k v where kv: "kv = (k, v)" by (cases kv)
  obtain m where n: "n = Suc m" using Cons.prems(2) by (cases n) auto
  let ?f = "\<lambda>(k, v). quoted k @ CHR '':'' # render v"
  define rest where "rest = (if ms = [] then [] else CHR '','' # commas (map ?f ms))"
  have text_eq: "commas (map ?f (kv # ms)) = quoted k @ CHR '':'' # render v @ rest"
    by (simp add: commas_Cons rest_def kv)
  have k: "read_string (k @ dquote # CHR '':'' # render v @ rest @ CHR ''}'' # r) = Some (k, CHR '':'' # render v @ rest @ CHR ''}'' # r)"
    using Cons.prems(4) [of k v] by (intro read_string_quoted) (simp add: kv)
  have v: "read_value m (render v @ rest @ CHR ''}'' # r) = Some (v, rest @ CHR ''}'' # r)"
    using Cons.prems(2) text_eq by (intro Cons.prems(3) [of k]) (auto simp: n kv rest_def quoted_def)
  moreover have "read_members m (commas (map ?f ms) @ CHR ''}'' # r) = Some (ms, r)" if "ms \<noteq> []"
  proof (rule Cons.IH [OF that])
    show "length (commas (map ?f ms)) < m" using that Cons.prems(2) text_eq by (simp add: n rest_def)
    show "plain k" if "(k, v) \<in> set ms" for k v using Cons.prems(4) [of k v] that by simp
    show "read_value n (render v @ r) = Some (v, r)"
      if "(k, v) \<in> set ms" "ends_number r" "length (render v) \<le> n" for k v n r
      using Cons.prems(3) [of k v r n] that by simp
  qed
  ultimately show ?case
    unfolding text_eq n using k by (cases "ms = []") (simp_all add: rest_def quoted_def kv)
qed simp

lemma read_render:
  "plain_tree t \<Longrightarrow> ends_number r \<Longrightarrow> length (render t) \<le> n \<Longrightarrow> read_value n (render t @ r) = Some (t, r)"
proof (induction t arbitrary: r n)
  case (JStr s)
  then show ?case by (cases n) (simp_all add: quoted_def read_string_quoted)
next
  case (JNum i)
  then show ?case using read_value_number [of r _ i] number_head [of i] by (cases n) fastforce+
next
  case (JBool b)
  then show ?case by (cases n; cases b) (simp_all add: dquote_def)
next
  case (JArr xs)
  obtain m where n: "n = Suc m" using JArr.prems(3) by (cases n) auto
  show ?case
  proof (cases xs)
    case (Cons x ys)
    have "read_items m (commas (map render xs) @ CHR '']'' # r) = Some (xs, r)"
    proof (rule read_items_commas)
      show "read_value n (render x @ r) = Some (x, r)" if "x \<in> set xs" "ends_number r" "length (render x) \<le> n" for x n r
        using JArr.IH [OF that(1) _ that(2,3)] JArr.prems(1) that(1) by (simp add: list_all_iff)
    qed (use Cons JArr.prems(3) n in simp_all)
    moreover obtain c cs where "render x = c # cs" "c \<noteq> CHR '']''" by (rule render_head)
    ultimately show ?thesis using Cons by (simp add: n commas_Cons dquote_def)
  qed (simp add: n dquote_def)
next
  case (JObj ms)
  obtain m where n: "n = Suc m" using JObj.prems(3) by (cases n) auto
  let ?f = "\<lambda>(k, v). quoted k @ CHR '':'' # render v"
  show ?case
  proof (cases ms)
    case (Cons kv ms')
    have "read_members m (commas (map ?f ms) @ CHR ''}'' # r) = Some (ms, r)"
    proof (rule read_members_commas)
      show "read_value n (render v @ r) = Some (v, r)" if "(k, v) \<in> set ms" "ends_number r" "length (render v) \<le> n" for k v n r
        using JObj.IH [of "(k, v)" v] JObj.prems(1) that by (fastforce simp: list_all_iff)
      show "plain k" if "(k, v) \<in> set ms" for k v
        using JObj.prems(1) that by (auto simp: list_all_iff)
    qed (use Cons JObj.prems(3) n in simp_all)
    moreover have "\<exists>cs. commas (map ?f ms) = dquote # cs"
      using Cons by (cases kv) (simp add: commas_Cons quoted_def)
    ultimately show ?thesis by (auto simp: n dquote_def)
  qed (simp add: n dquote_def)
qed

lemma read_json_render: "plain_tree t \<Longrightarrow> read_json (render t) = Some t"
  using read_render [of t "[]" "Suc (length (render t))"] by (simp add: read_json_def)

subsection \<open>What the tool writes\<close>

definition message_tree :: "message \<Rightarrow> json" where
  "message_tree m = JObj
    ([(''protocol'', JNum (protocol_int (m_protocol m))),
      (''version'', JObj [(''major'', JNum (v_major (m_version m))), (''minor'', JNum (v_minor (m_version m))),
                          (''patch'', JNum (v_patch (m_version m)))]),
      (''id'', JStr (m_id m)),
      (''payload'', JStr (base64_encode (m_payload m))),
      (''timestamp'', JStr ''0001-01-01T00:00:00Z'')] @
     (if m_seq m \<noteq> 0 then [(''seq'', JNum (int (unat (m_seq m))))] else []) @
     (if m_meta m \<noteq> [] then [(''meta'', JObj (map (\<lambda>(k, v). (k, JStr v)) (sort (m_meta m))))] else []))"

definition strs :: "string list \<Rightarrow> json" where
  "strs xs = JArr (map JStr xs)"

definition version_tree :: "string \<Rightarrow> json" where
  "version_tree ver = JObj
    [(''tool'', JStr ''cpp-lin''), (''protocol'', JStr ''LIN''), (''protocol_int'', JNum 3), (''version'', JStr ver),
     (''spec_version'', JStr ''2.0''), (''language'', JStr ''cpp''), (''runtime'', JStr ''c++17'')]"

definition capabilities_tree :: "string \<Rightarrow> json" where
  "capabilities_tree ver = JObj
    [(''kind'', JStr ''capabilities''), (''tool'', JStr ''cpp-lin''), (''protocol'', JStr ''LIN''),
     (''protocol_int'', JNum 3), (''version'', JStr ver), (''spec_version'', JStr ''2.0''),
     (''commands'', strs [''version'', ''capabilities'', ''status'', ''convert'']),
     (''transports'', strs [''virtual'']),
     (''features'', strs [''ldf'', ''e2e'', ''master'', ''slave'', ''mock'']),
     (''interfaces'', strs [''IBus'', ''IMasterBus'', ''INode'']),
     (''optional_interfaces'', strs [''IHealthProvider'', ''IMetricsProvider'', ''IDrainer'']),
     (''adapt'', JBool True)]"

definition status_tree :: "string \<Rightarrow> json" where
  "status_tree ver = JObj
    [(''protocol'', JStr ''LIN''), (''tool'', JStr ''cpp-lin''), (''version'', JStr ver), (''healthy'', JBool True),
     (''connected'', JBool False), (''endpoint'', JStr []), (''details'', JObj [])]"

lemma decimal_int_unat: "decimal_int (int n) = decimal n" "decimal_int (uint w) = decimal (unat w)"
  by (simp_all add: decimal_int_def)

lemma decimal_int_3: "decimal_int 3 = ''3''"
  by code_simp

lemma meta_json_commas: "meta_json ms = commas (map (\<lambda>(k, v). quoted k @ CHR '':'' # quoted v) ms)"
  by (induction ms rule: meta_json.induct) simp_all

lemma message_rendered: "message_to_json m = render (message_tree m)"
proof -
  have meta: "map (\<lambda>(k, v). quoted k @ CHR '':'' # render v) (map (\<lambda>(k, v). (k, JStr v)) ms) =
      map (\<lambda>(k, v). quoted k @ CHR '':'' # quoted v) ms" for ms
    by (simp add: case_prod_beta)
  show ?thesis
    by (simp add: message_to_json_def message_tree_def meta_json_commas decimal_int_unat commas_Cons meta
        del: map_map)
qed

lemma quoted_nonempty [simp]: "quoted s \<noteq> []"
  by (simp add: quoted_def)

lemma fixed_rendered:
  "version_json ver = render (version_tree ver)" "status_json ver = render (status_tree ver)"
  "capabilities_json ver = render (capabilities_tree ver)"
  by (simp_all add: version_json_def version_tree_def status_json_def status_tree_def capabilities_json_def
      capabilities_tree_def strs_def field_def string_array_def decimal_int_3 commas_Cons)

lemma plain_alpha: "plain kAlpha"
  by (simp add: kAlpha_def plain_char_def char_nat_def)

lemma plain_base64: "plain (base64_encode data)"
proof -
  have s: "plain_char (sextet b n)" for b n
    using plain_alpha sextet_less [of n b] alpha_length by (simp add: sextet_def list_all_length)
  have e: "plain_char (CHR ''='')" by (simp add: plain_char_def char_nat_def)
  show ?thesis
    by (induction data rule: base64_encode.induct) (simp_all add: Let_def s e)
qed

lemma plain_decimal: "plain (decimal n)"
proof -
  have "plain_char c" if "digit_val 10 c \<noteq> None" for c
    using that by (auto simp: digit_val_def plain_char_def Let_def split: if_splits)
  then show ?thesis using decimal_digits by (auto simp: list_all_iff)
qed

lemma plain_words:
  "plain ''protocol'' \<and> plain ''version'' \<and> plain ''major'' \<and> plain ''minor'' \<and>
    plain ''patch'' \<and> plain ''id'' \<and> plain ''payload'' \<and> plain ''timestamp'' \<and>
    plain ''0001-01-01T00:00:00Z'' \<and> plain ''seq'' \<and> plain ''meta'' \<and>
    plain ''lin.checksum'' \<and> plain ''lin.checksum_type'' \<and> plain ''enhanced'' \<and>
    plain ''classic''"
  by code_simp

lemma plain_lists:
  "plain_tree (strs [''version'', ''capabilities'', ''status'', ''convert'']) \<and>
    plain_tree (strs [''virtual'']) \<and>
    plain_tree (strs [''ldf'', ''e2e'', ''master'', ''slave'', ''mock'']) \<and>
    plain_tree (strs [''IBus'', ''IMasterBus'', ''INode'']) \<and>
    plain_tree (strs [''IHealthProvider'', ''IMetricsProvider'', ''IDrainer''])"
  by code_simp

lemma plain_more_words:
  "plain ''tool'' \<and> plain ''cpp-lin'' \<and> plain ''LIN'' \<and> plain ''protocol_int'' \<and>
    plain ''spec_version'' \<and> plain ''2.0'' \<and> plain ''language'' \<and> plain ''cpp'' \<and>
    plain ''runtime'' \<and> plain ''c++17'' \<and> plain ''kind'' \<and>
    plain ''capabilities'' \<and> plain ''commands'' \<and> plain ''transports'' \<and>
    plain ''features'' \<and> plain ''interfaces'' \<and> plain ''optional_interfaces'' \<and>
    plain ''adapt'' \<and> plain ''healthy'' \<and> plain ''connected'' \<and>
    plain ''endpoint'' \<and> plain ''details''"
  by code_simp

text \<open>One member at a time, so that the words are not taken apart.\<close>

lemma plain_members:
  "plain_tree (JObj [])" "plain_tree (JObj ((k, v) # ms)) = (plain k \<and> plain_tree v \<and> plain_tree (JObj ms))"
  by simp_all

lemma plain_leaf: "plain_tree (JStr s) = plain s" "plain_tree (JNum i)" "plain_tree (JBool b)" "plain []"
  by simp_all

lemma plain_fixed:
  "plain ver \<Longrightarrow> plain_tree (version_tree ver)" "plain ver \<Longrightarrow> plain_tree (status_tree ver)"
  "plain ver \<Longrightarrow> plain_tree (capabilities_tree ver)"
  by (simp_all only: version_tree_def status_tree_def capabilities_tree_def plain_members plain_leaf
      plain_words plain_lists plain_more_words simp_thms)

lemma plain_meta:
  "\<forall>(k, v)\<in>set ms. plain k \<and> plain v \<Longrightarrow> plain_tree (JObj (map (\<lambda>(k, v). (k, JStr v)) (sort ms)))"
  by (auto simp: list_all_iff)

lemma plain_message:
  assumes "plain (m_id m)" "\<forall>(k, v)\<in>set (m_meta m). plain k \<and> plain v"
  shows "plain_tree (message_tree m)"
proof -
  note rules = message_tree_def append.simps append_Nil2 plain_members plain_leaf plain_words plain_base64
    plain_meta [OF assms(2)] assms(1) simp_thms
  show ?thesis
    by (cases "m_seq m \<noteq> 0"; cases "m_meta m \<noteq> []") (simp_all only: rules if_True if_False)
qed

lemma to_message_plain:
  "plain (m_id (to_message f))" "\<forall>(k, v)\<in>set (m_meta (to_message f)). plain k \<and> plain v"
proof -
  define a b where "a = ''lin.checksum''" and "b = ''lin.checksum_type''"
  define ct where "ct = (if f_checksum_type f = Enhanced then ''enhanced'' else ''classic'')"
  have "a \<noteq> b" by (simp add: a_def b_def)
  then have meta: "m_meta (to_message f) = [(b, ct), (a, decimal (unat (f_checksum f)))]"
    by (simp add: to_message_def decimal_int_u8 flip: a_def b_def ct_def)
  have "plain a" "plain b" using plain_words by (simp_all only: a_def b_def simp_thms)
  moreover have "plain ct"
    using plain_words by (cases "f_checksum_type f = Enhanced") (simp_all only: ct_def simp_thms if_True if_False)
  ultimately show "\<forall>(k, v)\<in>set (m_meta (to_message f)). plain k \<and> plain v"
    by (simp add: meta plain_decimal)
  show "plain (m_id (to_message f))" by (simp add: to_message_def decimal_int_u8 plain_decimal)
qed

subsection \<open>The property\<close>

text \<open>A message's text is read as the tree of its fields.\<close>

lemma message_read:
  "plain (m_id m) \<Longrightarrow> \<forall>(k, v)\<in>set (m_meta m). plain k \<and> plain v \<Longrightarrow> read_json (message_to_json m) = Some (message_tree m)"
  by (simp only: message_rendered read_json_render plain_message)

lemma fixed_read:
  "plain ver \<Longrightarrow> read_json (version_json ver) = Some (version_tree ver)"
  "plain ver \<Longrightarrow> read_json (status_json ver) = Some (status_tree ver)"
  "plain ver \<Longrightarrow> read_json (capabilities_json ver) = Some (capabilities_tree ver)"
  by (simp_all only: fixed_rendered read_json_render plain_fixed)

text \<open>The version of the specification the tool names is the constant of \<open>relay.hpp\<close>.\<close>

lemma spec_version_named:
  "(''spec_version'', JStr kSpecVersion) \<in> set (case version_tree ver of JObj ms \<Rightarrow> ms | _ \<Rightarrow> [])"
  by (simp add: version_tree_def kSpecVersion_def)

definition prints_json :: "string \<Rightarrow> cli_result \<Rightarrow> bool" where
  "prints_json ver r \<longleftrightarrow> (exit_code r = 0 \<longrightarrow>
     std_out r \<in> {version_text ver, status_text ver} \<or>
     (\<exists>j t. std_out r = j @ nl \<and> read_json j = Some t \<and>
        (t \<in> {version_tree ver, status_tree ver, capabilities_tree ver} \<or>
         (\<exists>f u. validate_frame f = Inr u \<and> t = message_tree (to_message f)))))"

lemma prints_json_fail [simp]: "c \<noteq> 0 \<Longrightarrow> prints_json ver (fail_with c e)"
  by (simp add: prints_json_def fail_with_def)

lemma prints_json_fixed:
  "plain ver \<Longrightarrow> prints_json ver (cmd_version ver fmt)" "plain ver \<Longrightarrow> prints_json ver (cmd_status ver fmt)"
  "plain ver \<Longrightarrow> prints_json ver (cmd_capabilities ver)"
  using fixed_read [of ver]
  by (auto simp: prints_json_def cmd_version_def cmd_status_def cmd_capabilities_def succeed_def fail_with_def)

lemma prints_json_convert: "prints_json ver (cmd_convert protocol stdin)"
proof -
  have same: "(to_message f)\<lparr>m_timestamp := 0\<rparr> = to_message f" for f
    by (simp add: to_message_def empty_message_def)
  have "prints_json ver (succeed (message_to_json (to_message f) @ nl))" if "validate_frame f = Inr u" for f u
    using message_read [OF to_message_plain, of f] that by (auto simp: prints_json_def succeed_def)
  then show ?thesis by (simp add: cmd_convert_def same Let_def split: sum.split)
qed

lemma cli_prints_json:
  assumes "plain ver"
  shows "prints_json ver (cli_main ver argv stdin)"
proof -
  consider "argv = []" | prog where "argv = [prog]" | prog cmd args where "argv = prog # cmd # args"
    by (metis list.exhaust)
  then show ?thesis
  proof cases
    case (3 prog cmd args)
    have flag: "(\<And>fmt. prints_json ver (g fmt)) \<Longrightarrow>
        prints_json ver (case parse_format_flag args of Inl e \<Rightarrow> fail_with 2 e | Inr fmt \<Rightarrow> g fmt)" for g
      by (cases "parse_format_flag args") simp_all
    have conv: "prints_json ver (case convert_args args [] of Inl e \<Rightarrow> fail_with 2 e
        | Inr p \<Rightarrow> if p = [] then fail_with 2 (''ErrMissingArg: --protocol required'' @ nl) else cmd_convert p stdin)"
      by (cases "convert_args args []") (simp_all add: prints_json_convert)
    show ?thesis
      unfolding 3 cli_main_def list.case
      by (simp only: if_True if_False flag conv prints_json_fixed [OF assms] split: if_split) simp
  qed (simp_all add: cli_main_def)
qed

text \<open>C16: whatever the arguments and the standard input, a run that succeeds has printed one of the two
  human-readable texts, or one line that a strict JSON reader accepts: the fields of the version, of
  the status, of the capabilities, or of the message of a frame that validates. (The version string
  of the build must be plain text.)\<close>

theorem tool_output_is_json:
  assumes "plain ver" "exit_code (cli_main ver argv stdin) = 0"
  shows "std_out (cli_main ver argv stdin) \<in> {version_text ver, status_text ver} \<or>
    (\<exists>j t. std_out (cli_main ver argv stdin) = j @ nl \<and> read_json j = Some t \<and>
       (t \<in> {version_tree ver, status_tree ver, capabilities_tree ver} \<or>
        (\<exists>f u. validate_frame f = Inr u \<and> t = message_tree (to_message f))))"
  using cli_prints_json [OF assms(1), of argv stdin] assms(2) by (simp add: prints_json_def)

theorem tool_output_is_json_witness:
  "\<exists>j t. capabilities_json ''0.5.0'' @ nl = j @ nl \<and> read_json j = Some t \<and>
     exit_code (cli_main ''0.5.0'' [''cpp-lin'', ''capabilities''] []) = 0"
proof -
  have ver: "plain ''0.5.0''" by code_simp
  have run: "cli_main ''0.5.0'' [''cpp-lin'', ''capabilities''] [] = succeed (capabilities_json ''0.5.0'' @ nl)"
    by (simp add: cli_main_def cmd_capabilities_def)
  have head: "hd (capabilities_json ''0.5.0'') = CHR ''{''" "hd (version_text ''0.5.0'') = CHR ''t''"
    "hd (status_text ''0.5.0'') = CHR ''p''" "capabilities_json ''0.5.0'' \<noteq> []"
    by (simp_all add: capabilities_json_def version_text_def status_text_def)
  define cap vt st where "cap = capabilities_json ''0.5.0''" and "vt = version_text ''0.5.0''" and "st = status_text ''0.5.0''"
  note folds = cap_def [symmetric] vt_def [symmetric] st_def [symmetric]
  have "hd (cap @ nl) = CHR ''{''" using head(1,4) by (simp add: hd_append folds)
  then have "cap @ nl \<noteq> vt" "cap @ nl \<noteq> st" using head(2,3) by (auto simp: folds)
  moreover have "std_out (succeed (cap @ nl)) = cap @ nl" "exit_code (succeed (cap @ nl)) = 0"
    by (simp_all add: succeed_def)
  ultimately show ?thesis
    using tool_output_is_json [OF ver, of "[''cpp-lin'', ''capabilities'']" "[]"]
    unfolding run folds by auto
qed

text \<open>The writer does not escape: an identifier with a quotation mark in it would spoil the text.\<close>

lemma id_not_escaped: "read_json (message_to_json (empty_message\<lparr>m_id := [dquote]\<rparr>)) = None"
  by code_simp

end
