(* ===== verification/Spec2Isabelle.thy ===== *)
theory Spec2Isabelle
  imports E2EOrder ChanRefine MasterReentry Drain Adapter BusRefinement BusProvenance BusDelivery LdfLayout LdfNumbers LdfSpeed JsonTree
begin

text \<open>
  A verification of cpp-LIN, a C++ library for the Local Interconnect Network: LIN frames and their
  checks, the RELAY bridge, bounded channels, an in-process bus, master and slave nodes,
  end-to-end protection of payloads, LDF network descriptions, and a command line tool.

  The parts of the program and how they meet. \<open>src/lin.cpp\<close> has the pure functions on frames
  (identifier parity, checksum, validation) and the bridge to RELAY messages; \<open>src/relay.cpp\<close> the
  types of that protocol-neutral layer. \<open>include/lin/channel.hpp\<close> is the queue between threads.
  \<open>src/virtual/bus.cpp\<close> is the bus: it keeps a response for each identifier, answers headers with
  frames, and offers each frame to the channel of every subscriber whose filters match, under the
  subscriber's back-pressure policy. \<open>src/slave/node.cpp\<close> publishes responses on a bus,
  \<open>src/master/node.cpp\<close> sends headers on one in the order of a schedule, and the adapter in
  \<open>src/lin.cpp\<close> publishes RELAY messages on a bus and turns the frames of a subscription into
  numbered messages with a thread of its own. \<open>src/safety/e2e.cpp\<close> wraps payloads in a header with
  identifiers, a counter and a CRC. \<open>src/ldf/parser.cpp\<close> reads the description of a network (nodes,
  signals, frames, schedule tables for the master) and decodes the signals of a payload.
  \<open>cli/main.cpp\<close> with \<open>cli/json.hpp\<close> is a tool that turns a frame in JSON into a RELAY message.

  The theories.
  \<^item> \<open>Prelude\<close>: machine types, outcomes of operations (returned, waiting, undefined), runs of state
    machines and the invariants along them (locale \<open>machine\<close>), shared facts on words and lists.
  \<^item> \<open>CppString\<close>: the parts of the C++ string library the code calls (searching, trimming, splitting,
    printing and reading integers); \<open>CppDouble\<close>: \<open>std::stod\<close> and the conversion of a \<open>double\<close> to an
    integer, on exact binary64 values, with its rounding in \<open>CppRounding\<close>.
  \<^item> \<open>Relay\<close>: \<open>relay.hpp\<close> and \<open>relay.cpp\<close>.
  \<^item> \<open>Lin\<close>: \<open>lin.hpp\<close> and the pure part of \<open>lin.cpp\<close>.
  \<^item> \<open>Crc16\<close>, \<open>E2E\<close>: \<open>safety/e2e.hpp\<close> and \<open>safety/e2e.cpp\<close>; \<open>E2ELoss\<close>, \<open>E2EOrder\<close>:
    a stream some of whose messages are lost, reordered or repeated, and threads that share a
    protector.
  \<^item> \<open>Channel\<close>: \<open>Chan<T>\<close> as a state and its operations; \<open>ChanSync\<close>: the same operations as
    critical sections of threads that sleep on its two condition variables; \<open>ChanRefine\<close>: these
    threads implement the operations of \<open>Channel\<close>.
  \<^item> \<open>Interfaces\<close>: the contracts of \<open>IBus\<close> and \<open>IMasterBus\<close> as locales.
  \<^item> \<open>VirtualBus\<close>, \<open>BusProperties\<close>: \<open>virtual/bus.hpp\<close> and \<open>virtual/bus.cpp\<close>, which provide both
    interfaces, and what the bus promises; \<open>BusRefinement\<close>: a specification without channels and
    counters, and the proof that the bus implements it; \<open>BusThreads\<close>: the bus under several threads,
    with the holders of its shared lock as part of the state; \<open>BusLossless\<close>: what a Block
    subscription receives then; \<open>BusDelivery\<close>: the operations that a subscriber's channel undergoes
    then, with the header that makes each; \<open>BusProvenance\<close>: where the frames come from, and end-to-end
    protection on that bus; \<open>Drain\<close>: a thread in \<open>close_with_drain\<close> on that bus.
  \<^item> \<open>SlaveNode\<close>, \<open>MasterNode\<close>, \<open>Adapter\<close>: the clients of the interfaces; \<open>MasterReentry\<close>: callbacks
    that call the master while \<open>run\<close> walks over its schedule, whose buffer then has an identity;
    \<open>Shutdown\<close>: the thread of \<open>run\<close> on the bus of \<open>BusThreads\<close> beside any other threads, and the
    shutdown order of the safety manual.
  \<^item> \<open>Ldf\<close>, \<open>LdfParser\<close>: \<open>ldf/parser.hpp\<close> and \<open>ldf/parser.cpp\<close>, the database with \<open>decode\<close>, and the
    parser, whose state is the list of lines from its position on; \<open>LdfInvariant\<close>: what every parsed
    database satisfies; \<open>LdfNumbers\<close>: which texts the parser comes to the end of; \<open>LdfPrint\<close>,
    \<open>LdfRoundtrip\<close>: a printer as the parser's specification, and the properties of whole files;
    \<open>LdfLayout\<close>: the same in any layout; \<open>LdfSpeed\<close>: how exactly a decimal number is read.
  \<^item> \<open>CliJson\<close>, \<open>CliMain\<close>, \<open>CliProperties\<close>: \<open>cli/json.hpp\<close>, \<open>cli/main.cpp\<close>, and what a run of the
    tool prints; \<open>JsonTree\<close>: a strict reader of JSON, and the trees it reads from that.

  State and operations. A class is a record of its data members; a member function is a definition
  that takes the record and returns what the function returns with the new record. A
  \<open>std::error_code\<close> is a number with its category, an exception the left side of a sum. Machine
  integers are words of their width, so arithmetic wraps as it does in the code. A
  \<open>shared_ptr<Chan<Frame>>\<close> is an index into the list of channels of the bus, so the bus and the
  holder of the pointer see one channel. A call that has to wait has the outcome \<open>Blocks\<close>, and one
  without defined behaviour the outcome \<open>UB\<close>. In \<open>VirtualBus\<close> each call of the bus is one step, as
  it is when calls do not overlap.

  Threads. In \<open>BusThreads\<close> calls of \<open>send_header\<close> overlap: each is split into its lookup, the
  rounds of its delivery loop and its return, and holds the bus's lock in shared mode in between;
  the operations that take the lock exclusively are single steps, possible while nobody holds it.
  The calls of \<open>VirtualBus\<close> are the runs of this machine in which the pieces of a call follow one
  another (\<open>whole_calls\<close>). \<open>ChanSync\<close> has a step relation whose steps are the critical sections of
  a channel's operations and the wake-ups, in any order; each of them is invisible or one whole
  operation of \<open>Channel\<close>. \<open>SlaveNode\<close> has the two critical sections of \<open>set_response\<close> as separate
  definitions. \<open>MasterNode\<close> runs the loop of \<open>run\<close> as a machine with a program counter, driven by
  a list of ticks, one for each load of the stop flag: what other threads did since the last one,
  the value loaded, the clock. \<open>Shutdown\<close> runs the same loop with its headers split as in
  \<open>BusThreads\<close>, in an arbitrary interleaving with other threads; runs that nobody disturbs are
  those of \<open>MasterNode\<close> (\<open>run_ticks_pieces\<close>). Its callbacks leave the bus alone; those of
  \<open>MasterNode\<close> and \<open>MasterReentry\<close> do not. \<open>E2EOrder\<close> splits \<open>protect\<close> into its atomic increment
  and the rest. \<open>Adapter\<close> interleaves the steps of its thread with arriving frames and the
  client's calls. \<open>Drain\<close> has \<open>close_with_drain\<close> with a program counter: each of its turns is given
  the clock's reading, the test of the channels is one turn for each subscription under the shared
  lock, the \<open>close\<close> at the end waits for the headers in their loops, and between two turns the other
  threads take steps of \<open>BusThreads\<close>. The program's definitions need no fuel: every recursion is over the
  list that drives it or over the code's own data, and the theorems on termination say how many
  elements suffice. The reference reader of \<open>JsonTree\<close> has one round of fuel for each character
  and one more, enough for every text that is rendered from a tree.

  What the lemmas show. Each component has an invariant that every operation keeps, a closed form
  of its operations where the code's control flow is long, and the contract its clients use. The
  numbered properties stand in the theory of the component they are about; below are those that
  span components.

  Not modelled: the memory model below mutexes and atomics (counters are updated atomically), which
  of several waiting threads a lock or a condition variable serves first, allocation failure, a
  callback of the master that replaces a callback or calls \<open>run\<close> itself, and errors of the input and
  output streams (a stream is the text it delivers). The abstract classes of \<open>relay.hpp\<close> and \<open>lin.hpp\<close>
  (\<open>INode\<close>, \<open>ICaller\<close> and the providers) have no code. The version string of the tool is generated by
  the build and is a parameter.
\<close>

text \<open>C40: end-to-end protection over the in-process bus. A protected payload published on an open bus comes
  back from a header as it went in, and a receiver with the protector's configuration, fresh or in
  step, unwraps it to the payload; but the frame that carried it is never a valid LIN frame, because
  the ten header bytes alone exceed the eight a frame may have.\<close>

theorem e2e_over_the_bus:
  assumes "bus_ok b" and "\<not> b_closed b" and "i \<le> 0x3F"
    and "r_cfg r = p_cfg p" and "r_first r \<or> p_seq p = r_last_seq r + 1"
    and "send_header i (snd (publish i (fst (protect p payload)) b)) = Ret ((f, e), b')"
  shows "\<not> is_error e \<and>
    unwrap r (f_data f) = (Inr payload, r\<lparr>r_first := False, r_last_seq := p_seq p\<rparr>) \<and>
    validate_frame f \<noteq> Inr ()"
proof -
  have ne: "fst (protect p payload) \<noteq> []" by (metis length_protect list.size(3) add_is_0 zero_neq_numeral)
  have "bus_open b" "i \<le> kLINMaxID" using assms(2,3) by (simp_all add: bus_open_def kLINMaxID_def)
  from vbus.pub_header [OF assms(1) this ne assms(6)]
  have f: "\<not> is_error e" "f_data f = fst (protect p payload)" by (simp_all add: answer_frame_def)
  moreover have "\<not> valid_frame f" by (simp add: valid_frame_def f(2) kLINMaxDataLen_def)
  ultimately show ?thesis using unwrap_protect [OF assms(4,5)] by (simp add: validate_frame_ok)
qed

theorem e2e_over_the_bus_witness:
  "\<exists>f b'. send_header 5 (snd (publish 5 (fst (protect (new_protector \<lparr>data_id = 7, source_id = 9\<rparr>) [1])) new_bus)) =
       Ret ((f, ok_code), b') \<and>
     fst (unwrap (new_receiver \<lparr>data_id = 7, source_id = 9\<rparr>) (f_data f)) = Inr [1]"
proof -
  let ?p = "new_protector \<lparr>data_id = 7, source_id = 9\<rparr>"
  let ?r = "new_receiver \<lparr>data_id = 7, source_id = 9\<rparr>"
  let ?b = "snd (publish 5 (fst (protect ?p [1])) new_bus)"
  have "bus_ok ?b" by (simp add: bus_inv)
  moreover have "no_block_subs ?b" by (simp add: no_block_subs_def) (simp add: new_bus_def)
  ultimately obtain x b' where h: "send_header 5 ?b = Ret (x, b')" by (rule send_header_returns)
  obtain f e where x: "x = (f, e)" by (cases x)
  have o: "\<not> b_closed new_bus" by (simp add: new_bus_def)
  have c: "r_cfg ?r = p_cfg ?p" "r_first ?r \<or> p_seq ?p = r_last_seq ?r + 1"
    by (simp_all add: new_protector_def new_receiver_def)
  have "\<not> is_error e \<and> fst (unwrap ?r (f_data f)) = Inr [1]"
    using e2e_over_the_bus [OF bus_ok_new o _ c h [unfolded x]] by simp
  moreover then have "e = ok_code"
    using h x send_header_closed_form [OF \<open>bus_ok ?b\<close>, of 5] by (auto simp: Let_def split: if_splits option.splits)
  ultimately show ?thesis using h x by blast
qed

text \<open>C21: from an LDF file to the wire. Any schedule table of a parsed file is accepted by the master node as
  it is, and whatever happens to the bus, the stop flag and the clock, the headers \<open>run\<close> then sends
  are a prefix of that table repeated, each for an identifier of a frame the file declares.\<close>

theorem ldf_schedule_drives_master:
  assumes "parse txt_in = Ret db" and "master_set_schedule (db_schedule db n) m = (e, m')"
    and "run_ticks header m' ts (run_start m' b) = Ret r"
  shows "e = ok_code \<and> (\<exists>k rest. run_slots r @ rest = concat (replicate k (db_schedule db n))) \<and>
    (\<forall>x\<in>set (mr_log r). db_frame db (se_id (ex_slot x)) \<noteq> None)"
proof -
  have "schedules_ok db" using parse_ok [OF assms(1)] by (simp add: db_ok_def)
  then have es: "\<forall>s\<in>set (db_schedule db n). se_id s \<le> kLINMaxID \<and> db_frames db (se_id s) \<noteq> None"
    by (cases "db_schedules db n") (auto simp: schedules_ok_def entries_ok_def db_schedule_def)
  then have m: "e = ok_code" "ms_schedule m' = db_schedule db n"
    using assms(2) by (auto simp: master_set_schedule_def list_ex_iff not_le [symmetric] split: if_splits)
  obtain k rest where k: "run_slots r @ rest = concat (replicate k (db_schedule db n))"
    using run_rounds [OF assms(3)] by (auto simp: m(2))
  have "set (run_slots r) \<subseteq> set (concat (replicate k (db_schedule db n)))"
    unfolding k [symmetric] by simp
  then have "set (run_slots r) \<subseteq> set (db_schedule db n)" by (auto split: if_splits)
  then have "\<forall>x\<in>set (mr_log r). db_frame db (se_id (ex_slot x)) \<noteq> None"
    using es by (auto simp: run_slots_def db_frame_def)
  with m(1) k show ?thesis by blast
qed

theorem ldf_schedule_drives_master_witness:
  "\<exists>db m' r. parse (print_ldf demo_file) = Ret db \<and>
     master_set_schedule (db_schedule db ''Normal'') new_master = (ok_code, m') \<and>
     run_ticks (\<lambda>i b. Ret ((default_frame, ok_code), b)) m'
       [\<lparr>tk_others = id, tk_stop = False, tk_now = 0\<rparr>, \<lparr>tk_others = id, tk_stop = False, tk_now = 5\<rparr>]
       (run_start m' (0 :: nat)) = Ret r \<and>
     map (se_id \<circ> ex_slot) (mr_log r) = [0x20] \<and> (\<forall>x\<in>set (mr_log r). db_frame db (se_id (ex_slot x)) \<noteq> None)"
proof -
  let ?h = "\<lambda>i b. Ret ((default_frame, ok_code), b)"
  let ?ts = "[\<lparr>tk_others = id, tk_stop = False, tk_now = 0\<rparr>, \<lparr>tk_others = id, tk_stop = False, tk_now = 5\<rparr>] :: nat tick list"
  obtain d where d: "stod (lf_speed demo_file) = Inr d" using demo_speed by blast
  define db where "db = db_of_file demo_file d"
  have p: "parse (print_ldf demo_file) = Ret db" using parse_print [OF demo_file_fits d] by (simp add: db_def)
  have es: "db_schedule db ''Normal'' = [\<lparr>se_id = 0x20, se_delay_ms = 20\<rparr>, \<lparr>se_id = 0x10, se_delay_ms = 10\<rparr>]"
    by (simp add: db_schedule_def db_def db_of_file_def demo_file_def)
  define m' :: "nat master" where "m' = new_master\<lparr>ms_schedule := db_schedule db ''Normal''\<rparr>"
  have m: "master_set_schedule (db_schedule db ''Normal'') new_master = (ok_code, m')"
    by (simp add: master_set_schedule_def m'_def es kLINMaxID_def)
  obtain r where r: "run_ticks ?h m' ?ts (run_start m' 0) = Ret r" "map (se_id \<circ> ex_slot) (mr_log r) = [0x20]"
    by (simp add: run_start_def run_step_def m'_def es next_slot_def callback_def new_master_def)
  show ?thesis
    using ldf_schedule_drives_master [OF p m r(1)]
    by (intro exI [of _ db] exI [of _ m'] exI [of _ r] conjI p m r) (elim conjE)
qed

end
